(* ===== verification/Prelude.thy ===== *)
theory Prelude
  imports Main "HOL-Library.Word" "HOL-Library.Multiset"
begin

text \<open>
  Shared vocabulary of the development: the machine types of \<^verbatim>\<open>kernel/types.h\<close>, the
  outcome of a kernel function, byte-addressed memory with little-endian loads and stores,
  and the generic facts on lists and words that the component theories use.
\<close>

unbundle bit_operations_syntax

section \<open>Machine types\<close>

text \<open>The typedefs of \<^verbatim>\<open>kernel/types.h\<close>; \<^verbatim>\<open>int\<close> is kept as a 32-bit word as well.\<close>

type_synonym u8 = "8 word"
type_synonym u16 = "16 word"
type_synonym u32 = "32 word"
type_synonym u64 = "64 word"

text \<open>
  Collections of rewrite rules. \<open>outcome_simps\<close> unfolds the sequencing of kernel functions,
  \<open>frame_simps\<close> says what an operation leaves alone.
\<close>

named_theorems outcome_simps
named_theorems frame_simps

section \<open>Outcomes\<close>

text \<open>
  A kernel function returns a value, calls \<^verbatim>\<open>panic\<close> with a message, dereferences a null
  pointer, which the kernel page table leaves unmapped so that the access traps, or hangs in
  a loop that only another CPU or nothing at all can end.
\<close>

datatype 'a outcome = Done 'a | Panic string | Fault | Hang

fun obind :: "'a outcome \<Rightarrow> ('a \<Rightarrow> 'b outcome) \<Rightarrow> 'b outcome" where
  "obind (Done a) f = f a"
| "obind (Panic m) f = Panic m"
| "obind Fault f = Fault"
| "obind Hang f = Hang"

declare obind.simps [outcome_simps]

lemma obind_cong [fundef_cong]:
  "m = m' \<Longrightarrow> (\<And>x. m' = Done x \<Longrightarrow> f x = g x) \<Longrightarrow> obind m f = obind m' g"
  by (cases m) auto

lemma obind_assoc: "obind (obind m f) g = obind m (\<lambda>x. obind (f x) g)"
  by (cases m) auto

lemma obind_Done_right [simp]: "obind m Done = m"
  by (cases m) auto

lemma obind_eq_Done [outcome_simps]:
  "obind m f = Done b \<longleftrightarrow> (\<exists>a. m = Done a \<and> f a = Done b)"
  by (cases m) auto

text \<open>Reading through a pointer that may be null.\<close>

fun deref :: "'a option \<Rightarrow> 'a outcome" where
  "deref None = Fault"
| "deref (Some a) = Done a"

lemma deref_eq_Done [outcome_simps]: "deref p = Done a \<longleftrightarrow> p = Some a"
  by (cases p) auto

text \<open>A loop over the elements of a list that may panic.\<close>

fun ofold :: "('a \<Rightarrow> 's \<Rightarrow> 's outcome) \<Rightarrow> 'a list \<Rightarrow> 's \<Rightarrow> 's outcome" where
  "ofold f [] s = Done s"
| "ofold f (x # xs) s = obind (f x s) (ofold f xs)"

lemma ofold_cong [fundef_cong]:
  "xs = ys \<Longrightarrow> s = t \<Longrightarrow> (\<And>x u. x \<in> set ys \<Longrightarrow> f x u = g x u) \<Longrightarrow> ofold f xs s = ofold g ys t"
proof (induction ys arbitrary: xs s t)
  case (Cons y ys)
  then have "ofold f ys = ofold g ys" by (auto intro!: ext)
  with Cons.prems show ?case by simp
qed simp

lemma ofold_append: "ofold f (xs @ ys) s = obind (ofold f xs s) (ofold f ys)"
  by (induction xs arbitrary: s) (auto simp: obind_assoc intro: obind_cong)

text \<open>An invariant of the loop that every step keeps.\<close>

lemma ofold_invariant:
  assumes "P s" and "\<And>x s. x \<in> set xs \<Longrightarrow> P s \<Longrightarrow> \<exists>s'. f x s = Done s' \<and> P s'"
  shows "\<exists>s'. ofold f xs s = Done s' \<and> P s'"
  using assms
proof (induction xs arbitrary: s)
  case (Cons x xs)
  then obtain s1 where s1: "f x s = Done s1" "P s1" by force
  have "\<exists>s'. ofold f xs s1 = Done s' \<and> P s'" by (rule Cons.IH) (use Cons.prems s1 in auto)
  with s1 show ?case by simp
qed simp

section \<open>Memory\<close>

text \<open>Physical memory as the kernel sees it: a byte for every 64-bit address.\<close>

type_synonym mem = "u64 \<Rightarrow> u8"

text \<open>Little-endian access to \<open>n\<close> consecutive bytes, \<open>n \<le> 8\<close>.\<close>

fun load_le :: "nat \<Rightarrow> mem \<Rightarrow> u64 \<Rightarrow> u64" where
  "load_le 0 m a = 0"
| "load_le (Suc n) m a = ucast (m a) OR push_bit 8 (load_le n m (a + 1))"

fun store_le :: "nat \<Rightarrow> mem \<Rightarrow> u64 \<Rightarrow> u64 \<Rightarrow> mem" where
  "store_le 0 m a v = m"
| "store_le (Suc n) m a v = store_le n (m(a := ucast v)) (a + 1) (drop_bit 8 v)"

abbreviation load64 :: "mem \<Rightarrow> u64 \<Rightarrow> u64" where
  "load64 \<equiv> load_le 8"

abbreviation store64 :: "mem \<Rightarrow> u64 \<Rightarrow> u64 \<Rightarrow> mem" where
  "store64 \<equiv> store_le 8"

text \<open>The range \<open>[a, a + n)\<close> of addresses, with the wrap-around of 64-bit arithmetic.\<close>

definition in_range :: "u64 \<Rightarrow> nat \<Rightarrow> u64 \<Rightarrow> bool" where
  "in_range a n b \<longleftrightarrow> unat (b - a) < n"

lemma in_range_self [simp]: "in_range a n a \<longleftrightarrow> 0 < n"
  by (simp add: in_range_def)

lemma unat_diff_Suc: "(b :: u64) \<noteq> a \<Longrightarrow> unat (b - a) = Suc (unat (b - (a + 1)))"
proof -
  assume "b \<noteq> a"
  then have nz: "b - a \<noteq> 0" by simp
  then have "0 < unat (b - a)" by (simp add: unat_gt_0)
  moreover have "unat (b - a - 1) = unat (b - a) - 1" using nz by (rule unat_minus_one)
  moreover have "b - (a + 1) = b - a - 1" by (simp add: algebra_simps)
  ultimately show ?thesis by (simp only:)
qed

lemma in_range_Suc: "b \<noteq> a \<Longrightarrow> in_range a (Suc n) b \<longleftrightarrow> in_range (a + 1) n b"
  by (simp add: in_range_def unat_diff_Suc)

lemma store_le_other [frame_simps]: "\<not> in_range a n b \<Longrightarrow> store_le n m a v b = m b"
proof (induction n arbitrary: m a v)
  case 0
  then show ?case by simp
next
  case (Suc n)
  then have "b \<noteq> a" by auto
  with Suc show ?case by (simp add: in_range_Suc)
qed

lemma not_in_range_next: "n < 2 ^ 64 \<Longrightarrow> \<not> in_range (a + 1) n a"
proof
  assume "n < 2 ^ 64" and "in_range (a + 1) n a"
  moreover have "unat (a - (a + 1)) = 2 ^ 64 - 1" by (simp add: unat_eq_nat_uint uint_word_ariths)
  ultimately show False by (simp only: in_range_def)
qed

lemma in_range_Suc_iff: "in_range a (Suc n) b \<longleftrightarrow> b = a \<or> in_range (a + 1) n b"
  by (cases "b = a") (auto simp: in_range_Suc)

lemma store_le_before: "n < 2 ^ 64 \<Longrightarrow> store_le n m (a + 1) v a = m a"
  by (rule store_le_other) (rule not_in_range_next)

lemma load_le_cong: "(\<And>b. in_range a n b \<Longrightarrow> m b = m' b) \<Longrightarrow> load_le n m a = load_le n m' a"
proof (induction n arbitrary: a)
  case 0
  then show ?case by simp
next
  case (Suc n)
  have "m a = m' a" by (rule Suc.prems) simp
  moreover have "load_le n m (a + 1) = load_le n m' (a + 1)"
  proof (rule Suc.IH)
    fix b assume b: "in_range (a + 1) n b"
    show "m b = m' b"
      by (cases "b = a") (auto intro: Suc.prems simp: in_range_Suc b \<open>m a = m' a\<close>)
  qed
  ultimately show ?case by simp
qed

lemma take_bit_step:
  "ucast (ucast (v :: u64) :: u8) OR push_bit 8 (take_bit (8 * n) (drop_bit 8 v))
     = take_bit (8 * Suc n) v"
  by (rule bit_word_eqI) (auto simp: bit_simps not_less)

lemma load_store_le: "n < 2 ^ 64 \<Longrightarrow> load_le n (store_le n m a v) a = take_bit (8 * n) v"
proof (induction n arbitrary: m a v)
  case 0
  then show ?case by simp
next
  case (Suc n)
  then show ?case
    by (simp add: store_le_before take_bit_step del: mult_Suc_right)
qed

lemma load64_store64 [simp]: "load64 (store64 m a v) a = v"
  by (simp add: load_store_le take_bit_word_eq_self del: load_le.simps store_le.simps)

section \<open>Bounds of machine values\<close>

lemma unat_u32_bound: "unat (x :: u32) < 2 ^ 32"
  by (rule order.strict_trans2 [OF unsigned_less]) simp

lemma unat_u64_bound: "unat (x :: u64) < 2 ^ 64"
  by (rule order.strict_trans2 [OF unsigned_less]) simp

lemma unat_of_nat_u64: "n < 2 ^ 64 \<Longrightarrow> unat (of_nat n :: u64) = n"
  by (simp add: unat_of_nat)

section \<open>Reachable states\<close>

text \<open>The states that steps \<open>R\<close> reach from initial states \<open>I\<close>, and the invariant rule.\<close>

inductive reach :: "('s \<Rightarrow> bool) \<Rightarrow> ('s \<Rightarrow> 's \<Rightarrow> bool) \<Rightarrow> 's \<Rightarrow> bool" for I R where
  reach_init: "I s \<Longrightarrow> reach I R s"
| reach_step: "reach I R s \<Longrightarrow> R s t \<Longrightarrow> reach I R t"

lemma reach_invariant:
  assumes "reach I R s"
    and "\<And>s. I s \<Longrightarrow> P s"
    and "\<And>s t. P s \<Longrightarrow> R s t \<Longrightarrow> P t"
  shows "P s"
  using assms(1) by induction (auto intro: assms(2,3))

lemma reach_rtranclp: "reach I R s \<Longrightarrow> R\<^sup>*\<^sup>* s t \<Longrightarrow> reach I R t"
  by (rotate_tac, induction rule: rtranclp_induct) (auto intro: reach_step)

lemma three_steps: "R a b \<Longrightarrow> R b c \<Longrightarrow> R c d \<Longrightarrow> R\<^sup>*\<^sup>* a d"
  by (intro converse_rtranclp_into_rtranclp [of R a b] converse_rtranclp_into_rtranclp [of R b c]
      converse_rtranclp_into_rtranclp [of R c d]) auto

end
