(* ===== verification/Spinlock.thy ===== *)
theory Spinlock
  imports Prelude
begin

text \<open>
  \<^verbatim>\<open>kernel/spinlock.c\<close> and the interrupt bits of \<^verbatim>\<open>kernel/riscv.h\<close>: nested interrupt
  disabling (\<open>push_off\<close>, \<open>pop_off\<close>), the spin lock (\<open>acquire\<close>, \<open>release\<close>, \<open>holding\<close>), and
  the interleaving of several CPUs contending for one lock as a step relation.
\<close>

section \<open>The interrupt-enable bit\<close>

text \<open>
  What one hart keeps for this component: its \<^verbatim>\<open>sstatus\<close> register and the two fields of
  \<^verbatim>\<open>struct cpu\<close> that \<open>push_off\<close> and \<open>pop_off\<close> use.
\<close>

record hart =
  sstatus :: u64
  noff :: int
  intena :: bool

definition SSTATUS_SIE :: u64 where
  "SSTATUS_SIE = push_bit 1 1"

definition intr_on :: "hart \<Rightarrow> hart" where
  "intr_on h = h\<lparr>sstatus := sstatus h OR SSTATUS_SIE\<rparr>"

definition intr_off :: "hart \<Rightarrow> hart" where
  "intr_off h = h\<lparr>sstatus := sstatus h AND NOT SSTATUS_SIE\<rparr>"

definition intr_get :: "hart \<Rightarrow> bool" where
  "intr_get h \<longleftrightarrow> sstatus h AND SSTATUS_SIE \<noteq> 0"

definition push_off :: "hart \<Rightarrow> hart" where
  "push_off h =
     (let old = intr_get h;
          h = intr_off h;
          h = (if noff h = 0 then h\<lparr>intena := old\<rparr> else h)
      in h\<lparr>noff := noff h + 1\<rparr>)"

definition pop_off :: "hart \<Rightarrow> hart outcome" where
  "pop_off h =
     (if intr_get h then Panic ''pop_off - interruptible''
      else if noff h < 1 then Panic ''pop_off''
      else (let h = h\<lparr>noff := noff h - 1\<rparr>
            in Done (if noff h = 0 \<and> intena h then intr_on h else h)))"

section \<open>The lock\<close>

text \<open>\<open>lk_cpu\<close> is the index into \<^verbatim>\<open>cpus[]\<close> of the holder, \<open>None\<close> for the null pointer.\<close>

record spinlock =
  lk_locked :: u32
  lk_name :: string
  lk_cpu :: "nat option"

definition initlock :: "string \<Rightarrow> spinlock" where
  "initlock nm = \<lparr>lk_locked = 0, lk_name = nm, lk_cpu = None\<rparr>"

definition holding :: "nat \<Rightarrow> spinlock \<Rightarrow> bool" where
  "holding c lk \<longleftrightarrow> lk_locked lk \<noteq> 0 \<and> lk_cpu lk = Some c"

text \<open>
  \<^verbatim>\<open>__sync_lock_test_and_set(&lk->locked, 1)\<close>: the old value, and the word set to 1.
\<close>

definition test_and_set :: "spinlock \<Rightarrow> u32 \<times> spinlock" where
  "test_and_set lk = (lk_locked lk, lk\<lparr>lk_locked := 1\<rparr>)"

text \<open>
  \<open>acquire\<close> run by CPU \<open>c\<close> with no other CPU taking a step: when the first test-and-set finds
  the lock taken, nothing ends the loop.
\<close>

definition acquire :: "nat \<Rightarrow> hart \<times> spinlock \<Rightarrow> (hart \<times> spinlock) outcome" where
  "acquire c = (\<lambda>(h, lk).
     (let h = push_off h in
      if holding c lk then Panic ''acquire''
      else (case test_and_set lk of (old, lk) \<Rightarrow>
        if old \<noteq> 0 then Hang
        else Done (h, lk\<lparr>lk_cpu := Some c\<rparr>))))"

definition release :: "nat \<Rightarrow> hart \<times> spinlock \<Rightarrow> (hart \<times> spinlock) outcome" where
  "release c = (\<lambda>(h, lk).
     if \<not> holding c lk then Panic ''release''
     else (let lk = lk\<lparr>lk_cpu := None\<rparr>;
               lk = lk\<lparr>lk_locked := 0\<rparr>
           in obind (pop_off h) (\<lambda>h. Done (h, lk))))"

section \<open>Interrupt nesting\<close>

lemma intr_get_bit: "intr_get h \<longleftrightarrow> bit (sstatus h) 1"
  using and_exp_eq_0_iff_not_bit [of "sstatus h" 1] by (simp add: intr_get_def SSTATUS_SIE_def)

lemma intr_get_on [simp]: "intr_get (intr_on h)"
  by (simp add: intr_get_bit intr_on_def SSTATUS_SIE_def bit_simps)

lemma intr_get_off [simp]: "\<not> intr_get (intr_off h)"
  by (simp add: intr_get_bit intr_off_def SSTATUS_SIE_def bit_simps)

lemma intr_fields [simp]:
  "noff (intr_on h) = noff h" "noff (intr_off h) = noff h"
  "intena (intr_on h) = intena h" "intena (intr_off h) = intena h"
  by (simp_all add: intr_on_def intr_off_def)

lemma push_off_simps [simp]:
  "noff (push_off h) = noff h + 1"
  "\<not> intr_get (push_off h)"
  "intena (push_off h) = (if noff h = 0 then intr_get h else intena h)"
  by (auto simp: push_off_def Let_def intr_get_bit intr_off_def SSTATUS_SIE_def bit_simps)

lemma sstatus_on_off:
  "(x OR SSTATUS_SIE) AND NOT SSTATUS_SIE = x AND NOT SSTATUS_SIE"
  "(x AND NOT SSTATUS_SIE) AND NOT SSTATUS_SIE = x AND NOT SSTATUS_SIE"
  by (simp_all add: bit_eq_iff bit_simps SSTATUS_SIE_def) auto

lemma sstatus_restore_on: "bit x 1 \<Longrightarrow> (x AND NOT SSTATUS_SIE) OR SSTATUS_SIE = x"
  by (rule bit_word_eqI) (auto simp: bit_simps SSTATUS_SIE_def)

lemma sstatus_restore_off: "\<not> bit x 1 \<Longrightarrow> x AND NOT SSTATUS_SIE = x"
  by (rule bit_word_eqI) (auto simp: bit_simps SSTATUS_SIE_def)

text \<open>A sequence of calls of \<open>push_off\<close> and \<open>pop_off\<close>, and the depth it leaves.\<close>

datatype off_op = Push | Pop

fun run_off :: "off_op list \<Rightarrow> hart \<Rightarrow> hart outcome" where
  "run_off [] h = Done h"
| "run_off (Push # os) h = run_off os (push_off h)"
| "run_off (Pop # os) h = obind (pop_off h) (run_off os)"

fun depth_after :: "nat \<Rightarrow> off_op list \<Rightarrow> nat option" where
  "depth_after k [] = Some k"
| "depth_after k (Push # os) = depth_after (Suc k) os"
| "depth_after 0 (Pop # os) = None"
| "depth_after (Suc k) (Pop # os) = depth_after k os"

text \<open>
  What holds at depth \<open>k\<close> of a run that started from \<open>h0\<close> with no \<open>push_off\<close> pending: the
  register differs from that of \<open>h0\<close> in the interrupt bit only, which is clear inside, and
  \<open>intena\<close> remembers it.
\<close>

definition off_inv :: "hart \<Rightarrow> nat \<Rightarrow> hart \<Rightarrow> bool" where
  "off_inv h0 k h \<longleftrightarrow> noff h = int k \<and>
     (if k = 0 then sstatus h = sstatus h0
      else sstatus h = sstatus h0 AND NOT SSTATUS_SIE \<and> intena h = intr_get h0)"

lemma off_inv_not_intr: "off_inv h0 (Suc k) h \<Longrightarrow> \<not> intr_get h"
  by (simp add: off_inv_def intr_get_bit bit_simps SSTATUS_SIE_def)

lemma off_inv_push: "off_inv h0 k h \<Longrightarrow> off_inv h0 (Suc k) (push_off h)"
  by (auto simp: off_inv_def push_off_def Let_def intr_off_def intr_get_bit sstatus_on_off
      split: if_splits)

lemma off_inv_pop:
  assumes "off_inv h0 (Suc k) h"
  obtains h' where "pop_off h = Done h'" and "off_inv h0 k h'"
proof -
  have "\<not> intr_get h" using assms by (rule off_inv_not_intr)
  moreover have "\<not> noff h < 1" using assms by (simp add: off_inv_def)
  ultimately obtain h' where h': "pop_off h = Done h'"
    and eq: "h' = (if k = 0 \<and> intena h then intr_on (h\<lparr>noff := noff h - 1\<rparr>)
                   else h\<lparr>noff := noff h - 1\<rparr>)"
    using assms by (auto simp: pop_off_def off_inv_def Let_def)
  have "off_inv h0 k h'"
    using assms
    by (auto simp: eq off_inv_def intr_on_def intr_get_bit sstatus_restore_on sstatus_restore_off split: if_splits)
  with h' show ?thesis by (rule that)
qed

lemma run_off_inv:
  "depth_after k os = Some k' \<Longrightarrow> off_inv h0 k h \<Longrightarrow>
     \<exists>h'. run_off os h = Done h' \<and> off_inv h0 k' h'"
proof (induction k os arbitrary: h rule: depth_after.induct)
  case (4 k os)
  from 4(3) obtain h1 where "pop_off h = Done h1" "off_inv h0 k h1" by (rule off_inv_pop)
  with 4 show ?case by simp
qed (auto intro: off_inv_push)

section \<open>Sequential use of one lock\<close>

lemma acquire_free:
  "lk_locked lk = 0 \<Longrightarrow>
     acquire c (h, lk) = Done (push_off h, lk\<lparr>lk_locked := 1, lk_cpu := Some c\<rparr>)"
  by (simp add: acquire_def holding_def test_and_set_def Let_def)

lemma acquire_held_self: "holding c lk \<Longrightarrow> acquire c (h, lk) = Panic ''acquire''"
  by (simp add: acquire_def Let_def)

lemma acquire_held_other:
  "lk_locked lk \<noteq> 0 \<Longrightarrow> lk_cpu lk \<noteq> Some c \<Longrightarrow> acquire c (h, lk) = Hang"
  by (simp add: acquire_def holding_def test_and_set_def Let_def)

lemma release_not_held: "\<not> holding c lk \<Longrightarrow> release c (h, lk) = Panic ''release''"
  by (simp add: release_def)

section \<open>Several CPUs and one lock\<close>

text \<open>
  Where a CPU stands between the atomic actions of \<open>acquire\<close> and \<open>release\<close>: in the loop
  around the test-and-set; past it with \<^verbatim>\<open>lk->cpu\<close> not yet recorded; returned from
  \<open>acquire\<close>; in \<open>release\<close> with \<^verbatim>\<open>lk->cpu\<close> cleared; with the word cleared and \<open>pop_off\<close> to
  come; stopped in \<^verbatim>\<open>panic\<close>.
\<close>

datatype lock_pc = Idle | Spinning | Taken | Critical | Dropping | Popping | Panicked

record lock_sys =
  harts :: "nat \<Rightarrow> hart"
  lck :: spinlock
  pcs :: "nat \<Rightarrow> lock_pc"

inductive lock_step :: "lock_sys \<Rightarrow> lock_sys \<Rightarrow> bool" where
  start: "pcs s c = Idle \<Longrightarrow> \<not> holding c (lck s) \<Longrightarrow>
    lock_step s (s\<lparr>harts := (harts s)(c := push_off (harts s c)), pcs := (pcs s)(c := Spinning)\<rparr>)"
| start_panic: "pcs s c = Idle \<Longrightarrow> holding c (lck s) \<Longrightarrow>
    lock_step s (s\<lparr>harts := (harts s)(c := push_off (harts s c)), pcs := (pcs s)(c := Panicked)\<rparr>)"
| spin: "pcs s c = Spinning \<Longrightarrow> test_and_set (lck s) = (old, lk) \<Longrightarrow> old \<noteq> 0 \<Longrightarrow>
    lock_step s (s\<lparr>lck := lk\<rparr>)"
| take: "pcs s c = Spinning \<Longrightarrow> test_and_set (lck s) = (old, lk) \<Longrightarrow> old = 0 \<Longrightarrow>
    lock_step s (s\<lparr>lck := lk, pcs := (pcs s)(c := Taken)\<rparr>)"
| record_cpu: "pcs s c = Taken \<Longrightarrow>
    lock_step s (s\<lparr>lck := (lck s)\<lparr>lk_cpu := Some c\<rparr>, pcs := (pcs s)(c := Critical)\<rparr>)"
| drop: "pcs s c = Critical \<Longrightarrow> holding c (lck s) \<Longrightarrow>
    lock_step s (s\<lparr>lck := (lck s)\<lparr>lk_cpu := None\<rparr>, pcs := (pcs s)(c := Dropping)\<rparr>)"
| drop_panic: "pcs s c = Critical \<Longrightarrow> \<not> holding c (lck s) \<Longrightarrow>
    lock_step s (s\<lparr>pcs := (pcs s)(c := Panicked)\<rparr>)"
| clear: "pcs s c = Dropping \<Longrightarrow>
    lock_step s (s\<lparr>lck := (lck s)\<lparr>lk_locked := 0\<rparr>, pcs := (pcs s)(c := Popping)\<rparr>)"
| pop: "pcs s c = Popping \<Longrightarrow> pop_off (harts s c) = Done h \<Longrightarrow>
    lock_step s (s\<lparr>harts := (harts s)(c := h), pcs := (pcs s)(c := Idle)\<rparr>)"
| pop_panic: "pcs s c = Popping \<Longrightarrow> pop_off (harts s c) = Panic m \<Longrightarrow>
    lock_step s (s\<lparr>pcs := (pcs s)(c := Panicked)\<rparr>)"

text \<open>Boot: the lock is initialised and no CPU has a \<open>push_off\<close> pending.\<close>

definition lock_init :: "lock_sys \<Rightarrow> bool" where
  "lock_init s \<longleftrightarrow> (\<exists>nm. lck s = initlock nm) \<and> (\<forall>c. pcs s c = Idle \<and> noff (harts s c) = 0)"

definition owns :: "lock_pc \<Rightarrow> bool" where
  "owns p \<longleftrightarrow> p \<in> {Taken, Critical, Dropping}"

text \<open>
  The invariant names the owner, if there is one, and ties the word, the recorded CPU, the
  program counters and the nesting depth to it; mutual exclusion alone is not preserved by
  the steps.
\<close>

definition lock_inv :: "nat option \<Rightarrow> lock_sys \<Rightarrow> bool" where
  "lock_inv ow s \<longleftrightarrow>
     (\<forall>c. owns (pcs s c) \<longleftrightarrow> ow = Some c) \<and>
     (lk_locked (lck s) = 0 \<longleftrightarrow> ow = None) \<and>
     (\<forall>c. lk_cpu (lck s) = Some c \<longleftrightarrow> pcs s c = Critical) \<and>
     (\<forall>c. pcs s c \<noteq> Panicked) \<and>
     (\<forall>c. if pcs s c = Idle then noff (harts s c) = 0
          else noff (harts s c) = 1 \<and> \<not> intr_get (harts s c))"

lemma lock_inv_init: "lock_init s \<Longrightarrow> lock_inv None s"
  by (auto simp: lock_init_def lock_inv_def owns_def initlock_def)

lemma lock_inv_holding: "lock_inv ow s \<Longrightarrow> holding c (lck s) \<longleftrightarrow> pcs s c = Critical"
  by (auto simp: lock_inv_def holding_def owns_def)

lemma lock_inv_owner: "lock_inv ow s \<Longrightarrow> \<not> owns (pcs s c) \<Longrightarrow> ow \<noteq> Some c"
  by (simp add: lock_inv_def)

lemma lock_inv_owns: "lock_inv ow s \<Longrightarrow> owns (pcs s c) \<Longrightarrow> ow = Some c"
  by (simp add: lock_inv_def)

lemma lock_inv_pop:
  assumes "lock_inv ow s" and "pcs s c = Popping"
  shows "\<exists>h. pop_off (harts s c) = Done h \<and> noff h = 0"
proof -
  have "noff (harts s c) = 1 \<and> \<not> intr_get (harts s c)"
    using assms by (simp add: lock_inv_def split: if_splits)
  then show ?thesis by (simp add: pop_off_def Let_def)
qed

text \<open>The owner after a step by CPU \<open>c\<close>: it changes at the test-and-set and at the clearing.\<close>

lemma lock_step_inv: "lock_step s t \<Longrightarrow> lock_inv ow s \<Longrightarrow> \<exists>ow'. lock_inv ow' t"
proof (induction rule: lock_step.induct)
  case (start s c)
  then have "ow \<noteq> Some c" by (intro lock_inv_owner) (auto simp: owns_def)
  with start have "lock_inv ow (s\<lparr>harts := (harts s)(c := push_off (harts s c)),
      pcs := (pcs s)(c := Spinning)\<rparr>)"
    by (auto simp: lock_inv_def owns_def split: if_splits)
  then show ?case by blast
next
  case (start_panic s c)
  then show ?case by (simp add: lock_inv_holding)
next
  case (spin s c old lk)
  then have "lock_inv ow (s\<lparr>lck := lk\<rparr>)"
    by (auto simp: lock_inv_def test_and_set_def)
  then show ?case by blast
next
  case (take s c old lk)
  then have "lock_inv (Some c) (s\<lparr>lck := lk, pcs := (pcs s)(c := Taken)\<rparr>)"
    by (auto simp: lock_inv_def test_and_set_def owns_def split: if_splits)
  then show ?case by blast
next
  case (record_cpu s c)
  then have "ow = Some c" by (intro lock_inv_owns) (auto simp: owns_def)
  with record_cpu have "lock_inv ow (s\<lparr>lck := (lck s)\<lparr>lk_cpu := Some c\<rparr>, pcs := (pcs s)(c := Critical)\<rparr>)"
    by (auto simp: lock_inv_def owns_def split: if_splits)
  then show ?case by blast
next
  case (drop s c)
  then have "ow = Some c" by (intro lock_inv_owns) (auto simp: owns_def)
  with drop have "lock_inv ow (s\<lparr>lck := (lck s)\<lparr>lk_cpu := None\<rparr>, pcs := (pcs s)(c := Dropping)\<rparr>)"
    by (auto simp: lock_inv_def owns_def split: if_splits)
  then show ?case by blast
next
  case (drop_panic s c)
  then show ?case by (simp add: lock_inv_holding)
next
  case (clear s c)
  then have "ow = Some c" by (intro lock_inv_owns) (auto simp: owns_def)
  with clear have "lock_inv None (s\<lparr>lck := (lck s)\<lparr>lk_locked := 0\<rparr>, pcs := (pcs s)(c := Popping)\<rparr>)"
    by (auto simp: lock_inv_def owns_def split: if_splits)
  then show ?case by blast
next
  case (pop s c h)
  then have "ow \<noteq> Some c" by (intro lock_inv_owner) (auto simp: owns_def)
  moreover from pop have "noff h = 0" using lock_inv_pop by fastforce
  ultimately have "lock_inv ow (s\<lparr>harts := (harts s)(c := h), pcs := (pcs s)(c := Idle)\<rparr>)"
    using pop by (auto simp: lock_inv_def owns_def split: if_splits)
  then show ?case by blast
next
  case (pop_panic s c m)
  then show ?case using lock_inv_pop by fastforce
qed

lemma reach_lock_inv: "reach lock_init lock_step s \<Longrightarrow> \<exists>ow. lock_inv ow s"
  by (erule reach_invariant) (auto intro: lock_inv_init lock_step_inv)

text \<open>
  The step relation against the two functions: with no other CPU moving, the steps of one
  CPU from \<open>Idle\<close> to \<open>Critical\<close> compute \<open>acquire\<close>, and back to \<open>Idle\<close> they compute \<open>release\<close>.
\<close>

lemma acquire_DoneE:
  assumes "acquire c (h, lk) = Done (h', lk')"
  obtains "\<not> holding c lk" and "lk_locked lk = 0" and "h' = push_off h"
    and "lk' = lk\<lparr>lk_locked := 1, lk_cpu := Some c\<rparr>"
  using assms by (auto simp: acquire_def test_and_set_def Let_def split: if_splits)

lemma release_DoneE:
  assumes "release c (h, lk) = Done (h', lk')"
  obtains "holding c lk" and "pop_off h = Done h'" and "lk' = lk\<lparr>lk_cpu := None, lk_locked := 0\<rparr>"
  using assms by (auto simp: release_def outcome_simps split: if_splits)

lemma acquire_steps:
  assumes idle: "pcs s c = Idle" and acq: "acquire c (harts s c, lck s) = Done (h, lk)"
  shows "lock_step\<^sup>*\<^sup>* s
    (s\<lparr>harts := (harts s)(c := h), lck := lk, pcs := (pcs s)(c := Critical)\<rparr>)"
proof -
  let ?s1 = "s\<lparr>harts := (harts s)(c := push_off (harts s c)), pcs := (pcs s)(c := Spinning)\<rparr>"
  let ?s2 = "?s1\<lparr>lck := (lck s)\<lparr>lk_locked := 1\<rparr>, pcs := (pcs s)(c := Taken)\<rparr>"
  let ?s3 = "?s2\<lparr>lck := lk, pcs := (pcs s)(c := Critical)\<rparr>"
  from acq show ?thesis
  proof (rule acquire_DoneE)
    assume nh: "\<not> holding c (lck s)" and free: "lk_locked (lck s) = 0"
      and h: "h = push_off (harts s c)"
      and lk: "lk = (lck s)\<lparr>lk_locked := 1, lk_cpu := Some c\<rparr>"
    have "lock_step s ?s1" using idle nh by (rule lock_step.start)
    moreover have "lock_step ?s1 ?s2"
      using lock_step.take [of ?s1 c 0 "(lck s)\<lparr>lk_locked := 1\<rparr>"] free
      by (simp add: test_and_set_def)
    moreover have "lock_step ?s2 ?s3"
      using lock_step.record_cpu [of ?s2 c] by (simp add: lk)
    ultimately have "lock_step\<^sup>*\<^sup>* s ?s3" by (rule three_steps)
    then show ?thesis by (simp add: h)
  qed
qed

lemma release_steps:
  assumes crit: "pcs s c = Critical" and rel: "release c (harts s c, lck s) = Done (h, lk)"
  shows "lock_step\<^sup>*\<^sup>* s
    (s\<lparr>lck := lk, harts := (harts s)(c := h), pcs := (pcs s)(c := Idle)\<rparr>)"
proof -
  let ?s1 = "s\<lparr>lck := (lck s)\<lparr>lk_cpu := None\<rparr>, pcs := (pcs s)(c := Dropping)\<rparr>"
  let ?s2 = "?s1\<lparr>lck := lk, pcs := (pcs s)(c := Popping)\<rparr>"
  let ?s3 = "?s2\<lparr>harts := (harts s)(c := h), pcs := (pcs s)(c := Idle)\<rparr>"
  from rel show ?thesis
  proof (rule release_DoneE)
    assume hold: "holding c (lck s)" and pop: "pop_off (harts s c) = Done h"
      and lk: "lk = (lck s)\<lparr>lk_cpu := None, lk_locked := 0\<rparr>"
    have "lock_step s ?s1" using crit hold by (rule lock_step.drop)
    moreover have "lock_step ?s1 ?s2"
      using lock_step.clear [of ?s1 c] by (simp add: lk)
    moreover have "lock_step ?s2 ?s3"
      using lock_step.pop [of ?s2 c h] pop by simp
    ultimately have "lock_step\<^sup>*\<^sup>* s ?s3" by (rule three_steps)
    then show ?thesis by simp
  qed
qed

section \<open>Properties\<close>



text \<open>
  Property C6: mutual exclusion of the spin lock. In every state that CPUs reach by
  interleaving the atomic actions of \<open>acquire\<close> and \<open>release\<close>, at most one of them is past
  the test-and-set, \<open>holding\<close> tells exactly whether the CPU is between \<open>acquire\<close> and
  \<open>release\<close>, and none of the panics of \<open>acquire\<close>, \<open>release\<close> and \<open>pop_off\<close> is taken.
\<close>

theorem spinlock_mutual_exclusion:
  assumes "reach lock_init lock_step s"
  shows "(owns (pcs s c) \<and> owns (pcs s d) \<longrightarrow> c = d) \<and>
    (holding c (lck s) \<longleftrightarrow> pcs s c = Critical) \<and> pcs s c \<noteq> Panicked"
proof -
  from assms obtain ow where inv: "lock_inv ow s" using reach_lock_inv by blast
  then have "holding c (lck s) \<longleftrightarrow> pcs s c = Critical" by (rule lock_inv_holding)
  with inv show ?thesis by (auto simp: lock_inv_def)
qed

text \<open>A reachable state with a CPU inside: CPU 0 has acquired the lock.\<close>

definition one_holder :: lock_sys where
  "one_holder = \<lparr>harts = (\<lambda>_. \<lparr>sstatus = 2, noff = 0, intena = False\<rparr>)
       (0 := push_off \<lparr>sstatus = 2, noff = 0, intena = False\<rparr>),
     lck = (initlock ''lk'')\<lparr>lk_locked := 1, lk_cpu := Some 0\<rparr>,
     pcs = (\<lambda>_. Idle)(0 := Critical)\<rparr>"

lemma one_holder_reach: "reach lock_init lock_step one_holder"
proof -
  let ?s = "\<lparr>harts = (\<lambda>_. \<lparr>sstatus = 2, noff = 0, intena = False\<rparr>), lck = initlock ''lk'',
    pcs = (\<lambda>_. Idle)\<rparr>"
  have "lock_step\<^sup>*\<^sup>* ?s one_holder"
    using acquire_steps [of ?s 0] acquire_free [of "initlock ''lk''" 0]
    by (simp add: one_holder_def initlock_def)
  moreover have "reach lock_init lock_step ?s"
    by (rule reach_init) (auto simp: lock_init_def)
  ultimately show ?thesis by (rule reach_rtranclp [rotated])
qed

theorem spinlock_mutual_exclusion_witness:
  "owns (pcs one_holder 0) \<and> \<not> owns (pcs one_holder 1) \<and> holding 0 (lck one_holder) \<and>
    \<not> holding 1 (lck one_holder) \<and> pcs one_holder 1 \<noteq> Panicked"
proof -
  have "pcs one_holder 0 = Critical" by (simp add: one_holder_def)
  then show ?thesis
    using spinlock_mutual_exclusion [OF one_holder_reach, of 0 1]
      spinlock_mutual_exclusion [OF one_holder_reach, of 1 0]
    by (auto simp: owns_def one_holder_def)
qed

end
