(* ===== verification/Queue.thy ===== *)
theory Queue
  imports Spinlock
begin

text \<open>
  \<^verbatim>\<open>kernel/queue.h\<close>: the ring buffer of processes that have used up their CPU quota. The
  interface of a bounded FIFO queue is a locale; the ring buffer interprets it.
\<close>

text \<open>\<^verbatim>\<open>NPROC\<close> of \<^verbatim>\<open>kernel/param.h\<close>: the size of the process table and of both queues.\<close>

abbreviation NPROC :: nat where
  "NPROC \<equiv> 64"

section \<open>The ring buffer\<close>

text \<open>
  The elements are pointers to processes; a \<open>pop\<close> that returns the null pointer is \<open>None\<close>.
  The counters are C \<^verbatim>\<open>int\<close>s that stay between 0 and \<^verbatim>\<open>NPROC\<close>; \<open>pop\<close> subtracts from \<open>q_size\<close>
  only when it is positive.
\<close>

record 'p Queue =
  q_procs :: "'p list"
  q_front :: nat
  q_rear :: nat
  q_size :: nat
  q_lock :: spinlock

definition initializeQueue :: "'p Queue \<Rightarrow> 'p Queue" where
  "initializeQueue q =
     q\<lparr>q_lock := initlock ''queue_lock'', q_front := 0, q_rear := 0, q_size := 0\<rparr>"

definition isEmpty :: "'p Queue \<Rightarrow> bool" where
  "isEmpty q \<longleftrightarrow> q_size q = 0"

definition isFull :: "'p Queue \<Rightarrow> bool" where
  "isFull q \<longleftrightarrow> q_size q = NPROC"

definition enqueue :: "'p Queue \<Rightarrow> 'p \<Rightarrow> nat \<times> 'p Queue" where
  "enqueue q p =
     (if isFull q then (0, q)
      else (1, q\<lparr>q_procs := (q_procs q)[q_rear q := p],
                 q_rear := (q_rear q + 1) mod NPROC,
                 q_size := q_size q + 1\<rparr>))"

definition pop :: "'p Queue \<Rightarrow> 'p option \<times> 'p Queue" where
  "pop q =
     (if isEmpty q then (None, q)
      else (let p = q_procs q ! q_front q
            in (Some p, q\<lparr>q_front := (q_front q + 1) mod NPROC, q_size := q_size q - 1\<rparr>)))"

section \<open>Abstraction\<close>

definition queue_inv :: "'p Queue \<Rightarrow> bool" where
  "queue_inv q \<longleftrightarrow> length (q_procs q) = NPROC \<and> q_front q < NPROC \<and> q_size q \<le> NPROC \<and>
     q_rear q = (q_front q + q_size q) mod NPROC"

text \<open>The queued elements, oldest first.\<close>

definition queue_list :: "'p Queue \<Rightarrow> 'p list" where
  "queue_list q = map (\<lambda>i. q_procs q ! ((q_front q + i) mod NPROC)) [0..<q_size q]"

lemma length_queue_list [simp]: "length (queue_list q) = q_size q"
  by (simp add: queue_list_def)

lemma queue_inv_init:
  "length (q_procs q) = NPROC \<Longrightarrow> queue_inv (initializeQueue q)"
  by (simp add: queue_inv_def initializeQueue_def)

lemma queue_list_init [simp]: "queue_list (initializeQueue q) = []"
  by (simp add: queue_list_def initializeQueue_def)

lemma ring_index_neq:
  assumes "i < s" and "s < n"
  shows "(f + i) mod n \<noteq> (f + s) mod (n :: nat)"
proof
  assume "(f + i) mod n = (f + s) mod n"
  then have "n dvd (f + s) - (f + i)"
    using assms(1) by (metis add_left_mono less_imp_le mod_eq_dvd_iff_nat)
  then have "n dvd s - i" by simp
  with assms show False by (auto dest: dvd_imp_le)
qed

lemma enqueue_full: "q_size q = NPROC \<Longrightarrow> enqueue q p = (0, q)"
  by (simp add: enqueue_def isFull_def)

lemma enqueue_not_full:
  assumes "queue_inv q" and "q_size q < NPROC"
  shows "fst (enqueue q p) = 1" and "queue_inv (snd (enqueue q p))"
    and "queue_list (snd (enqueue q p)) = queue_list q @ [p]"
proof -
  let ?q = "snd (enqueue q p)"
  show "fst (enqueue q p) = 1" using assms(2) by (simp add: enqueue_def isFull_def)
  show inv: "queue_inv ?q"
    using assms by (auto simp: enqueue_def isFull_def queue_inv_def mod_simps)
  have "q_procs ?q ! ((q_front q + i) mod NPROC) = q_procs q ! ((q_front q + i) mod NPROC)"
    if "i < q_size q" for i
    using assms that ring_index_neq [of i "q_size q" NPROC "q_front q"]
    by (simp add: enqueue_def isFull_def queue_inv_def)
  moreover have "q_procs ?q ! ((q_front q + q_size q) mod NPROC) = p"
    using assms by (simp add: enqueue_def isFull_def queue_inv_def)
  moreover have "q_front ?q = q_front q" "q_size ?q = Suc (q_size q)"
    using assms by (simp_all add: enqueue_def isFull_def)
  ultimately show "queue_list ?q = queue_list q @ [p]"
    by (simp add: queue_list_def)
qed

lemma pop_empty: "q_size q = 0 \<Longrightarrow> pop q = (None, q)"
  by (simp add: pop_def isEmpty_def)

lemma pop_not_empty:
  assumes "queue_inv q" and "0 < q_size q"
  shows "fst (pop q) = Some (hd (queue_list q))" and "queue_inv (snd (pop q))"
    and "queue_list (snd (pop q)) = tl (queue_list q)"
proof -
  obtain n where n: "q_size q = Suc n" using assms(2) by (cases "q_size q") auto
  have idx: "((q_front q + 1) mod NPROC + i) mod NPROC = (q_front q + Suc i) mod NPROC" for i
    by (simp add: mod_simps)
  have split: "[0..<Suc n] = 0 # map Suc [0..<n]" by (simp add: map_Suc_upt upt_conv_Cons)
  show "fst (pop q) = Some (hd (queue_list q))"
    using assms by (simp add: pop_def isEmpty_def queue_list_def n split queue_inv_def del: upt_Suc)
  show "queue_inv (snd (pop q))"
    using assms by (simp add: pop_def isEmpty_def queue_inv_def n mod_simps)
  show "queue_list (snd (pop q)) = tl (queue_list q)"
    using assms idx by (simp add: pop_def isEmpty_def queue_list_def n split comp_def del: upt_Suc)
qed

section \<open>The interface of a bounded FIFO queue\<close>

text \<open>
  A client's calls and what they return, over any implementation and over lists of bounded
  length.
\<close>

datatype 'a qop = Enq 'a | Deq

datatype 'a qres = Accepted bool | Got "'a option"

fun run_queue :: "('q \<Rightarrow> 'a \<Rightarrow> nat \<times> 'q) \<Rightarrow> ('q \<Rightarrow> 'a option \<times> 'q) \<Rightarrow> 'a qop list \<Rightarrow> 'q \<Rightarrow>
    'a qres list \<times> 'q" where
  "run_queue enq deq [] q = ([], q)"
| "run_queue enq deq (Enq a # os) q =
     (case enq q a of (r, q) \<Rightarrow>
      case run_queue enq deq os q of (rs, q) \<Rightarrow> (Accepted (r = 1) # rs, q))"
| "run_queue enq deq (Deq # os) q =
     (case deq q of (r, q) \<Rightarrow>
      case run_queue enq deq os q of (rs, q) \<Rightarrow> (Got r # rs, q))"

definition list_enq :: "nat \<Rightarrow> 'a list \<Rightarrow> 'a \<Rightarrow> nat \<times> 'a list" where
  "list_enq cap xs a = (if length xs = cap then (0, xs) else (1, xs @ [a]))"

definition list_deq :: "'a list \<Rightarrow> 'a option \<times> 'a list" where
  "list_deq xs = (case xs of [] \<Rightarrow> (None, []) | x # ys \<Rightarrow> (Some x, ys))"

locale bounded_fifo =
  fixes cap :: nat
    and enq :: "'q \<Rightarrow> 'a \<Rightarrow> nat \<times> 'q"
    and deq :: "'q \<Rightarrow> 'a option \<times> 'q"
    and elems :: "'q \<Rightarrow> 'a list"
    and inv :: "'q \<Rightarrow> bool"
  assumes elems_cap: "inv q \<Longrightarrow> length (elems q) \<le> cap"
    and enq_full: "inv q \<Longrightarrow> length (elems q) = cap \<Longrightarrow> enq q a = (0, q)"
    and enq_room: "inv q \<Longrightarrow> length (elems q) < cap \<Longrightarrow>
      fst (enq q a) = 1 \<and> inv (snd (enq q a)) \<and> elems (snd (enq q a)) = elems q @ [a]"
    and deq_empty: "inv q \<Longrightarrow> elems q = [] \<Longrightarrow> deq q = (None, q)"
    and deq_some: "inv q \<Longrightarrow> elems q \<noteq> [] \<Longrightarrow>
      fst (deq q) = Some (hd (elems q)) \<and> inv (snd (deq q)) \<and> elems (snd (deq q)) = tl (elems q)"
begin

lemma enq_refines:
  "inv q \<Longrightarrow> fst (enq q a) = fst (list_enq cap (elems q) a) \<and> inv (snd (enq q a)) \<and>
     elems (snd (enq q a)) = snd (list_enq cap (elems q) a)"
  using elems_cap [of q] enq_full [of q a] enq_room [of q a]
  by (cases "length (elems q) = cap") (auto simp: list_enq_def)

lemma deq_refines:
  "inv q \<Longrightarrow> fst (deq q) = fst (list_deq (elems q)) \<and> inv (snd (deq q)) \<and>
     elems (snd (deq q)) = snd (list_deq (elems q))"
  using deq_empty [of q] deq_some [of q] by (cases "elems q") (auto simp: list_deq_def)

lemma run_refines:
  "inv q \<Longrightarrow>
     fst (run_queue enq deq os q) = fst (run_queue (list_enq cap) list_deq os (elems q)) \<and>
     inv (snd (run_queue enq deq os q)) \<and>
     elems (snd (run_queue enq deq os q)) = snd (run_queue (list_enq cap) list_deq os (elems q))"
proof (induction os arbitrary: q)
  case Nil
  then show ?case by simp
next
  case (Cons x os)
  show ?case
  proof (cases x)
    case (Enq a)
    then show ?thesis
      using Cons.IH [of "snd (enq q a)"] enq_refines [OF Cons.prems, of a]
      by (auto simp: split_beta)
  next
    case Deq
    then show ?thesis
      using Cons.IH [of "snd (deq q)"] deq_refines [OF Cons.prems]
      by (auto simp: split_beta)
  qed
qed

end

interpretation ring: bounded_fifo NPROC enqueue pop queue_list queue_inv
proof (unfold_locales, goal_cases)
  case (1 q)
  then show ?case by (simp add: queue_inv_def)
next
  case (2 q a)
  then show ?case by (simp add: enqueue_full)
next
  case (3 q a)
  then show ?case using enqueue_not_full [of q a] by simp
next
  case (4 q)
  then have "q_size q = 0" by (metis length_queue_list list.size(3))
  then show ?case by (rule pop_empty)
next
  case (5 q)
  then have "0 < q_size q" by (metis length_greater_0_conv length_queue_list)
  with 5 show ?case using pop_not_empty [of q] by simp
qed

section \<open>Properties\<close>

text \<open>
  Property C25: the ring buffer of \<^verbatim>\<open>queue.h\<close> refines a FIFO list of at most \<^verbatim>\<open>NPROC\<close>
  elements. For every sequence of \<open>enqueue\<close> and \<open>pop\<close> calls from a state in the invariant, the
  results are those of the list, the invariant holds at the end and the ring holds the
  list's elements in order.
\<close>

theorem ring_refines_fifo:
  assumes "queue_inv q"
  shows "fst (run_queue enqueue pop os q)
      = fst (run_queue (list_enq NPROC) list_deq os (queue_list q)) \<and>
    queue_inv (snd (run_queue enqueue pop os q)) \<and>
    queue_list (snd (run_queue enqueue pop os q))
      = snd (run_queue (list_enq NPROC) list_deq os (queue_list q))"
  using assms by (rule ring.run_refines)

definition empty_ring :: "nat Queue" where
  "empty_ring = initializeQueue
     \<lparr>q_procs = replicate NPROC 0, q_front = 7, q_rear = 7, q_size = 9, q_lock = initlock ''x''\<rparr>"

theorem ring_refines_fifo_witness:
  "queue_inv empty_ring \<and>
   fst (run_queue enqueue pop [Enq 3, Enq 5, Deq, Deq, Deq] empty_ring)
     = [Accepted True, Accepted True, Got (Some 3), Got (Some 5), Got None]"
proof -
  have inv: "queue_inv empty_ring"
    unfolding empty_ring_def by (rule queue_inv_init) simp
  have "queue_list empty_ring = []" by (simp add: empty_ring_def)
  with inv show ?thesis
    using ring_refines_fifo [OF inv, of "[Enq 3, Enq 5, Deq, Deq, Deq]"]
    by (simp add: list_enq_def list_deq_def)
qed

end
