(* ===== verification/ProcDefs.thy ===== *)
theory ProcDefs
  imports Queue
begin

text \<open>
  The data of \<^verbatim>\<open>kernel/proc.h\<close>, \<^verbatim>\<open>kernel/child_processes.h\<close> and \<^verbatim>\<open>kernel/report_traps.h\<close>: saved
  registers, process and thread states, CPU accounting, the process structure and the
  structures that the reporting system calls fill.

  A \<^verbatim>\<open>struct proc *\<close> is an index into the table \<^verbatim>\<open>proc[NPROC]\<close>, a \<^verbatim>\<open>struct thread *\<close> an index into
  \<^verbatim>\<open>p->threads\<close>, a \<^verbatim>\<open>struct file *\<close> and a \<^verbatim>\<open>struct inode *\<close> an index into their tables; the null
  pointer is \<open>None\<close>. A pointer to a page that the process owns (trap frame, CPU usage) is the
  page's address together with the structure stored in it.
\<close>

type_synonym 'a owned = "(u64 \<times> 'a) option"

abbreviation MAX_THREAD :: nat where
  "MAX_THREAD \<equiv> 4"

abbreviation NOFILE :: nat where
  "NOFILE \<equiv> 16"

abbreviation MAX_UINT :: u32 where
  "MAX_UINT \<equiv> 4000000000"

abbreviation NAMESZ :: nat where
  "NAMESZ \<equiv> 16"

record kcontext =
  ctx_ra :: u64
  ctx_sp :: u64
  ctx_s0 :: u64
  ctx_s1 :: u64
  ctx_s2 :: u64
  ctx_s3 :: u64
  ctx_s4 :: u64
  ctx_s5 :: u64
  ctx_s6 :: u64
  ctx_s7 :: u64
  ctx_s8 :: u64
  ctx_s9 :: u64
  ctx_s10 :: u64
  ctx_s11 :: u64

definition zero_context :: kcontext where
  "zero_context = \<lparr>ctx_ra = 0, ctx_sp = 0, ctx_s0 = 0, ctx_s1 = 0, ctx_s2 = 0, ctx_s3 = 0,
     ctx_s4 = 0, ctx_s5 = 0, ctx_s6 = 0, ctx_s7 = 0, ctx_s8 = 0, ctx_s9 = 0, ctx_s10 = 0,
     ctx_s11 = 0\<rparr>"

record trapframe =
  tf_kernel_satp :: u64
  tf_kernel_sp :: u64
  tf_kernel_trap :: u64
  tf_epc :: u64
  tf_kernel_hartid :: u64
  tf_ra :: u64
  tf_sp :: u64
  tf_gp :: u64
  tf_tp :: u64
  tf_t0 :: u64
  tf_t1 :: u64
  tf_t2 :: u64
  tf_s0 :: u64
  tf_s1 :: u64
  tf_a0 :: u64
  tf_a1 :: u64
  tf_a2 :: u64
  tf_a3 :: u64
  tf_a4 :: u64
  tf_a5 :: u64
  tf_a6 :: u64
  tf_a7 :: u64
  tf_s2 :: u64
  tf_s3 :: u64
  tf_s4 :: u64
  tf_s5 :: u64
  tf_s6 :: u64
  tf_s7 :: u64
  tf_s8 :: u64
  tf_s9 :: u64
  tf_s10 :: u64
  tf_s11 :: u64
  tf_t3 :: u64
  tf_t4 :: u64
  tf_t5 :: u64
  tf_t6 :: u64

datatype procstate = UNUSED | USED | SLEEPING | RUNNABLE | RUNNING | ZOMBIE
  | PASSED_QUOTA | CHOSEN_TO_RUN | DROPPED

datatype threadstate = THREAD_FREE | THREAD_RUNNABLE | THREAD_RUNNING | THREAD_JOINED

record thread =
  t_state :: threadstate
  t_trapframe :: "trapframe owned"
  t_id :: u32
  t_join :: u32

record cpu_usage =
  sum_of_ticks :: u32
  start_tick :: u32
  quota :: u32
  last_sched_tick :: u32
  deadline :: u32

record proc_info =
  pi_name :: "u8 list"
  pi_pid :: u32
  pi_ppid :: u32
  pi_state :: procstate
  pi_usage :: cpu_usage

record top_struct =
  top_count :: nat
  top_processes :: "proc_info list"

text \<open>Sleep channels: the kernel sleeps on addresses of its own objects.\<close>

datatype chan = NoChan | ChanProc nat | ChanTicks | ChanLog | ChanBuf nat | ChanInode nat
  | ChanPipeRead u64 | ChanPipeWrite u64 | ChanCons | ChanUart | ChanDisk nat | ChanDiskFree

record proc =
  p_lock :: spinlock
  p_state :: procstate
  p_chan :: chan
  p_killed :: bool
  p_xstate :: u32
  p_pid :: u32
  p_parent :: "nat option"
  p_kstack :: u64
  p_sz :: u64
  p_pagetable :: u64
  p_trapframe :: "trapframe owned"
  p_context :: kcontext
  p_ofile :: "nat option list"
  p_cwd :: "nat option"
  p_name :: "u8 list"
  p_threads :: "thread list"
  p_current_thread :: "nat option"
  p_usage_time :: "cpu_usage owned"

text \<open>What the zeroed static storage of the kernel holds before the boot code runs.\<close>

definition zero_thread :: thread where
  "zero_thread = \<lparr>t_state = THREAD_FREE, t_trapframe = None, t_id = 0, t_join = 0\<rparr>"

definition zero_proc :: proc where
  "zero_proc = \<lparr>p_lock = \<lparr>lk_locked = 0, lk_name = [], lk_cpu = None\<rparr>, p_state = UNUSED,
     p_chan = NoChan, p_killed = False, p_xstate = 0, p_pid = 0, p_parent = None, p_kstack = 0,
     p_sz = 0, p_pagetable = 0, p_trapframe = None, p_context = zero_context,
     p_ofile = replicate NOFILE None, p_cwd = None, p_name = replicate NAMESZ 0,
     p_threads = replicate MAX_THREAD zero_thread, p_current_thread = None,
     p_usage_time = None\<rparr>"

text \<open>\<open>struct proc_info_cps\<close> and \<open>struct child_processes\<close>.\<close>

record proc_info_cps =
  pc_name :: "u8 list"
  pc_pid :: u32
  pc_ppid :: u32
  pc_state :: procstate
  pc_usage :: cpu_usage

record child_processes =
  cps_count :: nat
  cps_processes :: "proc_info_cps list"

text \<open>Trap reports.\<close>

abbreviation MAX_REPORT_BUFFER_SIZE :: nat where
  "MAX_REPORT_BUFFER_SIZE \<equiv> 10"

abbreviation MAX_PARENT_BUFFER_SIZE :: nat where
  "MAX_PARENT_BUFFER_SIZE \<equiv> 4"

record report =
  rep_pname :: "u8 list"
  rep_pid :: u32
  rep_scause :: u64
  rep_sepc :: u64
  rep_stval :: u64
  rep_parents :: "u32 list"
  rep_parents_count :: nat

record report_list =
  rl_reports :: "report list"
  rl_numberOfReports :: nat
  rl_writeIndex :: nat

record report_traps =
  rt_reports :: "report list"
  rt_count :: nat

text \<open>Updating one entry of the process table.\<close>

definition upd_proc :: "nat \<Rightarrow> (proc \<Rightarrow> proc) \<Rightarrow> proc list \<Rightarrow> proc list" where
  "upd_proc i f ps = ps[i := f (ps ! i)]"

lemma length_upd_proc [simp]: "length (upd_proc i f ps) = length ps"
  by (simp add: upd_proc_def)

lemma nth_upd_proc: "j < length ps \<Longrightarrow> upd_proc i f ps ! j = (if i = j then f (ps ! j) else ps ! j)"
  by (simp add: upd_proc_def nth_list_update)

lemma nth_upd_proc_eq [simp]: "i < length ps \<Longrightarrow> upd_proc i f ps ! i = f (ps ! i)"
  by (simp add: nth_upd_proc)

lemma nth_upd_proc_neq [simp]: "i \<noteq> j \<Longrightarrow> upd_proc i f ps ! j = ps ! j"
  by (simp add: upd_proc_def)

lemma upd_proc_proj: "(\<And>p. g (f p) = g p) \<Longrightarrow> g (upd_proc i f ps ! j) = g (ps ! j)"
  by (cases "i = j"; cases "i < length ps") (auto simp: upd_proc_def list_update_beyond)

text \<open>\<^verbatim>\<open>p->usage_time\<close> as a pointer read: null faults.\<close>

definition usage_of :: "proc list \<Rightarrow> nat \<Rightarrow> cpu_usage outcome" where
  "usage_of ps i = obind (deref (p_usage_time (ps ! i))) (\<lambda>u. Done (snd u))"

end
