(* ===== verification/SleepWakeup.thy ===== *)
theory SleepWakeup
  imports ProcDefs
begin

text \<open>
  The interleaving of \<open>sleep\<close> and \<open>wakeup\<close> of \<^verbatim>\<open>kernel/proc.c\<close> by any number of processes, one
  step for each statement that other CPUs can observe. A process waits for a condition in the
  pattern that all callers use, \<^verbatim>\<open>acquire(lk); while(!cond) sleep(chan, lk);\<close>, or makes the
  condition true under \<^verbatim>\<open>lk\<close> and calls \<^verbatim>\<open>wakeup(chan)\<close>.
\<close>

section \<open>Steps\<close>

text \<open>
  Where a process is. \<open>WantLk\<close>, \<open>Testing\<close> and \<open>Passed\<close> are around the loop; \<open>SlpLock\<close> to
  \<open>Resumed\<close> are the statements of \<open>sleep\<close>: take \<^verbatim>\<open>p->lock\<close>, release \<^verbatim>\<open>lk\<close>, set the channel and the
  state, switch, and, once the scheduler has switched back, clear the channel and release
  \<^verbatim>\<open>p->lock\<close>. \<open>WkLoop k\<close> is the loop of \<open>wakeup\<close> at entry \<open>k\<close>, \<open>WkLocked k\<close> the same with that
  entry's lock held.
\<close>

datatype sw_pc = Outside | WantLk | Testing | SlpLock | SlpRelease | SlpSet | SlpSched | Slept
  | Resumed | Passed | WkWant | WkSet | WkLoop nat | WkLocked nat

text \<open>
  The condition lock, the lock and the state of each process, whether it sleeps on the
  channel, and the condition.
\<close>

record sw =
  sw_pc :: "nat \<Rightarrow> sw_pc"
  sw_lk :: "nat option"
  sw_pl :: "nat \<Rightarrow> nat option"
  sw_state :: "nat \<Rightarrow> procstate"
  sw_chan :: "nat \<Rightarrow> bool"
  sw_cond :: bool

definition goto :: "nat \<Rightarrow> sw_pc \<Rightarrow> sw \<Rightarrow> sw" where
  "goto i c s = s\<lparr>sw_pc := (sw_pc s)(i := c)\<rparr>"

definition set_pl :: "nat \<Rightarrow> nat option \<Rightarrow> sw \<Rightarrow> sw" where
  "set_pl i h s = s\<lparr>sw_pl := (sw_pl s)(i := h)\<rparr>"

definition set_st :: "nat \<Rightarrow> procstate \<Rightarrow> sw \<Rightarrow> sw" where
  "set_st i x s = s\<lparr>sw_state := (sw_state s)(i := x)\<rparr>"

definition set_ch :: "nat \<Rightarrow> bool \<Rightarrow> sw \<Rightarrow> sw" where
  "set_ch i b s = s\<lparr>sw_chan := (sw_chan s)(i := b)\<rparr>"

inductive sw_step :: "nat \<Rightarrow> sw \<Rightarrow> sw \<Rightarrow> bool" for n where
  enter: "i < n \<Longrightarrow> sw_pc s i = Outside \<Longrightarrow> sw_step n s (goto i WantLk s)"
| take_lk: "sw_pc s i = WantLk \<Longrightarrow> sw_lk s = None \<Longrightarrow> sw_step n s (goto i Testing (s\<lparr>sw_lk := Some i\<rparr>))"
| test_true: "sw_pc s i = Testing \<Longrightarrow> sw_cond s \<Longrightarrow> sw_step n s (goto i Passed s)"
| test_false: "sw_pc s i = Testing \<Longrightarrow> \<not> sw_cond s \<Longrightarrow> sw_step n s (goto i SlpLock s)"
| slp_lock: "sw_pc s i = SlpLock \<Longrightarrow> sw_pl s i = None \<Longrightarrow> sw_step n s (goto i SlpRelease (set_pl i (Some i) s))"
| slp_release: "sw_pc s i = SlpRelease \<Longrightarrow> sw_step n s (goto i SlpSet (s\<lparr>sw_lk := None\<rparr>))"
| slp_set: "sw_pc s i = SlpSet \<Longrightarrow> sw_step n s (goto i SlpSched (set_st i SLEEPING (set_ch i True s)))"
| slp_sched: "sw_pc s i = SlpSched \<Longrightarrow> sw_step n s (goto i Slept (set_pl i None s))"
| dispatch: "sw_pc s i = Slept \<Longrightarrow> sw_state s i = RUNNABLE \<Longrightarrow> sw_pl s i = None \<Longrightarrow>
    sw_step n s (goto i Resumed (set_st i RUNNING (set_pl i (Some i) s)))"
| resumed: "sw_pc s i = Resumed \<Longrightarrow> sw_step n s (goto i WantLk (set_pl i None (set_ch i False s)))"
| pass: "sw_pc s i = Passed \<Longrightarrow> sw_step n s (goto i Outside (s\<lparr>sw_lk := None, sw_cond := False\<rparr>))"
| wk_enter: "i < n \<Longrightarrow> sw_pc s i = Outside \<Longrightarrow> sw_step n s (goto i WkWant s)"
| wk_take: "sw_pc s i = WkWant \<Longrightarrow> sw_lk s = None \<Longrightarrow> sw_step n s (goto i WkSet (s\<lparr>sw_lk := Some i\<rparr>))"
| wk_set: "sw_pc s i = WkSet \<Longrightarrow> sw_step n s (goto i (WkLoop 0) (s\<lparr>sw_cond := True\<rparr>))"
| wk_self: "sw_pc s i = WkLoop i \<Longrightarrow> i < n \<Longrightarrow> sw_step n s (goto i (WkLoop (Suc i)) s)"
| wk_lock: "sw_pc s i = WkLoop k \<Longrightarrow> k < n \<Longrightarrow> k \<noteq> i \<Longrightarrow> sw_pl s k = None \<Longrightarrow>
    sw_step n s (goto i (WkLocked k) (set_pl k (Some i) s))"
| wk_wake: "sw_pc s i = WkLocked k \<Longrightarrow> sw_step n s (goto i (WkLoop (Suc k)) (set_pl k None
    (if sw_state s k = SLEEPING \<and> sw_chan s k then set_st k RUNNABLE s else s)))"
| wk_done: "sw_pc s i = WkLoop n \<Longrightarrow> sw_step n s (goto i Outside (s\<lparr>sw_lk := None\<rparr>))"

definition sw_init :: "sw \<Rightarrow> bool" where
  "sw_init s \<longleftrightarrow> (\<forall>i. sw_pc s i = Outside \<and> sw_pl s i = None \<and> sw_state s i = RUNNING \<and> \<not> sw_chan s i) \<and>
     sw_lk s = None"

section \<open>The invariant\<close>

fun has_lk :: "sw_pc \<Rightarrow> bool" where
  "has_lk Testing = True"
| "has_lk SlpLock = True"
| "has_lk SlpRelease = True"
| "has_lk Passed = True"
| "has_lk WkSet = True"
| "has_lk (WkLoop k) = True"
| "has_lk (WkLocked k) = True"
| "has_lk _ = False"

fun has_own :: "sw_pc \<Rightarrow> bool" where
  "has_own SlpRelease = True"
| "has_own SlpSet = True"
| "has_own SlpSched = True"
| "has_own Resumed = True"
| "has_own _ = False"

text \<open>Locks are held where the program says.\<close>

definition lk_inv :: "sw \<Rightarrow> bool" where
  "lk_inv s \<longleftrightarrow> (\<forall>i. has_lk (sw_pc s i) \<longleftrightarrow> sw_lk s = Some i)"

definition pl_inv :: "sw \<Rightarrow> bool" where
  "pl_inv s \<longleftrightarrow> (\<forall>i. sw_pl s i = Some i \<longleftrightarrow> has_own (sw_pc s i)) \<and>
     (\<forall>i j. j \<noteq> i \<longrightarrow> sw_pl s i = Some j \<longleftrightarrow> sw_pc s j = WkLocked i) \<and> (\<forall>i. sw_pc s i \<noteq> WkLocked i)"

text \<open>The states: a process is marked asleep exactly between the assignment and a wakeup.\<close>

definition st_inv :: "nat \<Rightarrow> sw \<Rightarrow> bool" where
  "st_inv n s \<longleftrightarrow>
     (\<forall>i. sw_pc s i = SlpSched \<longrightarrow> sw_state s i = SLEEPING \<and> sw_chan s i) \<and>
     (\<forall>i. sw_pc s i = Slept \<longrightarrow> sw_state s i = RUNNABLE \<or> sw_state s i = SLEEPING \<and> sw_chan s i) \<and>
     (\<forall>i. sw_state s i = SLEEPING \<longrightarrow> sw_pc s i = SlpSched \<or> sw_pc s i = Slept) \<and>
     (\<forall>i. sw_pc s i \<noteq> Outside \<longrightarrow> i < n) \<and> (\<forall>i k. sw_pc s i = WkLocked k \<longrightarrow> k < n) \<and>
     (\<forall>i k. sw_pc s i = WkLoop k \<longrightarrow> k \<le> n)"

text \<open>
  A process that has decided to sleep and still holds \<open>lk\<close> saw the condition false; and when
  the condition is true while a process is on its way to sleep, the holder of \<open>lk\<close> is a waker
  that has not passed its entry yet.
\<close>

definition going_to_sleep :: "sw \<Rightarrow> nat \<Rightarrow> bool" where
  "going_to_sleep s i \<longleftrightarrow> sw_pc s i = SlpSet \<or> sw_pc s i = SlpSched \<or>
     sw_pc s i = Slept \<and> sw_state s i = SLEEPING"

definition wakes_later :: "sw \<Rightarrow> nat \<Rightarrow> nat \<Rightarrow> bool" where
  "wakes_later s w i \<longleftrightarrow> w \<noteq> i \<and> sw_lk s = Some w \<and> (\<exists>k\<le>i. sw_pc s w = WkLoop k \<or> sw_pc s w = WkLocked k)"

definition wake_inv :: "sw \<Rightarrow> bool" where
  "wake_inv s \<longleftrightarrow> (\<forall>i. sw_pc s i = SlpLock \<or> sw_pc s i = SlpRelease \<longrightarrow> \<not> sw_cond s) \<and>
     (\<forall>i. going_to_sleep s i \<and> sw_cond s \<longrightarrow> (\<exists>w. wakes_later s w i))"

lemmas sw_defs = goto_def set_pl_def set_st_def set_ch_def

lemma lk_inv_step: "sw_step n s t \<Longrightarrow> lk_inv s \<Longrightarrow> lk_inv t"
  unfolding lk_inv_def
  by (induction rule: sw_step.induct; simp add: sw_defs; metis has_lk.simps option.inject option.distinct(1))

lemma pl_inv_step:
  assumes "sw_step n s t" and "pl_inv s"
  shows "pl_inv t"
proof -
  have own: "sw_pl s i = Some i \<longleftrightarrow> has_own (sw_pc s i)" and
    other: "j \<noteq> i \<Longrightarrow> sw_pl s i = Some j \<longleftrightarrow> sw_pc s j = WkLocked i" and
    self: "sw_pc s i \<noteq> WkLocked i" for i j
    using assms(2) by (simp_all add: pl_inv_def)
  have unlocked: "sw_pc s j \<noteq> WkLocked i" if "sw_pl s i = None \<or> sw_pl s i = Some i" for i j
    using other [of j i] self that by fastforce
  from assms(1) show ?thesis
  proof (cases rule: sw_step.cases)
    case (slp_lock i)
    then show ?thesis using own other self unlocked [of i] by (auto simp: pl_inv_def sw_defs)
  next
    case (slp_sched i)
    then show ?thesis using own other self own [of i] unlocked [of i] by (auto simp: pl_inv_def sw_defs)
  next
    case (dispatch i)
    then show ?thesis using own other self unlocked [of i] by (auto simp: pl_inv_def sw_defs)
  next
    case (resumed i)
    then show ?thesis using own other self own [of i] unlocked [of i] by (auto simp: pl_inv_def sw_defs)
  next
    case (wk_lock i k)
    then show ?thesis using own other self own [of k] unlocked [of k] by (auto simp: pl_inv_def sw_defs)
  next
    case (wk_wake i k)
    have k: "sw_pl s k = Some i" "i \<noteq> k" using other [of i k] self [of k] wk_wake(2) by auto
    have t: "sw_pl t = (sw_pl s)(k := None)" "sw_pc t = (sw_pc s)(i := WkLoop (Suc k))"
      using wk_wake(1) by (simp_all add: sw_defs)
    have nk: "\<not> has_own (sw_pc s k)" using own [of k] k by simp
    show ?thesis unfolding pl_inv_def
    proof (intro conjI allI impI)
      fix j
      show "sw_pl t j = Some j \<longleftrightarrow> has_own (sw_pc t j)" using own [of j] nk k wk_wake(2)
        by (cases "j = i") (auto simp: t)
      show "sw_pc t j \<noteq> WkLocked j" using self [of j] by (simp add: t)
      fix m assume m: "m \<noteq> j"
      show "sw_pl t j = Some m \<longleftrightarrow> sw_pc t m = WkLocked j"
        using other [OF m] k wk_wake(2) by (cases "m = i") (auto simp: t)
    qed
  qed (use own other self in \<open>auto simp: pl_inv_def sw_defs\<close>)
qed

lemma st_inv_step:
  assumes "sw_step n s t" and "pl_inv s" and "st_inv n s"
  shows "st_inv n t"
proof -
  have c: "sw_pc s i = SlpSched \<Longrightarrow> sw_state s i = SLEEPING \<and> sw_chan s i"
    "sw_pc s i = Slept \<Longrightarrow> sw_state s i = RUNNABLE \<or> sw_state s i = SLEEPING \<and> sw_chan s i"
    "sw_state s i = SLEEPING \<Longrightarrow> sw_pc s i = SlpSched \<or> sw_pc s i = Slept"
    "sw_pc s i \<noteq> Outside \<Longrightarrow> i < n" "sw_pc s i = WkLocked k \<Longrightarrow> k < n" "sw_pc s i = WkLoop k \<Longrightarrow> k \<le> n" for i k
    using assms(3) by (simp_all add: st_inv_def)
  have asleep: "sw_pc s i = c \<Longrightarrow> c \<noteq> SlpSched \<Longrightarrow> c \<noteq> Slept \<Longrightarrow> sw_state s i \<noteq> SLEEPING" for i c
    using c(3) by blast
  from assms(1) show ?thesis
  proof (cases rule: sw_step.cases)
    case (wk_wake i k)
    have "sw_pc s k \<noteq> SlpSched" using assms(2) wk_wake(2) unfolding pl_inv_def
      by (metis has_own.simps(3) option.inject)
    moreover have "Suc k \<le> n" using c(5) [OF wk_wake(2)] by simp
    ultimately show ?thesis using c asleep [OF wk_wake(2)] wk_wake c(4) [of i]
      unfolding st_inv_def by (auto simp: sw_defs)
  qed (use c asleep in \<open>auto simp: st_inv_def sw_defs dest: c(4) intro: Suc_leI\<close>)
qed

lemma wake_inv_frame:
  assumes "wake_inv s" and "sw_cond t \<Longrightarrow> sw_cond s"
    and "\<And>j. going_to_sleep t j \<Longrightarrow> sw_cond t \<Longrightarrow> going_to_sleep s j"
    and "\<And>j w. going_to_sleep t j \<Longrightarrow> sw_cond t \<Longrightarrow> wakes_later s w j \<Longrightarrow> wakes_later t w j"
    and "\<And>j. sw_cond t \<Longrightarrow> sw_pc t j = SlpLock \<or> sw_pc t j = SlpRelease \<Longrightarrow>
      sw_pc s j = SlpLock \<or> sw_pc s j = SlpRelease"
  shows "wake_inv t"
  using assms unfolding wake_inv_def by meson

lemma wake_inv_step:
  assumes "sw_step n s t" and "lk_inv s" and "pl_inv s" and "st_inv n s" and "wake_inv s"
  shows "wake_inv t"
proof -
  have lk: "has_lk (sw_pc s i) \<longleftrightarrow> sw_lk s = Some i" for i using assms(2) by (simp add: lk_inv_def)
  have bound: "sw_pc s i \<noteq> Outside \<Longrightarrow> i < n" for i using assms(4) by (simp add: st_inv_def)
  from assms(1) show ?thesis
  proof (cases rule: sw_step.cases)
    case (wk_set i)
    have "sw_lk s = Some i" "\<And>j. has_lk (sw_pc s j) \<Longrightarrow> j = i" using lk wk_set(2) by force+
    then show ?thesis using wk_set unfolding wake_inv_def
      by (auto simp: sw_defs going_to_sleep_def wakes_later_def)
  next
    case (wk_done i)
    have "sw_lk s = Some i" using lk [of i] wk_done(2) by simp
    moreover have "j < n" if "going_to_sleep s j" for j
      using bound [of j] that by (auto simp: going_to_sleep_def)
    ultimately have "\<not> (going_to_sleep s j \<and> wakes_later s w j)" for w j
      using wk_done(2) by (force simp: wakes_later_def)
    moreover have "going_to_sleep t j \<Longrightarrow> going_to_sleep s j" "sw_cond t = sw_cond s"
      "sw_pc t j = c \<Longrightarrow> c \<noteq> Outside \<Longrightarrow> sw_pc s j = c" for j c
      using wk_done(1) by (auto simp: going_to_sleep_def sw_defs split: if_splits)
    ultimately show ?thesis by (intro wake_inv_frame [OF assms(5)]) blast+
  next
    case (slp_release i)
    have "sw_lk s = Some i" "\<not> sw_cond s" using lk [of i] slp_release(2) assms(5) by (auto simp: wake_inv_def)
    then show ?thesis
      by (intro wake_inv_frame [OF assms(5)]) (use slp_release in \<open>auto simp: sw_defs\<close>)
  next
    case (wk_wake i k)
    have "sw_pc s k \<noteq> SlpSet" "sw_pc s k \<noteq> SlpSched" using assms(3) wk_wake(2) unfolding pl_inv_def
      by (metis has_own.simps(2,3) option.inject)+
    moreover have "sw_pc s k = Slept \<Longrightarrow> sw_state s k = SLEEPING \<Longrightarrow> sw_chan s k"
      using assms(4) by (auto simp: st_inv_def)
    ultimately have k: "\<not> going_to_sleep t k"
      using wk_wake(1) by (auto simp: going_to_sleep_def sw_defs split: if_splits)
    have sub: "going_to_sleep s j" if "going_to_sleep t j" for j
      using wk_wake that by (auto simp: going_to_sleep_def sw_defs split: if_splits)
    have "wakes_later t w j" if "going_to_sleep t j" "wakes_later s w j" for w j
    proof -
      have "j \<noteq> k" using that(1) k by blast
      then show ?thesis using that(2) wk_wake by (auto simp: wakes_later_def sw_defs)
    qed
    with sub show ?thesis
      by (intro wake_inv_frame [OF assms(5)]) (use wk_wake in \<open>auto simp: sw_defs split: if_splits\<close>)
  qed (rule wake_inv_frame [OF assms(5)], auto simp: sw_defs going_to_sleep_def wakes_later_def split: if_splits)+
qed

definition sw_inv :: "nat \<Rightarrow> sw \<Rightarrow> bool" where
  "sw_inv n s \<longleftrightarrow> lk_inv s \<and> pl_inv s \<and> st_inv n s \<and> wake_inv s"

lemma sw_inv_step: "sw_inv n s \<Longrightarrow> sw_step n s t \<Longrightarrow> sw_inv n t"
  unfolding sw_inv_def using lk_inv_step pl_inv_step st_inv_step wake_inv_step by blast

lemma sw_inv_steps: "(sw_step n)\<^sup>*\<^sup>* s t \<Longrightarrow> sw_inv n s \<Longrightarrow> sw_inv n t"
  by (induction rule: rtranclp_induct) (auto intro: sw_inv_step)

lemma sw_inv_init: "sw_init s \<Longrightarrow> sw_inv n s"
  by (auto simp: sw_init_def sw_inv_def lk_inv_def pl_inv_def st_inv_def wake_inv_def going_to_sleep_def)

section \<open>Progress of a wakeup\<close>

text \<open>The lock of entry \<open>k\<close> becomes free while a waker waits for it.\<close>

lemma entry_unlocks:
  assumes inv: "sw_inv n s" and w: "sw_pc s w = WkLoop k" and "k \<noteq> w"
  shows "\<exists>t. (sw_step n)\<^sup>*\<^sup>* s t \<and> sw_pl t k = None \<and> sw_pc t w = WkLoop k \<and>
    (\<forall>j. j \<noteq> k \<longrightarrow> sw_state t j = sw_state s j) \<and> (sw_state s k = SLEEPING \<longrightarrow> sw_state t k = SLEEPING)"
proof -
  have lk: "has_lk (sw_pc s j) \<Longrightarrow> j = w" for j
    using inv w unfolding sw_inv_def lk_inv_def by (metis has_lk.simps(6) option.inject)
  have own: "sw_pl s k = Some j \<Longrightarrow> (if j = k then has_own (sw_pc s k) else sw_pc s j = WkLocked k)" for j
    using inv unfolding sw_inv_def pl_inv_def by auto
  show ?thesis
  proof (cases "sw_pl s k")
    case None
    then show ?thesis using w by blast
  next
    case (Some j)
    have "j = k" using own [OF Some] lk [of j] w by (auto split: if_splits)
    then have "has_own (sw_pc s k)" using own [OF Some] by simp
    then consider "sw_pc s k = SlpSet" | "sw_pc s k = SlpSched" | "sw_pc s k = Resumed"
      using lk [of k] assms(3) by (cases "sw_pc s k") auto
    then show ?thesis
    proof cases
      case 1
      let ?a = "goto k SlpSched (set_st k SLEEPING (set_ch k True s))"
      let ?b = "goto k Slept (set_pl k None ?a)"
      have "sw_step n s ?a" using 1 by (rule sw_step.slp_set)
      moreover have "sw_step n ?a ?b" by (rule sw_step.slp_sched) (simp add: goto_def)
      ultimately have "(sw_step n)\<^sup>*\<^sup>* s ?b" by (meson converse_rtranclp_into_rtranclp r_into_rtranclp)
      then show ?thesis using w assms(3) by (intro exI [of _ ?b]) (simp add: sw_defs)
    next
      case 2
      let ?b = "goto k Slept (set_pl k None s)"
      have "sw_step n s ?b" using 2 by (rule sw_step.slp_sched)
      then show ?thesis using w assms(3) by (intro exI [of _ ?b]) (auto simp: sw_defs)
    next
      case 3
      let ?b = "goto k WantLk (set_pl k None (set_ch k False s))"
      have "sw_step n s ?b" using 3 by (rule sw_step.resumed)
      then show ?thesis using w assms(3) by (intro exI [of _ ?b]) (auto simp: sw_defs)
    qed
  qed
qed

lemma asleep_on_chan: "sw_inv n s \<Longrightarrow> sw_state s i = SLEEPING \<Longrightarrow> sw_chan s i"
  unfolding sw_inv_def st_inv_def by (metis procstate.distinct(31))

text \<open>A waker gets past entry \<open>k\<close> and wakes a process that sleeps there.\<close>

lemma waker_passes:
  assumes inv: "sw_inv n s" and w: "sw_pc s w = WkLoop k" and k: "k < n"
  shows "\<exists>t. (sw_step n)\<^sup>*\<^sup>* s t \<and> sw_pc t w = WkLoop (Suc k) \<and>
    (\<forall>j. j \<noteq> k \<longrightarrow> sw_state t j = sw_state s j) \<and>
    (k \<noteq> w \<longrightarrow> sw_state s k = SLEEPING \<longrightarrow> sw_state t k = RUNNABLE)"
proof (cases "k = w")
  case True
  then have "sw_step n s (goto w (WkLoop (Suc k)) s)" using w k sw_step.wk_self by metis
  then show ?thesis using True by (intro exI [of _ "goto w (WkLoop (Suc k)) s"]) (auto simp: sw_defs)
next
  case False
  obtain t where t: "(sw_step n)\<^sup>*\<^sup>* s t" "sw_pl t k = None" "sw_pc t w = WkLoop k"
    "\<forall>j. j \<noteq> k \<longrightarrow> sw_state t j = sw_state s j" "sw_state s k = SLEEPING \<longrightarrow> sw_state t k = SLEEPING"
    using entry_unlocks [OF inv w False] by blast
  let ?a = "goto w (WkLocked k) (set_pl k (Some w) t)"
  let ?b = "goto w (WkLoop (Suc k)) (set_pl k None
    (if sw_state ?a k = SLEEPING \<and> sw_chan ?a k then set_st k RUNNABLE ?a else ?a))"
  have "sw_step n t ?a" by (rule sw_step.wk_lock [OF t(3) k False t(2)])
  moreover have "sw_step n ?a ?b" by (rule sw_step.wk_wake) (simp add: goto_def)
  ultimately have "(sw_step n)\<^sup>*\<^sup>* s ?b" using t(1) by (meson rtranclp.rtrancl_into_rtrancl)
  moreover have "sw_chan t k" if "sw_state t k = SLEEPING"
    by (rule asleep_on_chan [OF sw_inv_steps [OF t(1) inv] that])
  then have "sw_state ?b k = RUNNABLE" if "sw_state s k = SLEEPING" using that t(5) by (simp add: sw_defs)
  ultimately show ?thesis using t(4) by (intro exI [of _ ?b]) (auto simp: sw_defs)
qed

lemma waker_reaches:
  "sw_inv n s \<Longrightarrow> sw_pc s w = WkLoop k \<Longrightarrow> k \<le> i \<Longrightarrow> i < n \<Longrightarrow> w \<noteq> i \<Longrightarrow> sw_state s i = SLEEPING \<Longrightarrow>
     \<exists>t. (sw_step n)\<^sup>*\<^sup>* s t \<and> sw_state t i = RUNNABLE"
proof (induction "i - k" arbitrary: s k)
  case 0
  then show ?case using waker_passes [of n s w k] by auto
next
  case (Suc d)
  then have k: "k < n" "k \<noteq> i" by auto
  obtain t where t: "(sw_step n)\<^sup>*\<^sup>* s t" "sw_pc t w = WkLoop (Suc k)"
    "\<forall>j. j \<noteq> k \<longrightarrow> sw_state t j = sw_state s j"
    using waker_passes [OF Suc.prems(1,2) k(1)] by blast
  have "\<exists>u. (sw_step n)\<^sup>*\<^sup>* t u \<and> sw_state u i = RUNNABLE"
    by (rule Suc.hyps(1) [OF _ sw_inv_steps [OF t(1) Suc.prems(1)] t(2)])
      (use Suc.hyps(2) Suc.prems t(3) k(2) in auto)
  then show ?case using t(1) by (meson rtranclp_trans)
qed

section \<open>Properties\<close>

text \<open>
  Property C12: no wakeup is lost. In every reachable state of every interleaving, when a process
  sleeps although the condition is true, the condition lock is held by a waker that has not
  yet passed that process in its loop, and the steps of the system can go on to make the
  process runnable.
\<close>

theorem no_lost_wakeup:
  assumes "reach sw_init (sw_step n) s" and "sw_state s i = SLEEPING" and "sw_cond s"
  shows "(\<exists>w k. w \<noteq> i \<and> sw_lk s = Some w \<and> k \<le> i \<and> (sw_pc s w = WkLoop k \<or> sw_pc s w = WkLocked k)) \<and>
    (\<exists>t. (sw_step n)\<^sup>*\<^sup>* s t \<and> sw_state t i = RUNNABLE)"
proof -
  have inv: "sw_inv n s"
    by (rule reach_invariant [OF assms(1)]) (auto intro: sw_inv_init sw_inv_step)
  have pc: "sw_pc s i = SlpSched \<or> sw_pc s i = Slept" "i < n"
    using inv assms(2) unfolding sw_inv_def st_inv_def by (blast, metis sw_pc.distinct(11,13))
  then have "going_to_sleep s i" using assms(2) unfolding going_to_sleep_def by blast
  then obtain w where "wakes_later s w i" using inv assms(3) unfolding sw_inv_def wake_inv_def by blast
  then obtain k where w: "w \<noteq> i" "sw_lk s = Some w" "k \<le> i" "sw_pc s w = WkLoop k \<or> sw_pc s w = WkLocked k"
    unfolding wakes_later_def by blast
  have "\<exists>t. (sw_step n)\<^sup>*\<^sup>* s t \<and> sw_state t i = RUNNABLE"
    using w(4)
  proof
    assume "sw_pc s w = WkLoop k"
    then show ?thesis using waker_reaches inv w pc(2) assms(2) by blast
  next
    assume l: "sw_pc s w = WkLocked k"
    let ?t = "goto w (WkLoop (Suc k)) (set_pl k None
      (if sw_state s k = SLEEPING \<and> sw_chan s k then set_st k RUNNABLE s else s))"
    have st: "sw_step n s ?t" using l by (rule sw_step.wk_wake)
    show ?thesis
    proof (cases "k = i")
      case True
      then have "sw_state ?t i = RUNNABLE"
        using assms(2) asleep_on_chan [OF inv assms(2)] by (simp add: sw_defs)
      then show ?thesis using st by blast
    next
      case False
      have "\<exists>u. (sw_step n)\<^sup>*\<^sup>* ?t u \<and> sw_state u i = RUNNABLE"
        by (rule waker_reaches [OF sw_inv_step [OF inv st], of w "Suc k"])
          (use w(1,3) False pc(2) assms(2) in \<open>auto simp: sw_defs\<close>)
      then show ?thesis using st by (meson converse_rtranclp_into_rtranclp)
    qed
  qed
  then show ?thesis using w by blast
qed

section \<open>Witness\<close>

text \<open>Process 0 has just marked itself asleep; process 1 has set the condition and enters its loop.\<close>

definition sw_start :: sw where
  "sw_start = \<lparr>sw_pc = (\<lambda>_. Outside), sw_lk = None, sw_pl = (\<lambda>_. None), sw_state = (\<lambda>_. RUNNING),
     sw_chan = (\<lambda>_. False), sw_cond = False\<rparr>"

definition sw_race :: sw where
  "sw_race = \<lparr>sw_pc = (\<lambda>_. Outside)(0 := SlpSched, 1 := WkLoop 0), sw_lk = Some 1,
     sw_pl = (\<lambda>_. None)(0 := Some 0), sw_state = (\<lambda>_. RUNNING)(0 := SLEEPING),
     sw_chan = (\<lambda>_. False)(0 := True), sw_cond = True\<rparr>"

lemma sw_race_reach: "reach sw_init (sw_step 2) sw_race"
proof -
  have "reach sw_init (sw_step 2) sw_start" by (rule reach_init) (simp add: sw_init_def sw_start_def)
  note r = reach_step [OF this sw_step.enter [of 0]]
  note r = reach_step [OF r sw_step.take_lk [of _ 0]]
  note r = reach_step [OF r sw_step.test_false [of _ 0]]
  note r = reach_step [OF r sw_step.slp_lock [of _ 0]]
  note r = reach_step [OF r sw_step.slp_release [of _ 0]]
  note r = reach_step [OF r sw_step.slp_set [of _ 0]]
  note r = reach_step [OF r sw_step.wk_enter [of 1]]
  note r = reach_step [OF r sw_step.wk_take [of _ 1]]
  note r = reach_step [OF r sw_step.wk_set [of _ 1]]
  then show ?thesis by (simp add: sw_defs sw_start_def sw_race_def fun_upd_twist)
qed

theorem no_lost_wakeup_witness:
  "sw_state sw_race 0 = SLEEPING \<and> sw_cond sw_race \<and>
   (\<exists>t. (sw_step 2)\<^sup>*\<^sup>* sw_race t \<and> sw_state t 0 = RUNNABLE)"
  using no_lost_wakeup [OF sw_race_reach, of 0] by (simp add: sw_race_def)

end
