(* ===== verification/CString.thy ===== *)
theory CString
  imports Prelude
begin

text \<open>
  \<^verbatim>\<open>kernel/string.c\<close>. The \<open>mem\<close> functions work on the byte-addressed memory, the string functions
  on character arrays, where running past the end of the array is \<open>Fault\<close>. Byte counts are
  natural numbers; the kernel passes counts of at most a page, below the 32-bit limit.
\<close>

section \<open>Memory blocks\<close>

fun memset :: "mem \<Rightarrow> u64 \<Rightarrow> u8 \<Rightarrow> nat \<Rightarrow> mem" where
  "memset m dst c 0 = m"
| "memset m dst c (Suc n) = memset (m(dst := c)) (dst + 1) c n"

fun memcmp :: "mem \<Rightarrow> u64 \<Rightarrow> u64 \<Rightarrow> nat \<Rightarrow> int" where
  "memcmp m s1 s2 0 = 0"
| "memcmp m s1 s2 (Suc n) =
     (if m s1 \<noteq> m s2 then uint (m s1) - uint (m s2) else memcmp m (s1 + 1) (s2 + 1) n)"

text \<open>The two loops of \<open>memmove\<close>.\<close>

fun copy_fwd :: "mem \<Rightarrow> u64 \<Rightarrow> u64 \<Rightarrow> nat \<Rightarrow> mem" where
  "copy_fwd m d s 0 = m"
| "copy_fwd m d s (Suc n) = copy_fwd (m(d := m s)) (d + 1) (s + 1) n"

fun copy_bwd :: "mem \<Rightarrow> u64 \<Rightarrow> u64 \<Rightarrow> nat \<Rightarrow> mem" where
  "copy_bwd m d s 0 = m"
| "copy_bwd m d s (Suc n) = copy_bwd (m(d - 1 := m (s - 1))) (d - 1) (s - 1) n"

definition memmove :: "mem \<Rightarrow> u64 \<Rightarrow> u64 \<Rightarrow> nat \<Rightarrow> mem" where
  "memmove m dst src n =
     (if n = 0 then m
      else if src < dst \<and> src + of_nat n > dst
      then copy_bwd m (dst + of_nat n) (src + of_nat n) n
      else copy_fwd m dst src n)"

definition memcpy :: "mem \<Rightarrow> u64 \<Rightarrow> u64 \<Rightarrow> nat \<Rightarrow> mem" where
  "memcpy m dst src n = memmove m dst src n"

section \<open>Strings\<close>

fun strncmp :: "u8 list \<Rightarrow> u8 list \<Rightarrow> nat \<Rightarrow> int outcome" where
  "strncmp p q 0 = Done 0"
| "strncmp (a # p) (b # q) (Suc n) =
     (if a \<noteq> 0 \<and> a = b then strncmp p q n else Done (uint a - uint b))"
| "strncmp p q (Suc n) = Fault"

fun strncpy_zero :: "u8 list \<Rightarrow> nat \<Rightarrow> u8 list outcome" where
  "strncpy_zero s 0 = Done s"
| "strncpy_zero (d # s) (Suc n) = obind (strncpy_zero s n) (\<lambda>s. Done (0 # s))"
| "strncpy_zero [] (Suc n) = Fault"

fun strncpy :: "u8 list \<Rightarrow> u8 list \<Rightarrow> nat \<Rightarrow> u8 list outcome" where
  "strncpy s t 0 = Done s"
| "strncpy (d # s) (c # t) (Suc n) =
     obind (if c \<noteq> 0 then strncpy s t n else strncpy_zero s n) (\<lambda>s. Done (c # s))"
| "strncpy s t (Suc n) = Fault"

text \<open>The loop of \<open>safestrcpy\<close> and the final store; \<open>n\<close> is the count before \<^verbatim>\<open>--n\<close>.\<close>

fun safestrcpy :: "u8 list \<Rightarrow> u8 list \<Rightarrow> nat \<Rightarrow> u8 list outcome" where
  "safestrcpy s t 0 = Done s"
| "safestrcpy (d # s) t (Suc 0) = Done (0 # s)"
| "safestrcpy (d # s) (c # t) (Suc (Suc n)) =
     obind (if c \<noteq> 0 then safestrcpy s t (Suc n)
            else (case s of [] \<Rightarrow> Fault | d # s \<Rightarrow> Done (0 # s)))
       (\<lambda>s. Done (c # s))"
| "safestrcpy s t (Suc n) = Fault"

fun strlen :: "u8 list \<Rightarrow> nat outcome" where
  "strlen [] = Fault"
| "strlen (c # s) = (if c \<noteq> 0 then obind (strlen s) (\<lambda>n. Done (n + 1)) else Done 0)"

section \<open>Closed forms\<close>

lemma memset_eq: "memset m d c n = (\<lambda>a. if in_range d n a then c else m a)"
proof (induction n arbitrary: m d)
  case 0
  then show ?case by (simp add: in_range_def)
next
  case (Suc n)
  then show ?case by (auto simp: fun_eq_iff in_range_Suc_iff)
qed

lemma copy_fwd_eq:
  "d = s \<or> n \<le> unat (d - s) \<Longrightarrow> n < 2 ^ 64 \<Longrightarrow>
     copy_fwd m d s n = (\<lambda>a. if in_range d n a then m (s + (a - d)) else m a)"
proof (induction n arbitrary: m d s)
  case 0
  then show ?case by (simp add: in_range_def)
next
  case (Suc n)
  have IH: "copy_fwd (m(d := m s)) (d + 1) (s + 1) n =
      (\<lambda>a. if in_range (d + 1) n a then (m(d := m s)) (s + 1 + (a - (d + 1))) else (m(d := m s)) a)"
    using Suc.prems by (intro Suc.IH) auto
  have shift: "s + 1 + (a - (d + 1)) = s + (a - d)" for a by simp
  show ?case
  proof (rule ext)
    fix a
    show "copy_fwd m d s (Suc n) a = (if in_range d (Suc n) a then m (s + (a - d)) else m a)"
    proof (cases "a = d")
      case True
      then show ?thesis using not_in_range_next [of n d] Suc.prems(2) by (simp add: IH)
    next
      case False
      have "s + (a - d) \<noteq> d" if "in_range d (Suc n) a"
      proof
        assume "s + (a - d) = d"
        then have "a - d = d - s" by (simp add: algebra_simps)
        then show False using that False Suc.prems(1) by (auto simp: in_range_def)
      qed
      then show ?thesis using False by (simp add: IH shift in_range_Suc)
    qed
  qed
qed

lemma in_range_snoc:
  assumes "n < 2 ^ 64"
  shows "in_range d (Suc n) a \<longleftrightarrow> a = d + of_nat n \<or> in_range d n a"
proof -
  have "unat (a - d) = n \<longleftrightarrow> a - d = of_nat n"
    using assms by (metis unat_of_nat_u64 of_nat_unat word_unat_eq_iff)
  also have "\<dots> \<longleftrightarrow> a = d + of_nat n" by (auto simp: algebra_simps)
  finally show ?thesis by (auto simp: in_range_def less_Suc_eq)
qed

lemma copy_bwd_eq:
  "d = s \<or> n \<le> unat (s - d) \<Longrightarrow> n < 2 ^ 64 \<Longrightarrow>
     copy_bwd m (d + of_nat n) (s + of_nat n) n = (\<lambda>a. if in_range d n a then m (s + (a - d)) else m a)"
proof (induction n arbitrary: m)
  case 0
  then show ?case by (simp add: in_range_def)
next
  case (Suc n)
  let ?m = "m(d + of_nat n := m (s + of_nat n))"
  have IH: "copy_bwd ?m (d + of_nat n) (s + of_nat n) n =
      (\<lambda>a. if in_range d n a then ?m (s + (a - d)) else ?m a)"
    using Suc.prems by (intro Suc.IH) auto
  have dec: "d + of_nat (Suc n) - 1 = d + of_nat n" "s + of_nat (Suc n) - 1 = s + of_nat n" by simp_all
  have last: "\<not> in_range d n (d + of_nat n)"
    using Suc.prems(2) by (simp add: in_range_def unat_of_nat_u64)
  have keep: "s + (a - d) \<noteq> d + of_nat n" if "in_range d n a" for a
  proof
    assume eq: "s + (a - d) = d + of_nat n"
    have lt: "unat (a - d) < n" using that by (simp add: in_range_def)
    have "s - d = of_nat n - (a - d)" using eq by (simp add: algebra_simps)
    also have "\<dots> = of_nat (n - unat (a - d))" using lt by (simp add: of_nat_diff)
    finally have "unat (s - d) = n - unat (a - d)"
      using Suc.prems(2) by (simp add: unat_of_nat_u64)
    then show False using Suc.prems(1) lt by auto
  qed
  have "copy_bwd m (d + of_nat (Suc n)) (s + of_nat (Suc n)) (Suc n)
      = copy_bwd ?m (d + of_nat n) (s + of_nat n) n"
    by (simp only: copy_bwd.simps dec)
  also have "\<dots> = (\<lambda>a. if in_range d (Suc n) a then m (s + (a - d)) else m a)"
    using last keep Suc.prems(2) by (auto simp: IH fun_eq_iff in_range_snoc)
  finally show ?case .
qed

text \<open>Whatever the overlap, \<open>memmove\<close> copies the bytes that were there before the call.\<close>

lemma memmove_eq:
  assumes n: "n < 2 ^ 32" and src: "unat src + n < 2 ^ 64" and dst: "unat dst + n < 2 ^ 64"
  shows "memmove m dst src n = (\<lambda>a. if in_range dst n a then m (src + (a - dst)) else m a)"
proof -
  have add: "unat (src + of_nat n) = unat src + n"
    using src n by (simp add: unat_plus_if' unat_of_nat_u64)
  show ?thesis
  proof (cases "src < dst \<and> src + of_nat n > dst")
    case True
    then have "unat src < unat dst" "unat dst < unat src + n" by (simp_all add: word_less_nat_alt add)
    then have "n \<le> unat (src - dst)" using n by (simp add: unat_sub_if' unat_u64_bound)
    then show ?thesis using True n
      by (cases "n = 0") (simp_all add: memmove_def copy_bwd_eq in_range_def)
  next
    case False
    then have "unat dst \<le> unat src \<or> unat src + n \<le> unat dst"
      by (auto simp: word_less_nat_alt add)
    then have "dst = src \<or> n \<le> unat (dst - src)"
      using src n by (auto simp: unat_sub_if' word_unat_eq_iff)
    then show ?thesis using False n
      by (cases "n = 0") (auto simp: memmove_def copy_fwd_eq in_range_def)
  qed
qed

text \<open>The string before its terminating zero byte.\<close>

definition cstr :: "u8 list \<Rightarrow> u8 list" where
  "cstr s = takeWhile (\<lambda>c. c \<noteq> 0) s"

lemma strlen_eq: "0 \<in> set s \<Longrightarrow> strlen s = Done (length (cstr s))"
  by (induction s) (auto simp: cstr_def)

lemma strncpy_zero_eq: "n \<le> length s \<Longrightarrow> strncpy_zero s n = Done (replicate n 0 @ drop n s)"
  by (induction s n rule: strncpy_zero.induct) auto

lemma strncpy_eq:
  "n \<le> length s \<Longrightarrow> 0 \<in> set t \<or> n \<le> length t \<Longrightarrow>
     strncpy s t n = Done (take n (cstr t) @ replicate (n - length (cstr t)) 0 @ drop n s)"
  by (induction s t n rule: strncpy.induct) (auto simp: strncpy_zero_eq cstr_def)

lemma safestrcpy_eq:
  "0 < n \<Longrightarrow> n \<le> length s \<Longrightarrow> 0 \<in> set t \<or> n \<le> Suc (length t) \<Longrightarrow>
     \<exists>r. safestrcpy s t n = Done (take (n - 1) (cstr t) @ 0 # r) \<and>
       length (take (n - 1) (cstr t) @ 0 # r) = length s"
proof (induction s t n rule: safestrcpy.induct)
  case (3 d s c t n)
  then show ?case by (cases s) (fastforce simp: cstr_def)+
qed (auto simp: cstr_def)

lemma cstr_nonzero: "c \<in> set (cstr t) \<Longrightarrow> c \<noteq> 0"
  by (auto simp: cstr_def dest: set_takeWhileD)

lemma cstr_append_zero: "(\<And>c. c \<in> set xs \<Longrightarrow> c \<noteq> 0) \<Longrightarrow> cstr (xs @ 0 # r) = xs"
  by (simp add: cstr_def takeWhile_tail)

section \<open>Properties\<close>

text \<open>
  Property C28: \<open>memmove\<close> copies \<open>n\<close> bytes correctly for every overlap of source and destination:
  afterwards the destination holds the bytes the source range held before the call, and every
  other byte is unchanged.
\<close>

theorem memmove_copies:
  assumes "n < 2 ^ 32" and "unat src + n < 2 ^ 64" and "unat dst + n < 2 ^ 64"
  shows "memmove m dst src n a = (if in_range dst n a then m (src + (a - dst)) else m a)"
  using memmove_eq [OF assms] by simp

text \<open>
  Property C29: \<open>safestrcpy\<close> into an array of at least \<open>n > 0\<close> bytes never writes out of bounds,
  keeps the array's length and leaves a terminated string, the source cut to \<open>n - 1\<close>
  characters.
\<close>

theorem safestrcpy_terminates_string:
  assumes "0 < n" and "n \<le> length s" and "0 \<in> set t \<or> n \<le> Suc (length t)"
  shows "\<exists>r. safestrcpy s t n = Done r \<and> length r = length s \<and> cstr r = take (n - 1) (cstr t) \<and>
    strlen r = Done (min (length (cstr t)) (n - 1))"
proof -
  obtain r where r: "safestrcpy s t n = Done (take (n - 1) (cstr t) @ 0 # r)"
    "length (take (n - 1) (cstr t) @ 0 # r) = length s"
    using safestrcpy_eq [OF assms] by blast
  have c: "cstr (take (n - 1) (cstr t) @ 0 # r) = take (n - 1) (cstr t)"
    by (rule cstr_append_zero) (auto dest: in_set_takeD cstr_nonzero)
  have "strlen (take (n - 1) (cstr t) @ 0 # r) = Done (length (take (n - 1) (cstr t)))"
    by (subst strlen_eq) (simp_all only: c set_append list.set, simp)
  with r c show ?thesis by simp
qed

section \<open>Witnesses\<close>

theorem memmove_copies_witness:
  "memmove (\<lambda>a. ucast a) 0x1002 0x1000 5 0x1005 = 3 \<and>
   memmove (\<lambda>a. ucast a) 0x1000 0x1002 5 0x1005 = 5"
  using memmove_copies [of 5 "0x1000" "0x1002" "\<lambda>a. ucast a" "0x1005"]
    memmove_copies [of 5 "0x1002" "0x1000" "\<lambda>a. ucast a" "0x1005"]
  by (simp add: in_range_def)

theorem safestrcpy_terminates_string_witness:
  "\<exists>r. safestrcpy [7, 7, 7, 7] [97, 98, 99, 100, 101, 0] 4 = Done r \<and> cstr r = [97, 98, 99]"
  using safestrcpy_terminates_string [of 4 "[7, 7, 7, 7]" "[97, 98, 99, 100, 101, 0]"]
  by (auto simp: cstr_def)

end
