(* ===== verification/Kalloc.thy ===== *)
theory Kalloc
  imports CString
begin

text \<open>
  \<^verbatim>\<open>kernel/kalloc.c\<close>: the physical page allocator. The free list is threaded through the free
  pages themselves, as in the code: the first eight bytes of a free page hold the address of
  the next one. The address \<^verbatim>\<open>end\<close> that the linker assigns is a field of the state. The
  critical sections of \<^verbatim>\<open>kmem.lock\<close> are single steps.
\<close>

section \<open>The operations\<close>

abbreviation PGSIZE :: u64 where
  "PGSIZE \<equiv> 4096"

abbreviation PGBYTES :: nat where
  "PGBYTES \<equiv> 4096"

abbreviation KERNBASE :: u64 where
  "KERNBASE \<equiv> 0x80000000"

abbreviation PHYSTOP :: u64 where
  "PHYSTOP \<equiv> 0x88000000"

definition PGROUNDUP :: "u64 \<Rightarrow> u64" where
  "PGROUNDUP sz = (sz + PGSIZE - 1) AND NOT (PGSIZE - 1)"

definition PGROUNDDOWN :: "u64 \<Rightarrow> u64" where
  "PGROUNDDOWN a = a AND NOT (PGSIZE - 1)"

record kmem =
  k_mem :: mem
  k_freelist :: u64
  k_end :: u64

definition kfree :: "kmem \<Rightarrow> u64 \<Rightarrow> kmem outcome" where
  "kfree k pa =
     (if pa mod PGSIZE \<noteq> 0 \<or> pa < k_end k \<or> pa \<ge> PHYSTOP then Panic ''kfree''
      else (let m = memset (k_mem k) pa 1 PGBYTES;
                m = store64 m pa (k_freelist k)
            in Done (k\<lparr>k_mem := m, k_freelist := pa\<rparr>)))"

definition kalloc :: "kmem \<Rightarrow> u64 \<times> kmem" where
  "kalloc k =
     (let r = k_freelist k in
      if r \<noteq> 0
      then (let k = k\<lparr>k_freelist := load64 (k_mem k) r\<rparr>
            in (r, k\<lparr>k_mem := memset (k_mem k) r 5 PGBYTES\<rparr>))
      else (r, k))"

lemma kfree_bounds: "kfree k p = Done k' \<Longrightarrow> p mod PGSIZE = 0 \<and> k_end k \<le> p \<and> p < PHYSTOP"
  by (auto simp: kfree_def not_less not_le split: if_splits)

lemma unat_add_page: "p < PHYSTOP \<Longrightarrow> unat (p + PGSIZE) = unat p + PGBYTES"
  by (simp add: unat_plus_if' word_less_nat_alt)

text \<open>The loop of \<open>freerange\<close>; it ends because \<open>kfree\<close> panics above \<^verbatim>\<open>PHYSTOP\<close>.\<close>

function freerange_loop :: "kmem \<Rightarrow> u64 \<Rightarrow> u64 \<Rightarrow> kmem outcome" where
  "freerange_loop k p pa_end =
     (if p + PGSIZE \<le> pa_end
      then obind (kfree k p) (\<lambda>k. freerange_loop k (p + PGSIZE) pa_end)
      else Done k)"
  by pat_completeness auto
termination
proof (relation "measure (\<lambda>(k, p, e). unat PHYSTOP - unat p)", goal_cases)
  case (2 k p pa_end k')
  then have "p < PHYSTOP" using kfree_bounds by blast
  then show ?case using unat_add_page [of p] by (simp add: word_less_nat_alt)
qed simp

declare freerange_loop.simps [simp del]

definition freerange :: "kmem \<Rightarrow> u64 \<Rightarrow> u64 \<Rightarrow> kmem outcome" where
  "freerange k pa_start pa_end = freerange_loop k (PGROUNDUP pa_start) pa_end"

definition kinit :: "kmem \<Rightarrow> kmem outcome" where
  "kinit k = freerange k (k_end k) PHYSTOP"

section \<open>Pages\<close>

definition page_aligned :: "u64 \<Rightarrow> bool" where
  "page_aligned x \<longleftrightarrow> x mod PGSIZE = 0"

lemma page_aligned_iff: "page_aligned x \<longleftrightarrow> unat x mod PGBYTES = 0"
  by (simp add: page_aligned_def word_unat_eq_iff unat_mod)

lemma page_aligned_mult: "page_aligned x \<Longrightarrow> \<exists>k. unat x = PGBYTES * k"
  unfolding page_aligned_iff by (metis mod_0_imp_dvd dvdE)

lemma in_page_iff:
  assumes "page_aligned x"
  shows "in_range x PGBYTES b \<longleftrightarrow> unat x \<le> unat b \<and> unat b < unat x + PGBYTES"
proof -
  obtain k where "unat x = 4096 * k" using page_aligned_mult [OF assms] by blast
  then have "unat x \<le> 2 ^ 64 - 4096" using unat_u64_bound [of x] by simp
  then show ?thesis using unat_u64_bound [of b] unat_u64_bound [of x]
    by (auto simp: in_range_def unat_sub_if' not_le split: if_splits)
qed

lemma page_div:
  assumes "page_aligned x" and "in_range x PGBYTES b"
  shows "unat b div PGBYTES * PGBYTES = unat x"
proof -
  obtain k where k: "unat x = 4096 * k" using page_aligned_mult [OF assms(1)] by blast
  moreover have "unat b div 4096 = k"
    using assms k by (intro div_nat_eqI) (simp_all add: in_page_iff)
  ultimately show ?thesis by simp
qed

lemma page_disjoint:
  assumes "page_aligned x" "page_aligned y" "in_range x PGBYTES b" "in_range y PGBYTES b"
  shows "x = y"
  using page_div [OF assms(1,3)] page_div [OF assms(2,4)] by (simp add: word_unat_eq_iff)

lemma in_range_mono: "in_range a n b \<Longrightarrow> n \<le> k \<Longrightarrow> in_range a k b"
  by (simp add: in_range_def)

definition is_page :: "kmem \<Rightarrow> u64 \<Rightarrow> bool" where
  "is_page k a \<longleftrightarrow> page_aligned a \<and> k_end k \<le> a \<and> a < PHYSTOP"

text \<open>The free list in memory, and the list of pages it stands for.\<close>

fun flist :: "mem \<Rightarrow> u64 \<Rightarrow> u64 list \<Rightarrow> bool" where
  "flist m r [] \<longleftrightarrow> r = 0"
| "flist m r (x # xs) \<longleftrightarrow> r = x \<and> x \<noteq> 0 \<and> flist m (load64 m x) xs"

definition kmem_inv :: "kmem \<Rightarrow> u64 list \<Rightarrow> bool" where
  "kmem_inv k xs \<longleftrightarrow> KERNBASE \<le> k_end k \<and> flist (k_mem k) (k_freelist k) xs \<and> distinct xs \<and>
     (\<forall>x\<in>set xs. is_page k x)"

lemma flist_cong:
  "(\<And>x b. x \<in> set xs \<Longrightarrow> in_range x 8 b \<Longrightarrow> m' b = m b) \<Longrightarrow> flist m' r xs = flist m r xs"
proof (induction xs arbitrary: r)
  case (Cons x xs)
  have "load64 m' x = load64 m x" by (rule load_le_cong) (rule Cons.prems, simp_all)
  moreover have "flist m' (load64 m x) xs = flist m (load64 m x) xs"
    by (rule Cons.IH) (rule Cons.prems, simp_all)
  ultimately show ?case by simp
qed simp

lemma flist_other_page:
  assumes "\<forall>x\<in>set xs. page_aligned x" and "page_aligned p" and "p \<notin> set xs"
    and "\<And>b. \<not> in_range p PGBYTES b \<Longrightarrow> m' b = m b"
  shows "flist m' r xs = flist m r xs"
proof (rule flist_cong)
  fix x b assume x: "x \<in> set xs" and b: "in_range x 8 b"
  have "in_range x PGBYTES b" using b by (rule in_range_mono) simp
  then have "\<not> in_range p PGBYTES b" using page_disjoint [of x p b] assms x by auto
  then show "m' b = m b" by (rule assms(4))
qed

section \<open>Allocating and freeing\<close>

text \<open>The memory outside a page.\<close>

definition same_outside :: "u64 \<Rightarrow> mem \<Rightarrow> mem \<Rightarrow> bool" where
  "same_outside p m m' \<longleftrightarrow> (\<forall>b. \<not> in_range p PGBYTES b \<longrightarrow> m' b = m b)"

lemma page_nonzero: "KERNBASE \<le> k_end k \<Longrightarrow> is_page k x \<Longrightarrow> x \<noteq> 0"
  by (auto simp: is_page_def)

lemma kalloc_none: "kmem_inv k [] \<Longrightarrow> kalloc k = (0, k)"
  by (simp add: kmem_inv_def kalloc_def)

lemma kalloc_some:
  assumes "kmem_inv k (x # xs)"
  obtains k' where "kalloc k = (x, k')" and "kmem_inv k' xs" and "k_end k' = k_end k"
    and "is_page k x" and "x \<noteq> 0" and "x \<notin> set xs" and "same_outside x (k_mem k) (k_mem k')"
    and "\<forall>b. in_range x PGBYTES b \<longrightarrow> k_mem k' b = 5"
proof -
  let ?k = "k\<lparr>k_freelist := load64 (k_mem k) x, k_mem := memset (k_mem k) x 5 PGBYTES\<rparr>"
  have x: "k_freelist k = x" "x \<noteq> 0" "is_page k x" "x \<notin> set xs"
    using assms by (auto simp: kmem_inv_def)
  have "flist (memset (k_mem k) x 5 PGBYTES) (load64 (k_mem k) x) xs
      = flist (k_mem k) (load64 (k_mem k) x) xs"
    using assms by (intro flist_other_page [where p = x]) (auto simp: kmem_inv_def is_page_def memset_eq)
  then have "kmem_inv ?k xs" using assms by (simp add: kmem_inv_def is_page_def)
  moreover have "kalloc k = (x, ?k)" using x by (simp add: kalloc_def Let_def)
  ultimately show thesis using x that [of ?k] by (simp add: same_outside_def memset_eq)
qed

lemma kfree_done:
  assumes inv: "kmem_inv k xs" and p: "is_page k p" "p \<notin> set xs"
  obtains k' where "kfree k p = Done k'" and "kmem_inv k' (p # xs)" and "k_end k' = k_end k"
    and "same_outside p (k_mem k) (k_mem k')"
proof -
  let ?m = "store64 (memset (k_mem k) p 1 PGBYTES) p (k_freelist k)"
  let ?k = "k\<lparr>k_mem := ?m, k_freelist := p\<rparr>"
  have out: "?m b = k_mem k b" if b: "\<not> in_range p PGBYTES b" for b
  proof -
    have "\<not> in_range p 8 b" using b in_range_mono by force
    then show ?thesis using b by (simp add: store_le_other memset_eq del: store_le.simps)
  qed
  have "flist ?m (k_freelist k) xs = flist (k_mem k) (k_freelist k) xs"
    using inv p out by (intro flist_other_page [where p = p]) (auto simp: kmem_inv_def is_page_def)
  then have "kmem_inv ?k (p # xs)"
    using inv p page_nonzero [of k p]
    by (auto simp: kmem_inv_def is_page_def simp del: load_le.simps store_le.simps)
  moreover have "kfree k p = Done ?k"
    using p by (simp add: kfree_def is_page_def page_aligned_def Let_def not_less not_le del: store_le.simps)
  ultimately show thesis using out that [of ?k] by (simp add: same_outside_def del: store_le.simps)
qed

lemma kfree_bad: "\<not> is_page k p \<Longrightarrow> kfree k p = Panic ''kfree''"
  unfolding kfree_def is_page_def page_aligned_def by (rule if_P) (meson linorder_not_le)

section \<open>Building the free list\<close>

lemma pgmask_bits: "bit (4095 :: int) n \<longleftrightarrow> n < 12"
proof -
  have "(4095 :: int) = mask 12" by (simp add: mask_eq_exp_minus_1)
  then show ?thesis by (simp only: bit_mask_iff) simp
qed

lemma PGROUNDDOWN_eq: "PGROUNDDOWN a = push_bit 12 (drop_bit 12 a)"
  by (rule bit_word_eqI) (auto simp: PGROUNDDOWN_def bit_simps pgmask_bits not_less)

lemma unat_PGROUNDDOWN: "unat (PGROUNDDOWN a) = unat a div PGBYTES * PGBYTES"
proof -
  have "unat (PGROUNDDOWN a) = unat (drop_bit 12 a * 4096)"
    by (simp add: PGROUNDDOWN_eq push_bit_eq_mult mult.commute)
  also have "\<dots> = unat (drop_bit 12 a) * 4096 mod 2 ^ 64"
    by (simp add: unat_word_ariths)
  also have "unat (drop_bit 12 a) = unat a div 4096"
    by (simp add: drop_bit_eq_div unat_div)
  also have "unat a div 4096 * 4096 mod 2 ^ 64 = unat a div 4096 * 4096"
    using unat_u64_bound [of a] by (intro mod_less) (meson div_times_less_eq_dividend order.strict_trans1)
  finally show ?thesis .
qed

lemma PGROUNDUP_eq: "PGROUNDUP a = PGROUNDDOWN (a + PGSIZE - 1)"
  by (simp add: PGROUNDUP_def PGROUNDDOWN_def)

lemma unat_PGROUNDUP:
  assumes "a \<le> PHYSTOP"
  shows "unat (PGROUNDUP a) = (unat a + 4095) div PGBYTES * PGBYTES"
proof -
  have "unat (a + 4095) = unat a + 4095" using assms by (simp add: unat_plus_if' word_le_nat_alt)
  moreover have "a + PGSIZE - 1 = a + 4095" by simp
  ultimately show ?thesis by (simp only: PGROUNDUP_eq unat_PGROUNDDOWN)
qed

lemma next_page_set:
  assumes p: "page_aligned p" "k_end k \<le> p" "p < PHYSTOP"
  shows "{x. is_page k x \<and> x < p + PGSIZE} = insert p {x. is_page k x \<and> x < p}"
proof -
  have un: "unat (p + PGSIZE) = unat p + PGBYTES" using p(3) by (rule unat_add_page)
  have "x = p" if "is_page k x" "x < p + PGSIZE" "\<not> x < p" for x
  proof (rule page_disjoint [where b = x])
    show "page_aligned x" using that(1) by (simp add: is_page_def)
    show "in_range p PGBYTES x" using that un p(1) by (simp add: in_page_iff word_less_nat_alt)
  qed (use p in simp_all)
  moreover have "p < p + PGSIZE" using un by (simp add: word_less_nat_alt)
  ultimately show ?thesis using p by (auto simp: is_page_def intro: order.strict_trans)
qed

lemma freerange_loop_inv:
  assumes "kmem_inv k xs" and "set xs = {x. is_page k x \<and> x < p}"
    and "page_aligned p" and "k_end k \<le> p" and "p \<le> PHYSTOP"
  shows "\<exists>k' ys. freerange_loop k p PHYSTOP = Done k' \<and> kmem_inv k' ys \<and> k_end k' = k_end k \<and>
    set ys = {x. is_page k x}"
  using assms
proof (induction k p PHYSTOP arbitrary: xs rule: freerange_loop.induct)
  case (1 k p)
  show ?case
  proof (cases "p < PHYSTOP")
    case True
    have un: "unat (p + PGSIZE) = unat p + PGBYTES" using True by (rule unat_add_page)
    obtain j where "unat p = 4096 * j" using page_aligned_mult [OF 1(4)] by blast
    moreover have "unat p < 0x88000000" using True by (simp add: word_less_nat_alt)
    ultimately have "unat p + 4096 \<le> 0x88000000" by simp
    then have le: "p + PGSIZE \<le> PHYSTOP" by (simp add: word_le_nat_alt un)
    have pg: "is_page k p" "p \<notin> set xs" using 1(3-6) True by (auto simp: is_page_def)
    from 1(2) pg obtain k1 where k1: "kfree k p = Done k1" "kmem_inv k1 (p # xs)" "k_end k1 = k_end k"
      by (rule kfree_done)
    have same: "is_page k1 = is_page k" by (simp add: is_page_def k1 fun_eq_iff)
    have "p + PGSIZE \<ge> k_end k1" using 1(5) un k1(3) by (simp add: word_le_nat_alt)
    moreover have "page_aligned (p + PGSIZE)" using 1(4) un by (simp add: page_aligned_iff)
    ultimately show ?thesis
      using 1(1) [OF le k1(1), of "p # xs"] le k1 1(3-5) True next_page_set [of p k]
      by (subst freerange_loop.simps) (simp add: same)
  next
    case False
    then have "p = PHYSTOP" using 1(6) by simp
    then show ?thesis using 1(2,3) by (subst freerange_loop.simps) (auto simp: is_page_def)
  qed
qed

lemma round_up_least:
  assumes "l = PGBYTES * j" and "n \<le> l"
  shows "(n + 4095) div PGBYTES * PGBYTES \<le> l"
proof -
  have "(n + 4095) div 4096 \<le> (4095 + j * 4096) div 4096" using assms by (intro div_le_mono) simp
  also have "\<dots> = j" by (subst div_mult_self1) simp_all
  finally show ?thesis using assms(1) by simp
qed

lemma round_up_ge: "n \<le> (n + 4095) div PGBYTES * PGBYTES"
proof -
  have "(n + 4095) mod 4096 < 4096" by simp
  then show ?thesis using div_mult_mod_eq [of "n + 4095" 4096] by linarith
qed

lemma PGROUNDUP_page:
  assumes "a \<le> PHYSTOP"
  shows "page_aligned (PGROUNDUP a)" and "a \<le> PGROUNDUP a" and "PGROUNDUP a \<le> PHYSTOP"
    and "page_aligned x \<Longrightarrow> a \<le> x \<Longrightarrow> PGROUNDUP a \<le> x"
proof -
  note u = unat_PGROUNDUP [OF assms]
  show "page_aligned (PGROUNDUP a)" by (simp only: page_aligned_iff u mod_mult_self2_is_0)
  show "a \<le> PGROUNDUP a" unfolding word_le_nat_alt u by (rule round_up_ge)
  show up: "PGROUNDUP a \<le> x" if al: "page_aligned x" and le: "a \<le> x" for x
  proof -
    obtain j where "unat x = 4096 * j" using page_aligned_mult [OF al] by blast
    then show ?thesis using le unfolding word_le_nat_alt u by (rule round_up_least)
  qed
  have "page_aligned PHYSTOP" by (simp add: page_aligned_def)
  then show "PGROUNDUP a \<le> PHYSTOP" using assms by (rule up)
qed

lemma kinit_inv:
  assumes "KERNBASE \<le> k_end k" and "k_end k \<le> PHYSTOP" and "k_freelist k = 0"
  shows "\<exists>k' xs. kinit k = Done k' \<and> kmem_inv k' xs \<and> k_end k' = k_end k \<and>
    set xs = {x. is_page k x}"
  unfolding kinit_def freerange_def
proof (rule freerange_loop_inv)
  show "kmem_inv k []" using assms by (simp add: kmem_inv_def)
  show "set [] = {x. is_page k x \<and> x < PGROUNDUP (k_end k)}"
    using PGROUNDUP_page(4) [OF assms(2)] by (fastforce simp: is_page_def)
qed (use PGROUNDUP_page [OF assms(2)] in simp_all)

section \<open>The interface of a page allocator\<close>

text \<open>A client that allocates pages and gives back pages that it holds, by position.\<close>

datatype page_op = AllocPage | FreePage nat

definition remove_nth :: "nat \<Rightarrow> 'a list \<Rightarrow> 'a list" where
  "remove_nth i xs = take i xs @ drop (Suc i) xs"

lemma mset_remove_nth: "i < length xs \<Longrightarrow> mset xs = add_mset (xs ! i) (mset (remove_nth i xs))"
  by (metis id_take_nth_drop mset.simps(2) mset_append remove_nth_def union_mset_add_mset_right)

fun run_pages :: "('s \<Rightarrow> u64 \<times> 's) \<Rightarrow> ('s \<Rightarrow> u64 \<Rightarrow> 's outcome) \<Rightarrow> page_op list \<Rightarrow> u64 list \<Rightarrow> 's \<Rightarrow>
    (u64 list \<times> 's) outcome" where
  "run_pages alloc free [] held s = Done (held, s)"
| "run_pages alloc free (AllocPage # os) held s =
     (case alloc s of (p, s) \<Rightarrow> run_pages alloc free os (if p = 0 then held else p # held) s)"
| "run_pages alloc free (FreePage i # os) held s =
     (if i < length held
      then obind (free s (held ! i)) (run_pages alloc free os (remove_nth i held))
      else run_pages alloc free os held s)"

locale page_allocator =
  fixes alloc :: "'s \<Rightarrow> u64 \<times> 's"
    and free :: "'s \<Rightarrow> u64 \<Rightarrow> 's outcome"
    and rep :: "'s \<Rightarrow> u64 list \<Rightarrow> bool"
    and page :: "'s \<Rightarrow> u64 \<Rightarrow> bool"
  assumes rep_distinct: "rep s xs \<Longrightarrow> distinct xs"
    and rep_page: "rep s xs \<Longrightarrow> x \<in> set xs \<Longrightarrow> page s x"
    and alloc_none: "rep s [] \<Longrightarrow> alloc s = (0, s)"
    and alloc_some: "rep s (x # xs) \<Longrightarrow>
      \<exists>s'. alloc s = (x, s') \<and> x \<noteq> 0 \<and> rep s' xs \<and> page s' = page s"
    and free_page: "rep s xs \<Longrightarrow> page s p \<Longrightarrow> p \<notin> set xs \<Longrightarrow>
      \<exists>s'. free s p = Done s' \<and> rep s' (p # xs) \<and> page s' = page s"
begin

lemma run_conserves:
  "rep s xs \<Longrightarrow> distinct (held @ xs) \<Longrightarrow> \<forall>p\<in>set held. page s p \<Longrightarrow>
     \<exists>held' s' xs'. run_pages alloc free os held s = Done (held', s') \<and> rep s' xs' \<and>
       distinct (held' @ xs') \<and> mset (held' @ xs') = mset (held @ xs)"
proof (induction os arbitrary: held s xs)
  case Nil
  then show ?case by auto
next
  case (Cons op os)
  show ?case
  proof (cases op)
    case AllocPage
    show ?thesis
    proof (cases xs)
      case Nil
      then show ?thesis using Cons.IH [of s "[]" held] Cons.prems AllocPage alloc_none [of s] by simp
    next
      case (Cons x ys)
      then obtain s1 where s1: "alloc s = (x, s1)" "x \<noteq> 0" "rep s1 ys" "page s1 = page s"
        using alloc_some [of s x ys] Cons.prems by auto
      have "\<forall>p\<in>set (x # held). page s1 p"
        using Cons.prems Cons s1 rep_page [of s xs x] by auto
      then show ?thesis
        using Cons.IH [of s1 ys "x # held"] Cons.prems Cons s1 AllocPage by auto
    qed
  next
    case (FreePage i)
    show ?thesis
    proof (cases "i < length held")
      case True
      note ms = mset_remove_nth [OF True]
      have "mset (held @ xs) = mset (remove_nth i held @ held ! i # xs)" by (simp add: ms)
      moreover from this have d: "distinct (remove_nth i held @ held ! i # xs)"
        using Cons.prems(2) mset_eq_imp_distinct_iff by blast
      moreover obtain s1 where s1: "free s (held ! i) = Done s1" "rep s1 (held ! i # xs)"
        "page s1 = page s"
        using free_page [of s xs "held ! i"] Cons.prems d True by auto
      moreover have "\<forall>p\<in>set (remove_nth i held). page s1 p"
        using Cons.prems(3) s1(3) by (auto simp: remove_nth_def dest: in_set_takeD in_set_dropD)
      ultimately show ?thesis
        using Cons.IH [of s1 "held ! i # xs" "remove_nth i held"] True FreePage by simp
    next
      case False
      then show ?thesis using Cons FreePage by simp
    qed
  qed
qed

end

interpretation kpages: page_allocator kalloc kfree kmem_inv is_page
proof (unfold_locales, goal_cases)
  case (4 s x xs)
  then show ?case by (rule kalloc_some) (auto simp: is_page_def fun_eq_iff)
next
  case (5 s xs p)
  then show ?case by (rule kfree_done) (auto simp: is_page_def fun_eq_iff)
qed (auto simp: kalloc_none kmem_inv_def)

section \<open>Properties\<close>

text \<open>
  Property C3: after \<open>kinit\<close>, whatever sequence of allocations and frees of held pages follows,
  \<open>kfree\<close> does not panic, no page is handed out twice, the pages held and the pages on the
  in-memory free list are disjoint, and together they are all the aligned pages between
  \<^verbatim>\<open>end\<close> and \<^verbatim>\<open>PHYSTOP\<close>.
\<close>

theorem kalloc_no_double_allocation:
  assumes "KERNBASE \<le> k_end k" and "k_end k \<le> PHYSTOP" and "k_freelist k = 0"
  shows "\<exists>k1 held k2 xs. kinit k = Done k1 \<and> run_pages kalloc kfree os [] k1 = Done (held, k2) \<and>
    kmem_inv k2 xs \<and> distinct held \<and> set held \<inter> set xs = {} \<and>
    set held \<union> set xs = {p. is_page k p}"
proof -
  obtain k1 xs where k1: "kinit k = Done k1" "kmem_inv k1 xs" "set xs = {x. is_page k x}"
    using kinit_inv [OF assms] by blast
  then obtain held k2 ys where "run_pages kalloc kfree os [] k1 = Done (held, k2)" "kmem_inv k2 ys"
    "distinct (held @ ys)" "mset (held @ ys) = mset xs"
    using kpages.run_conserves [of k1 xs "[]" os] by (auto simp: kmem_inv_def)
  with k1 show ?thesis by (metis distinct_append mset_eq_setD set_append)
qed

text \<open>
  Property C24: \<open>kalloc\<close> after \<open>kfree\<close> returns the page just freed, filled with the byte 5, and
  the two together leave the rest of the free list and every byte outside the page as it was.
\<close>

theorem kfree_kalloc_roundtrip:
  assumes "kmem_inv k xs" and "is_page k p" and "p \<notin> set xs"
  shows "\<exists>k1 k2. kfree k p = Done k1 \<and> kalloc k1 = (p, k2) \<and> kmem_inv k2 xs \<and>
    (\<forall>b. k_mem k2 b = (if in_range p PGBYTES b then 5 else k_mem k b))"
proof -
  from assms obtain k1 where k1: "kfree k p = Done k1" "kmem_inv k1 (p # xs)"
    "same_outside p (k_mem k) (k_mem k1)"
    by (rule kfree_done)
  from k1(2) obtain k2 where "kalloc k1 = (p, k2)" "kmem_inv k2 xs"
    "same_outside p (k_mem k1) (k_mem k2)" "\<forall>b. in_range p PGBYTES b \<longrightarrow> k_mem k2 b = 5"
    by (rule kalloc_some)
  with k1 show ?thesis by (auto simp: same_outside_def)
qed

section \<open>Witnesses\<close>

definition small_kmem :: kmem where
  "small_kmem = \<lparr>k_mem = (\<lambda>_. 0), k_freelist = 0, k_end = 0x87ffd123\<rparr>"

theorem kalloc_no_double_allocation_witness:
  "\<exists>k1 held k2. kinit small_kmem = Done k1 \<and>
     run_pages kalloc kfree [AllocPage, AllocPage, FreePage 1, AllocPage] [] k1 = Done (held, k2) \<and>
     distinct held"
  using kalloc_no_double_allocation [of small_kmem "[AllocPage, AllocPage, FreePage 1, AllocPage]"]
  by (simp add: small_kmem_def del: run_pages.simps) blast

theorem kfree_kalloc_roundtrip_witness:
  "\<exists>k1 k2. kfree small_kmem 0x87ffe000 = Done k1 \<and> kalloc k1 = (0x87ffe000, k2) \<and>
     k_mem k2 0x87ffe010 = 5 \<and> k_mem k2 0x87fff010 = 0"
proof -
  have "kmem_inv small_kmem []" "is_page small_kmem 0x87ffe000"
    by (simp_all add: kmem_inv_def small_kmem_def is_page_def page_aligned_def)
  then obtain k1 k2 where "kfree small_kmem 0x87ffe000 = Done k1" "kalloc k1 = (0x87ffe000, k2)"
    "\<forall>b. k_mem k2 b = (if in_range 0x87ffe000 PGBYTES b then 5 else k_mem small_kmem b)"
    using kfree_kalloc_roundtrip [of small_kmem "[]" "0x87ffe000"] by auto
  then show ?thesis by (simp add: in_range_def small_kmem_def)
qed

end
