(* ===== verification/Vm.thy ===== *)
theory Vm
  imports Kalloc
begin

text \<open>
  \<^verbatim>\<open>kernel/vm.c\<close>: three-level Sv39 page tables in physical memory. A page table is the address
  of its root page, a page-table entry is eight bytes of memory; the kernel's direct map makes
  a physical address a pointer. An address in memory returned as a pointer is 0 for null.
  Integer results are 0 and -1 as in the code.
\<close>

section \<open>Page-table entries\<close>

abbreviation PTE_V :: u64 where
  "PTE_V \<equiv> 1"

abbreviation PTE_R :: u64 where
  "PTE_R \<equiv> 2"

abbreviation PTE_W :: u64 where
  "PTE_W \<equiv> 4"

abbreviation PTE_X :: u64 where
  "PTE_X \<equiv> 8"

abbreviation PTE_U :: u64 where
  "PTE_U \<equiv> 16"

abbreviation MAXVA :: u64 where
  "MAXVA \<equiv> 0x4000000000"

abbreviation TRAMPOLINE :: u64 where
  "TRAMPOLINE \<equiv> MAXVA - PGSIZE"

abbreviation TRAPFRAME :: u64 where
  "TRAPFRAME \<equiv> MAXVA - PGSIZE - PGSIZE"

definition PA2PTE :: "u64 \<Rightarrow> u64" where
  "PA2PTE pa = push_bit 10 (drop_bit 12 pa)"

definition PTE2PA :: "u64 \<Rightarrow> u64" where
  "PTE2PA pte = push_bit 12 (drop_bit 10 pte)"

definition PTE_FLAGS :: "u64 \<Rightarrow> u64" where
  "PTE_FLAGS pte = pte AND 0x3FF"

definition PX :: "nat \<Rightarrow> u64 \<Rightarrow> u64" where
  "PX level va = drop_bit (12 + 9 * level) va AND 0x1FF"

section \<open>The operations\<close>

definition set_mem :: "mem \<Rightarrow> kmem \<Rightarrow> kmem" where
  "set_mem m k = k\<lparr>k_mem := m\<rparr>"

fun walk_loop :: "kmem \<Rightarrow> u64 \<Rightarrow> u64 \<Rightarrow> bool \<Rightarrow> nat \<Rightarrow> u64 \<times> kmem" where
  "walk_loop k pagetable va alloc 0 = (pagetable + 8 * PX 0 va, k)"
| "walk_loop k pagetable va alloc (Suc l) =
     (let pte = pagetable + 8 * PX (Suc l) va; v = load64 (k_mem k) pte in
      if v AND PTE_V \<noteq> 0 then walk_loop k (PTE2PA v) va alloc l
      else if \<not> alloc then (0, k)
      else (case kalloc k of (pg, k) \<Rightarrow>
              if pg = 0 then (0, k)
              else (let k = set_mem (memset (k_mem k) pg 0 PGBYTES) k;
                        k = set_mem (store64 (k_mem k) pte (PA2PTE pg OR PTE_V)) k
                    in walk_loop k pg va alloc l)))"

definition walk :: "kmem \<Rightarrow> u64 \<Rightarrow> u64 \<Rightarrow> bool \<Rightarrow> (u64 \<times> kmem) outcome" where
  "walk k pagetable va alloc =
     (if va \<ge> MAXVA then Panic ''walk'' else Done (walk_loop k pagetable va alloc 2))"

definition walkaddr :: "kmem \<Rightarrow> u64 \<Rightarrow> u64 \<Rightarrow> u64 outcome" where
  "walkaddr k pagetable va =
     (if va \<ge> MAXVA then Done 0
      else obind (walk k pagetable va False) (\<lambda>(pte, k).
        if pte = 0 then Done 0
        else (let v = load64 (k_mem k) pte in
              if v AND PTE_V = 0 then Done 0
              else if v AND PTE_U = 0 then Done 0
              else Done (PTE2PA v))))"

lemma walk_bound: "walk k pt a al = Done r \<Longrightarrow> a < MAXVA"
  by (auto simp: walk_def not_le split: if_splits)

lemma unat_next_page: "a < MAXVA \<Longrightarrow> unat (a + PGSIZE) = unat a + PGBYTES"
  by (simp add: unat_plus_if' word_less_nat_alt)

lemma next_page_measure:
  "a < MAXVA \<Longrightarrow> 0x4000000000 - unat (a + PGSIZE) < 0x4000000000 - unat a"
  using unat_next_page [of a] by (simp add: word_less_nat_alt)

function mappages_loop :: "kmem \<Rightarrow> u64 \<Rightarrow> u64 \<Rightarrow> u64 \<Rightarrow> u64 \<Rightarrow> u64 \<Rightarrow> (int \<times> kmem) outcome" where
  "mappages_loop k pagetable a lastva pa perm =
     obind (walk k pagetable a True) (\<lambda>(pte, k).
       if pte = 0 then Done (-1, k)
       else if load64 (k_mem k) pte AND PTE_V \<noteq> 0 then Panic ''mappages: remap''
       else (let k = set_mem (store64 (k_mem k) pte (PA2PTE pa OR perm OR PTE_V)) k in
             if a = lastva then Done (0, k)
             else mappages_loop k pagetable (a + PGSIZE) lastva (pa + PGSIZE) perm))"
  by pat_completeness auto
termination
  by (relation "measure (\<lambda>(k, pt, a, l, pa, perm). 0x4000000000 - unat a)")
    (auto dest!: walk_bound intro: next_page_measure)

declare mappages_loop.simps [simp del]

definition mappages :: "kmem \<Rightarrow> u64 \<Rightarrow> u64 \<Rightarrow> u64 \<Rightarrow> u64 \<Rightarrow> u64 \<Rightarrow> (int \<times> kmem) outcome" where
  "mappages k pagetable va sz pa perm =
     (if va mod PGSIZE \<noteq> 0 then Panic ''mappages: va not aligned''
      else if sz mod PGSIZE \<noteq> 0 then Panic ''mappages: size not aligned''
      else if sz = 0 then Panic ''mappages: size''
      else mappages_loop k pagetable va (va + sz - PGSIZE) pa perm)"

definition kvmmap :: "kmem \<Rightarrow> u64 \<Rightarrow> u64 \<Rightarrow> u64 \<Rightarrow> u64 \<Rightarrow> u64 \<Rightarrow> kmem outcome" where
  "kvmmap k kpgtbl va pa sz perm =
     obind (mappages k kpgtbl va sz pa perm) (\<lambda>(r, k). if r \<noteq> 0 then Panic ''kvmmap'' else Done k)"

function uvmunmap_loop :: "kmem \<Rightarrow> u64 \<Rightarrow> u64 \<Rightarrow> u64 \<Rightarrow> bool \<Rightarrow> kmem outcome" where
  "uvmunmap_loop k pagetable a lastva do_free =
     (if a < lastva then
        obind (walk k pagetable a False) (\<lambda>(pte, k).
          if pte = 0 then Panic ''uvmunmap: walk''
          else (let v = load64 (k_mem k) pte in
                if v AND PTE_V = 0 then Panic ''uvmunmap: not mapped''
                else if PTE_FLAGS v = PTE_V then Panic ''uvmunmap: not a leaf''
                else obind (if do_free then kfree k (PTE2PA v) else Done k) (\<lambda>k.
                       uvmunmap_loop (set_mem (store64 (k_mem k) pte 0) k) pagetable (a + PGSIZE) lastva do_free)))
      else Done k)"
  by pat_completeness auto
termination
  by (relation "measure (\<lambda>(k, pt, a, l, f). 0x4000000000 - unat a)")
    (auto dest!: walk_bound intro: next_page_measure)

declare uvmunmap_loop.simps [simp del]

definition uvmunmap :: "kmem \<Rightarrow> u64 \<Rightarrow> u64 \<Rightarrow> u64 \<Rightarrow> bool \<Rightarrow> kmem outcome" where
  "uvmunmap k pagetable va npages do_free =
     (if va mod PGSIZE \<noteq> 0 then Panic ''uvmunmap: not aligned''
      else uvmunmap_loop k pagetable va (va + npages * PGSIZE) do_free)"

definition uvmcreate :: "kmem \<Rightarrow> u64 \<times> kmem" where
  "uvmcreate k =
     (case kalloc k of (pagetable, k) \<Rightarrow>
        if pagetable = 0 then (0, k)
        else (pagetable, set_mem (memset (k_mem k) pagetable 0 PGBYTES) k))"

text \<open>The bytes of a kernel object, read from and written to memory.\<close>

definition peek :: "mem \<Rightarrow> u64 \<Rightarrow> nat \<Rightarrow> u8 list" where
  "peek m a n = map (\<lambda>i. m (a + of_nat i)) [0..<n]"

fun poke :: "mem \<Rightarrow> u64 \<Rightarrow> u8 list \<Rightarrow> mem" where
  "poke m a [] = m"
| "poke m a (b # bs) = poke (m(a := b)) (a + 1) bs"

definition uvmfirst :: "kmem \<Rightarrow> u64 \<Rightarrow> u8 list \<Rightarrow> kmem outcome" where
  "uvmfirst k pagetable src =
     (if length src \<ge> PGBYTES then Panic ''uvmfirst: more than a page''
      else (case kalloc k of (m, k) \<Rightarrow>
        if m = 0 then Fault
        else (let k = set_mem (memset (k_mem k) m 0 PGBYTES) k in
              obind (mappages k pagetable 0 PGSIZE m (PTE_W OR PTE_R OR PTE_X OR PTE_U)) (\<lambda>(r, k).
                Done (set_mem (poke (k_mem k) m src) k)))))"

text \<open>
  The page count of \<open>uvmdealloc\<close> is an \<^verbatim>\<open>int\<close> that is widened again for \<open>uvmunmap\<close>.
\<close>

definition uvmdealloc :: "kmem \<Rightarrow> u64 \<Rightarrow> u64 \<Rightarrow> u64 \<Rightarrow> (u64 \<times> kmem) outcome" where
  "uvmdealloc k pagetable oldsz newsz =
     (if newsz \<ge> oldsz then Done (oldsz, k)
      else obind
        (if PGROUNDUP newsz < PGROUNDUP oldsz
         then (let npages = ucast ((PGROUNDUP oldsz - PGROUNDUP newsz) div PGSIZE) :: u32 in
               uvmunmap k pagetable (PGROUNDUP newsz) (scast npages) True)
         else Done k) (\<lambda>k. Done (newsz, k)))"

lemma mappages_bound: "mappages k pt a PGSIZE pa perm = Done r \<Longrightarrow> a < MAXVA"
  by (auto simp: mappages_def mappages_loop.simps [of k pt a] outcome_simps dest: walk_bound
      split: if_splits)

function uvmalloc_loop :: "kmem \<Rightarrow> u64 \<Rightarrow> u64 \<Rightarrow> u64 \<Rightarrow> u64 \<Rightarrow> u64 \<Rightarrow> (u64 \<times> kmem) outcome" where
  "uvmalloc_loop k pagetable oldsz a newsz xperm =
     (if a < newsz then
        (case kalloc k of (m, k) \<Rightarrow>
           if m = 0 then obind (uvmdealloc k pagetable a oldsz) (\<lambda>(_, k). Done (0, k))
           else (let k = set_mem (memset (k_mem k) m 0 PGBYTES) k in
                 obind (mappages k pagetable a PGSIZE m (PTE_R OR PTE_U OR xperm)) (\<lambda>(r, k).
                   if r \<noteq> 0
                   then obind (kfree k m) (\<lambda>k.
                        obind (uvmdealloc k pagetable a oldsz) (\<lambda>(_, k). Done (0, k)))
                   else uvmalloc_loop k pagetable oldsz (a + PGSIZE) newsz xperm)))
      else Done (newsz, k))"
  by pat_completeness auto
termination
  by (relation "measure (\<lambda>(k, pt, o', a, n, x). 0x4000000000 - unat a)")
    (auto dest!: mappages_bound intro: next_page_measure)

declare uvmalloc_loop.simps [simp del]

definition uvmalloc :: "kmem \<Rightarrow> u64 \<Rightarrow> u64 \<Rightarrow> u64 \<Rightarrow> u64 \<Rightarrow> (u64 \<times> kmem) outcome" where
  "uvmalloc k pagetable oldsz newsz xperm =
     (if newsz < oldsz then Done (oldsz, k)
      else (let oldsz = PGROUNDUP oldsz in uvmalloc_loop k pagetable oldsz oldsz newsz xperm))"

text \<open>
  \<open>freewalk\<close> descends as deep as the entries lead; the first argument bounds the depth, and
  \<open>Hang\<close> stands for a deeper, possibly cyclic, structure. Page tables have three levels.
\<close>

primrec freewalk :: "nat \<Rightarrow> kmem \<Rightarrow> u64 \<Rightarrow> kmem outcome" where
  "freewalk 0 k pagetable = Hang"
| "freewalk (Suc d) k pagetable =
     obind (ofold (\<lambda>i k.
         let pte = load64 (k_mem k) (pagetable + 8 * of_nat i) in
         if pte AND PTE_V \<noteq> 0 \<and> pte AND (PTE_R OR PTE_W OR PTE_X) = 0
         then obind (freewalk d k (PTE2PA pte)) (\<lambda>k.
              Done (set_mem (store64 (k_mem k) (pagetable + 8 * of_nat i) 0) k))
         else if pte AND PTE_V \<noteq> 0 then Panic ''freewalk: leaf''
         else Done k) [0..<512] k)
       (\<lambda>k. kfree k pagetable)"

definition uvmfree :: "nat \<Rightarrow> kmem \<Rightarrow> u64 \<Rightarrow> u64 \<Rightarrow> kmem outcome" where
  "uvmfree d k pagetable sz =
     obind (if sz > 0 then uvmunmap k pagetable 0 (PGROUNDUP sz div PGSIZE) True else Done k)
       (\<lambda>k. freewalk d k pagetable)"

function uvmcopy_loop :: "kmem \<Rightarrow> u64 \<Rightarrow> u64 \<Rightarrow> u64 \<Rightarrow> u64 \<Rightarrow> (int \<times> kmem) outcome" where
  "uvmcopy_loop k old new i sz =
     (if i < sz then
        obind (walk k old i False) (\<lambda>(pte, k).
          if pte = 0 then Panic ''uvmcopy: pte should exist''
          else (let v = load64 (k_mem k) pte in
                if v AND PTE_V = 0 then Panic ''uvmcopy: page not present''
                else (case kalloc k of (m, k) \<Rightarrow>
                  if m = 0 then obind (uvmunmap k new 0 (i div PGSIZE) True) (\<lambda>k. Done (-1, k))
                  else (let k = set_mem (memmove (k_mem k) m (PTE2PA v) PGBYTES) k in
                        obind (mappages k new i PGSIZE m (PTE_FLAGS v)) (\<lambda>(r, k).
                          if r \<noteq> 0
                          then obind (kfree k m) (\<lambda>k.
                               obind (uvmunmap k new 0 (i div PGSIZE) True) (\<lambda>k. Done (-1, k)))
                          else uvmcopy_loop k old new (i + PGSIZE) sz)))))
      else Done (0, k))"
  by pat_completeness auto
termination
  by (relation "measure (\<lambda>(k, old, new, i, sz). 0x4000000000 - unat i)")
    (auto dest!: walk_bound intro: next_page_measure)

declare uvmcopy_loop.simps [simp del]

definition uvmcopy :: "kmem \<Rightarrow> u64 \<Rightarrow> u64 \<Rightarrow> u64 \<Rightarrow> (int \<times> kmem) outcome" where
  "uvmcopy k old new sz = uvmcopy_loop k old new 0 sz"

definition uvmclear :: "kmem \<Rightarrow> u64 \<Rightarrow> u64 \<Rightarrow> kmem outcome" where
  "uvmclear k pagetable va =
     obind (walk k pagetable va False) (\<lambda>(pte, k).
       if pte = 0 then Panic ''uvmclear''
       else Done (set_mem (store64 (k_mem k) pte (load64 (k_mem k) pte AND NOT PTE_U)) k))"

text \<open>The offset of an address in its page.\<close>

lemma page_offset: "unat (a - PGROUNDDOWN a) = unat a mod PGBYTES"
proof -
  have "unat (PGROUNDDOWN a) \<le> unat a" by (simp add: unat_PGROUNDDOWN)
  then have "unat (a - PGROUNDDOWN a) = unat a - unat (PGROUNDDOWN a)"
    by (simp add: unat_sub word_le_nat_alt)
  then show ?thesis by (simp add: unat_PGROUNDDOWN minus_div_mult_eq_mod)
qed

lemma page_offset_less: "unat (a - PGROUNDDOWN a) < PGBYTES"
  by (simp add: page_offset)

text \<open>
  The copies between the kernel and user memory. The kernel side is a list of bytes; \<open>copyin\<close> and
  \<open>copyinstr\<close> return the bytes that they stored, also when they fail.
\<close>

function copyout :: "kmem \<Rightarrow> u64 \<Rightarrow> u64 \<Rightarrow> u8 list \<Rightarrow> (int \<times> kmem) outcome" where
  "copyout k pagetable dstva src =
     (if length src > 0 then
        (let va0 = PGROUNDDOWN dstva in
         if va0 \<ge> MAXVA then Done (-1, k)
         else obind (walk k pagetable va0 False) (\<lambda>(pte, k).
           let v = load64 (k_mem k) pte in
           if pte = 0 \<or> v AND PTE_V = 0 \<or> v AND PTE_U = 0 \<or> v AND PTE_W = 0 then Done (-1, k)
           else (let pa0 = PTE2PA v;
                     n = PGBYTES - unat (dstva - va0);
                     n = (if n > length src then length src else n);
                     k = set_mem (poke (k_mem k) (pa0 + (dstva - va0)) (take n src)) k
                 in copyout k pagetable (va0 + PGSIZE) (drop n src))))
      else Done (0, k))"
  by pat_completeness auto
termination
  by (relation "measure (\<lambda>(k, pt, va, src). length src)") (use page_offset_less in auto)

function copyin :: "kmem \<Rightarrow> u64 \<Rightarrow> u64 \<Rightarrow> nat \<Rightarrow> (int \<times> u8 list) outcome" where
  "copyin k pagetable srcva len =
     (if len > 0 then
        (let va0 = PGROUNDDOWN srcva in
         obind (walkaddr k pagetable va0) (\<lambda>pa0.
           if pa0 = 0 then Done (-1, [])
           else (let n = PGBYTES - unat (srcva - va0);
                     n = (if n > len then len else n);
                     bs = peek (k_mem k) (pa0 + (srcva - va0)) n
                 in obind (copyin k pagetable (va0 + PGSIZE) (len - n)) (\<lambda>(r, cs).
                      Done (r, bs @ cs)))))
      else Done (0, []))"
  by pat_completeness auto
termination
  by (relation "measure (\<lambda>(k, pt, va, len). len)") (use page_offset_less in auto)

fun copyinstr_page :: "mem \<Rightarrow> u64 \<Rightarrow> nat \<Rightarrow> bool \<times> u8 list" where
  "copyinstr_page m p 0 = (False, [])"
| "copyinstr_page m p (Suc n) =
     (if m p = 0 then (True, [0])
      else (case copyinstr_page m (p + 1) n of (got_null, bs) \<Rightarrow> (got_null, m p # bs)))"

function copyinstr :: "kmem \<Rightarrow> u64 \<Rightarrow> u64 \<Rightarrow> nat \<Rightarrow> (int \<times> u8 list) outcome" where
  "copyinstr k pagetable srcva maxlen =
     (if maxlen > 0 then
        (let va0 = PGROUNDDOWN srcva in
         obind (walkaddr k pagetable va0) (\<lambda>pa0.
           if pa0 = 0 then Done (-1, [])
           else (let n = PGBYTES - unat (srcva - va0);
                     n = (if n > maxlen then maxlen else n)
                 in case copyinstr_page (k_mem k) (pa0 + (srcva - va0)) n of (got_null, bs) \<Rightarrow>
                      if got_null then Done (0, bs)
                      else obind (copyinstr k pagetable (va0 + PGSIZE) (maxlen - n)) (\<lambda>(r, cs).
                             Done (r, bs @ cs)))))
      else Done (-1, []))"
  by pat_completeness auto
termination
  by (relation "measure (\<lambda>(k, pt, va, maxlen). maxlen)") (use page_offset_less in auto)

declare copyout.simps [simp del] copyin.simps [simp del] copyinstr.simps [simp del]

text \<open>
  The kernel's page table; \<^verbatim>\<open>etext\<close> and \<^verbatim>\<open>trampoline\<close> are addresses that the linker assigns.
\<close>

definition KSTACK :: "nat \<Rightarrow> u64" where
  "KSTACK p = TRAMPOLINE - (of_nat p + 1) * 2 * PGSIZE"

definition proc_mapstacks :: "kmem \<Rightarrow> u64 \<Rightarrow> kmem outcome" where
  "proc_mapstacks k kpgtbl =
     ofold (\<lambda>p k. case kalloc k of (pa, k) \<Rightarrow>
         if pa = 0 then Panic ''kalloc''
         else kvmmap k kpgtbl (KSTACK p) pa PGSIZE (PTE_R OR PTE_W)) [0..<64] k"

definition kvmmake :: "u64 \<Rightarrow> u64 \<Rightarrow> kmem \<Rightarrow> (u64 \<times> kmem) outcome" where
  "kvmmake etext trampoline k =
     (case kalloc k of (kpgtbl, k) \<Rightarrow>
        if kpgtbl = 0 then Fault
        else (let k = set_mem (memset (k_mem k) kpgtbl 0 PGBYTES) k in
          obind (kvmmap k kpgtbl 0x10000000 0x10000000 PGSIZE (PTE_R OR PTE_W)) (\<lambda>k.
          obind (kvmmap k kpgtbl 0x10001000 0x10001000 PGSIZE (PTE_R OR PTE_W)) (\<lambda>k.
          obind (kvmmap k kpgtbl 0x0c000000 0x0c000000 0x4000000 (PTE_R OR PTE_W)) (\<lambda>k.
          obind (kvmmap k kpgtbl KERNBASE KERNBASE (etext - KERNBASE) (PTE_R OR PTE_X)) (\<lambda>k.
          obind (kvmmap k kpgtbl etext etext (PHYSTOP - etext) (PTE_R OR PTE_W)) (\<lambda>k.
          obind (kvmmap k kpgtbl TRAMPOLINE trampoline PGSIZE (PTE_R OR PTE_X)) (\<lambda>k.
          obind (proc_mapstacks k kpgtbl) (\<lambda>k. Done (kpgtbl, k))))))))))"

section \<open>Copies from user memory, byte by byte\<close>

text \<open>The byte that a user program sees at a virtual address, if the page is mapped for it.\<close>

definition ubyte :: "kmem \<Rightarrow> u64 \<Rightarrow> u64 \<Rightarrow> u8 option" where
  "ubyte k pagetable va =
     (case walkaddr k pagetable (PGROUNDDOWN va) of
        Done pa0 \<Rightarrow> if pa0 = 0 then None else Some (k_mem k (pa0 + (va - PGROUNDDOWN va)))
      | _ \<Rightarrow> None)"

lemma walkaddr_total: "\<exists>pa. walkaddr k pt va = Done pa"
  by (simp add: walkaddr_def walk_def Let_def split_beta)

lemma length_peek [simp]: "length (peek m a n) = n"
  by (simp add: peek_def)

lemma nth_peek [simp]: "i < n \<Longrightarrow> peek m a n ! i = m (a + of_nat i)"
  by (simp add: peek_def)

text \<open>Addresses in the rest of the page.\<close>

lemma same_page:
  assumes "i < PGBYTES - unat (va - PGROUNDDOWN va)"
  shows "PGROUNDDOWN (va + of_nat i) = PGROUNDDOWN va"
proof -
  have i: "unat va mod 4096 + i < 4096" using assms by (simp add: page_offset)
  have q: "unat va = unat va div 4096 * 4096 + unat va mod 4096" by simp
  have top: "unat va div 4096 * 4096 + 4096 \<le> 2 ^ 64" using unat_u64_bound [of va] by simp
  have no: "unat va + i < 2 ^ 64" using i q top by linarith
  then have un: "unat (va + of_nat i) = unat va + i"
    using i by (simp add: unat_plus_if' unat_of_nat_u64)
  have "(unat va + i) div 4096 = unat va div 4096" using i q
    by (intro div_nat_eqI) (linarith, unfold mult_Suc_right, linarith)
  then have "unat (PGROUNDDOWN (va + of_nat i)) = unat (PGROUNDDOWN va)"
    by (simp add: unat_PGROUNDDOWN un)
  then show ?thesis by (simp add: word_unat_eq_iff)
qed

lemma ubyte_same_page:
  assumes "i < PGBYTES - unat (va - PGROUNDDOWN va)" and "walkaddr k pt (PGROUNDDOWN va) = Done pa0"
  shows "ubyte k pt (va + of_nat i) =
    (if pa0 = 0 then None else Some (k_mem k (pa0 + (va - PGROUNDDOWN va) + of_nat i)))"
  using assms by (simp add: ubyte_def same_page algebra_simps)

lemma next_page_addr: "va + of_nat (PGBYTES - unat (va - PGROUNDDOWN va)) = PGROUNDDOWN va + PGSIZE"
proof -
  have "of_nat (PGBYTES - unat (va - PGROUNDDOWN va)) = PGSIZE - (va - PGROUNDDOWN va)"
    using page_offset_less [of va] by (simp add: of_nat_diff)
  then show ?thesis by simp
qed

text \<open>\<open>matches va bs\<close>: the bytes at \<open>va\<close> onwards are readable and are \<open>bs\<close>.\<close>

definition matches :: "kmem \<Rightarrow> u64 \<Rightarrow> u64 \<Rightarrow> u8 list \<Rightarrow> bool" where
  "matches k pt va bs \<longleftrightarrow> (\<forall>i<length bs. ubyte k pt (va + of_nat i) = Some (bs ! i))"

lemma matches_Nil [simp]: "matches k pt va []"
  by (simp add: matches_def)

lemma matches_append:
  "matches k pt va bs \<Longrightarrow> matches k pt (va + of_nat (length bs)) cs \<Longrightarrow> matches k pt va (bs @ cs)"
  unfolding matches_def
proof (intro allI impI, goal_cases)
  case (1 i)
  show ?case
  proof (cases "i < length bs")
    case False
    then obtain j where "i = length bs + j" by (metis le_Suc_ex not_less)
    with 1 show ?thesis by (simp add: algebra_simps nth_append)
  qed (use 1 in \<open>simp add: nth_append\<close>)
qed

lemma matches_peek:
  assumes "walkaddr k pt (PGROUNDDOWN va) = Done pa0" and "pa0 \<noteq> 0"
    and "n \<le> PGBYTES - unat (va - PGROUNDDOWN va)"
  shows "matches k pt va (peek (k_mem k) (pa0 + (va - PGROUNDDOWN va)) n)"
  using assms ubyte_same_page [OF _ assms(1)] by (simp add: matches_def)

lemma copyin_spec:
  "\<exists>r bs. copyin k pt va len = Done (r, bs) \<and> matches k pt va bs \<and>
     (r = 0 \<and> length bs = len \<or>
      r = -1 \<and> length bs < len \<and> ubyte k pt (va + of_nat (length bs)) = None)"
proof (induction k pt va len rule: copyin.induct)
  case (1 k pt va len)
  let ?va0 = "PGROUNDDOWN va" and ?room = "PGBYTES - unat (va - PGROUNDDOWN va)"
  obtain pa0 where pa0: "walkaddr k pt ?va0 = Done pa0" using walkaddr_total by blast
  show ?case
  proof (cases "len > 0 \<and> pa0 \<noteq> 0")
    case True
    let ?n = "if ?room > len then len else ?room"
    let ?bs = "peek (k_mem k) (pa0 + (va - ?va0)) ?n"
    have IH: "\<exists>r bs. copyin k pt (?va0 + PGSIZE) (len - ?n) = Done (r, bs) \<and>
       matches k pt (?va0 + PGSIZE) bs \<and>
       (r = 0 \<and> length bs = len - ?n \<or> r = -1 \<and> length bs < len - ?n \<and>
         ubyte k pt (?va0 + PGSIZE + of_nat (length bs)) = None)"
      using 1 [of ?va0 pa0] True pa0 by simp
    then obtain r cs where cs: "copyin k pt (?va0 + PGSIZE) (len - ?n) = Done (r, cs)"
      "matches k pt (?va0 + PGSIZE) cs"
      "r = 0 \<and> length cs = len - ?n \<or> r = -1 \<and> length cs < len - ?n \<and>
         ubyte k pt (?va0 + PGSIZE + of_nat (length cs)) = None"
      by blast
    have eq: "copyin k pt va len = Done (r, ?bs @ cs)"
      using True pa0 cs(1) by (subst copyin.simps) (simp add: Let_def)
    have m: "matches k pt va ?bs" using True pa0 by (intro matches_peek) auto
    have nx: "va + of_nat ?n = ?va0 + PGSIZE \<or> cs = []"
      using cs(3) next_page_addr [of va] by (auto split: if_splits)
    then have "matches k pt va (?bs @ cs)" using m cs(2) by (auto intro!: matches_append)
    moreover have "r = 0 \<and> length (?bs @ cs) = len \<or> r = -1 \<and> length (?bs @ cs) < len \<and>
        ubyte k pt (va + of_nat (length (?bs @ cs))) = None"
      using cs(3) next_page_addr [of va] by (auto simp: add.assoc [symmetric] split: if_splits)
    ultimately show ?thesis using eq by blast
  next
    case False
    have "ubyte k pt va = None" if "pa0 = 0" using that pa0 by (simp add: ubyte_def)
    with False pa0 show ?thesis by (subst copyin.simps) (auto simp: Let_def)
  qed
qed

lemma copyinstr_page_spec:
  "copyinstr_page m p n = (g, bs) \<Longrightarrow> length bs \<le> n \<and> bs = peek m p (length bs) \<and>
     (if g then bs \<noteq> [] \<and> last bs = 0 \<and> 0 \<notin> set (butlast bs) else length bs = n \<and> 0 \<notin> set bs)"
proof (induction m p n arbitrary: g bs rule: copyinstr_page.induct)
  case (1 m p)
  then show ?case by (simp add: peek_def)
next
  case (2 m p n)
  have cons: "peek m p (Suc j) = m p # peek m (p + 1) j" for j
    by (simp add: peek_def map_upt_Suc add.assoc del: upt_Suc)
  show ?case
  proof (cases "m p = 0")
    case True
    with 2(2) have "g" "bs = [0]" by auto
    then show ?thesis using True by (simp add: peek_def)
  next
    case False
    then obtain cs where cs: "copyinstr_page m (p + 1) n = (g, cs)" "bs = m p # cs"
      using 2(2) by (auto split: prod.splits)
    have "length cs \<le> n \<and> cs = peek m (p + 1) (length cs) \<and>
      (if g then cs \<noteq> [] \<and> last cs = 0 \<and> 0 \<notin> set (butlast cs) else length cs = n \<and> 0 \<notin> set cs)"
      using 2(1) [OF False cs(1)] .
    then show ?thesis using cs(2) False cons [of "length cs"] by (auto split: if_splits)
  qed
qed

lemma copyinstr_spec:
  "\<exists>r bs. copyinstr k pt va n = Done (r, bs) \<and> matches k pt va bs \<and>
     (r = 0 \<and> length bs \<le> n \<and> bs \<noteq> [] \<and> last bs = 0 \<and> 0 \<notin> set (butlast bs) \<or>
      r = -1 \<and> 0 \<notin> set bs \<and> (length bs = n \<or>
        length bs < n \<and> ubyte k pt (va + of_nat (length bs)) = None))"
proof (induction k pt va n rule: copyinstr.induct)
  case (1 k pt va n)
  let ?va0 = "PGROUNDDOWN va" and ?room = "PGBYTES - unat (va - PGROUNDDOWN va)"
  let ?n = "if ?room > n then n else ?room"
  obtain pa0 where pa0: "walkaddr k pt ?va0 = Done pa0" using walkaddr_total by blast
  obtain g bs where pg: "copyinstr_page (k_mem k) (pa0 + (va - ?va0)) ?n = (g, bs)" by fastforce
  note b = copyinstr_page_spec [OF pg]
  consider "n = 0 \<or> pa0 = 0" | "0 < n" "pa0 \<noteq> 0" "g" | "0 < n" "pa0 \<noteq> 0" "\<not> g" by blast
  then show ?case
  proof cases
    case 1
    have "ubyte k pt va = None" if "pa0 = 0" using that pa0 by (simp add: ubyte_def)
    with 1 pa0 show ?thesis by (subst copyinstr.simps) (auto simp: Let_def)
  next
    case 2
    have "matches k pt va (peek (k_mem k) (pa0 + (va - ?va0)) (length bs))"
      using 2 pa0 b by (intro matches_peek) (auto split: if_splits)
    moreover have "copyinstr k pt va n = Done (0, bs)"
      using 2 pa0 pg by (subst copyinstr.simps) (simp add: Let_def)
    ultimately show ?thesis using b 2 by (auto split: if_splits)
  next
    case 3
    then have lb: "length bs = ?n" "0 \<notin> set bs" "bs = peek (k_mem k) (pa0 + (va - ?va0)) ?n"
      using b by auto
    obtain r cs where cs: "copyinstr k pt (?va0 + PGSIZE) (n - ?n) = Done (r, cs)"
      "matches k pt (?va0 + PGSIZE) cs"
      "r = 0 \<and> length cs \<le> n - ?n \<and> cs \<noteq> [] \<and> last cs = 0 \<and> 0 \<notin> set (butlast cs) \<or>
       r = -1 \<and> 0 \<notin> set cs \<and> (length cs = n - ?n \<or>
         length cs < n - ?n \<and> ubyte k pt (?va0 + PGSIZE + of_nat (length cs)) = None)"
      using 1 [OF 3(1) refl pa0 3(2) refl refl pg [symmetric] 3(3)] by blast
    have eq: "copyinstr k pt va n = Done (r, bs @ cs)"
      using 3 pa0 pg cs(1) by (subst copyinstr.simps) (simp add: Let_def)
    have m: "matches k pt va bs" unfolding lb(3) using 3 pa0 by (intro matches_peek) auto
    have nx: "va + of_nat ?n = ?va0 + PGSIZE \<or> cs = []"
      using cs(3) next_page_addr [of va] by (auto split: if_splits)
    then have "matches k pt va (bs @ cs)" using m cs(2) lb(1) by (auto intro!: matches_append)
    then show ?thesis
      using eq cs(3) lb(1,2) next_page_addr [of va]
      by (auto simp: butlast_append add.assoc [symmetric] split: if_splits)
  qed
qed

section \<open>Properties\<close>

text \<open>
  Property C20: \<open>copyin\<close> reads user memory exactly byte by byte through the page table. It returns
  0 with all \<open>len\<close> bytes when every address of the range is mapped for the user, and -1
  otherwise, after storing the bytes of the pages before the first unmapped one. It never
  panics.
\<close>

theorem copyin_reads_bytes:
  "\<exists>r bs. copyin k pt va len = Done (r, bs) \<and>
     (\<forall>i<length bs. ubyte k pt (va + of_nat i) = Some (bs ! i)) \<and>
     (r = 0 \<and> length bs = len \<or>
      r = -1 \<and> length bs < len \<and> ubyte k pt (va + of_nat (length bs)) = None)"
  using copyin_spec unfolding matches_def by blast

text \<open>
  Property C19: \<open>copyinstr\<close> returns 0 exactly with a terminated string of at most \<open>n\<close> bytes that user
  memory holds at \<open>va\<close>, and -1 when there is no terminator in \<open>n\<close> bytes or an unmapped page comes
  first.
\<close>

theorem copyinstr_reads_string:
  "\<exists>r bs. copyinstr k pt va n = Done (r, bs) \<and>
     (\<forall>i<length bs. ubyte k pt (va + of_nat i) = Some (bs ! i)) \<and>
     (r = 0 \<and> length bs \<le> n \<and> bs \<noteq> [] \<and> last bs = 0 \<and> 0 \<notin> set (butlast bs) \<or>
      r = -1 \<and> 0 \<notin> set bs \<and> (length bs = n \<or>
        length bs < n \<and> ubyte k pt (va + of_nat (length bs)) = None))"
  using copyinstr_spec unfolding matches_def by blast

end
