(* ===== verification/VmTables.thy ===== *)
theory VmTables
  imports Vm
begin

text \<open>
  Correctness of the page-table operations of \<^verbatim>\<open>kernel/vm.c\<close>. The pages of a page table form a
  tree in memory; \<open>node\<close> follows a path of indices from the root. The invariant \<open>tree_ok\<close> says
  that the pages of the tree are allocated pages and that no page is reached along two paths.
  Under it, \<open>walk\<close> and \<open>mappages\<close> change only the entries that they should.
\<close>

section \<open>Entries in memory\<close>

lemma in_range_off:
  assumes "n + j \<le> 2 ^ 64"
  shows "in_range (x + of_nat n) j b \<longleftrightarrow> n \<le> unat (b - x) \<and> unat (b - x) < n + j"
proof (cases "j = 0")
  case True
  then show ?thesis by (simp add: in_range_def)
next
  case False
  then have n: "unat (of_nat n :: u64) = n" using assms by (intro unat_of_nat_u64) simp
  define d where "d = b - x"
  have "b - (x + of_nat n) = d - of_nat n" by (simp add: d_def)
  then have "unat (b - (x + of_nat n)) = (if n \<le> unat d then unat d - n else unat d + 2 ^ 64 - n)"
    by (simp only: unat_sub_if' n) simp
  then show ?thesis using assms False unat_u64_bound [of d]
    unfolding in_range_def d_def [symmetric] by (auto split: if_splits)
qed

lemma load_store_other:
  assumes "\<And>c. in_range b 8 c \<Longrightarrow> \<not> in_range a 8 c"
  shows "load64 (store64 m a v) b = load64 m b"
  by (rule load_le_cong) (metis assms store_le_other)

lemma load_store_page:
  assumes "page_aligned a" and "page_aligned b" and "a \<noteq> b"
  shows "load64 (store64 m a v) b = load64 m b"
proof (rule load_store_other)
  fix c assume "in_range b 8 c"
  then have "in_range b PGBYTES c" by (rule in_range_mono) simp
  then have "\<not> in_range a PGBYTES c" using page_disjoint assms by blast
  then show "\<not> in_range a 8 c" using in_range_mono [of a 8 c PGBYTES] by auto
qed

text \<open>The address of entry \<open>i\<close> of the table page \<open>t\<close>.\<close>

definition slot :: "u64 \<Rightarrow> u64 \<Rightarrow> u64" where
  "slot t i = t + 8 * i"

lemma slot_range:
  assumes "i < 512"
  shows "in_range (slot t i) 8 b \<longleftrightarrow> 8 * unat i \<le> unat (b - t) \<and> unat (b - t) < 8 * unat i + 8"
proof -
  have "unat i < 512" using assms by (simp add: word_less_nat_alt)
  then have "8 * unat i + 8 \<le> 2 ^ 64" by simp
  moreover have "slot t i = t + of_nat (8 * unat i)" by (simp add: slot_def)
  ultimately show ?thesis using in_range_off [of "8 * unat i" 8 t b] by metis
qed

lemma slot_in_page:
  assumes "i < 512" and "in_range (slot t i) 8 b"
  shows "in_range t PGBYTES b"
  using assms slot_range [OF assms(1), of t b] by (simp add: in_range_def word_less_nat_alt)

lemma slot_disjoint:
  assumes "page_aligned t" "page_aligned u" "i < 512" "j < 512" "t \<noteq> u \<or> i \<noteq> j"
    and "in_range (slot t i) 8 b"
  shows "\<not> in_range (slot u j) 8 b"
proof
  assume b: "in_range (slot u j) 8 b"
  have "t = u" using slot_in_page [OF assms(3,6)] slot_in_page [OF assms(4) b] assms(1,2)
    by (metis page_disjoint)
  moreover from this have "unat i = unat j"
    using assms(6) b unfolding slot_range [OF assms(3)] slot_range [OF assms(4)] by simp
  ultimately show False using assms(5) by (simp add: word_unat_eq_iff)
qed

lemma slot_nonzero: "page_aligned t \<Longrightarrow> i < 512 \<Longrightarrow> t \<noteq> 0 \<Longrightarrow> slot t i \<noteq> 0"
proof
  assume t: "page_aligned t" "i < 512" "t \<noteq> 0" and "slot t i = 0"
  then have "in_range t PGBYTES 0" using slot_in_page [of i t 0] by (simp add: in_range_def)
  then show False using t by (simp add: in_page_iff word_unat_eq_iff)
qed

lemma PX_less: "PX l va < 512"
proof -
  have "(0x1FF :: u64) = mask 9" by (simp add: mask_eq_exp_minus_1)
  then have "PX l va = take_bit 9 (drop_bit (12 + 9 * l) va)" by (simp add: PX_def take_bit_eq_mask)
  then have "unat (PX l va) < 2 ^ 9" by (simp only: unsigned_take_bit_eq take_bit_nat_less_exp)
  then show ?thesis by (simp add: word_less_nat_alt)
qed

lemma take_bit_small: "unat w < 2 ^ n \<Longrightarrow> take_bit n w = w"
  by (simp add: word_unat_eq_iff unsigned_take_bit_eq take_bit_nat_eq_self)

lemma no_high_bits: "unat w < 2 ^ n \<Longrightarrow> bit w j \<Longrightarrow> j < n"
  by (metis bit_take_bit_iff take_bit_small)

lemma page_low_bits: "page_aligned pa \<Longrightarrow> bit pa j \<Longrightarrow> 12 \<le> j"
proof (rule ccontr)
  assume "page_aligned pa" "bit pa j" "\<not> 12 \<le> j"
  moreover from this have "take_bit 12 pa = 0" by (simp add: page_aligned_def take_bit_eq_mod)
  ultimately show False by (metis bit_take_bit_iff bit_0_eq bot_apply bot_bool_def not_le)
qed

lemma PTE_roundtrip:
  assumes "page_aligned pa" and "unat pa < 2 ^ 56" and "unat f < 2 ^ 10"
  shows "PTE2PA (PA2PTE pa OR f) = pa" and "PTE_FLAGS (PA2PTE pa OR f) = f"
proof -
  note bits = page_low_bits [OF assms(1)] no_high_bits [OF assms(2)] no_high_bits [OF assms(3)]
  have pa12: "bit pa j \<Longrightarrow> bit pa (12 + (j - 12))" for j using bits(1) by fastforce
  show "PTE2PA (PA2PTE pa OR f) = pa"
    by (rule bit_word_eqI) (auto simp: PTE2PA_def PA2PTE_def bit_simps not_less intro: pa12 dest: bits)
  have m: "(0x3FF :: u64) = mask 10" by (simp add: mask_eq_exp_minus_1)
  show "PTE_FLAGS (PA2PTE pa OR f) = f"
    unfolding PTE_FLAGS_def m
    by (rule bit_word_eqI) (auto simp: PA2PTE_def bit_simps not_less dest: bits)
qed

section \<open>The tree of table pages\<close>

fun node :: "mem \<Rightarrow> u64 \<Rightarrow> u64 list \<Rightarrow> u64 option" where
  "node m t [] = Some t"
| "node m t (i # p) =
     (let v = load64 m (slot t i) in if v AND PTE_V \<noteq> 0 then node m (PTE2PA v) p else None)"

declare node.simps(2) [simp del] load_le.simps [simp del] store_le.simps [simp del]

definition path :: "u64 list \<Rightarrow> bool" where
  "path p \<longleftrightarrow> length p \<le> 2 \<and> (\<forall>i\<in>set p. i < 512)"

definition tree_ok :: "kmem \<Rightarrow> u64 \<Rightarrow> u64 list \<Rightarrow> bool" where
  "tree_ok k root xs \<longleftrightarrow>
     (\<forall>p x. path p \<and> node (k_mem k) root p = Some x \<longrightarrow> is_page k x \<and> x \<notin> set xs) \<and>
     (\<forall>p q x. path p \<and> path q \<and> node (k_mem k) root p = Some x \<and> node (k_mem k) root q = Some x
        \<longrightarrow> p = q)"

lemma node_append:
  "node m t (p @ q) = (case node m t p of None \<Rightarrow> None | Some x \<Rightarrow> node m x q)"
  by (induction p arbitrary: t) (auto simp: node.simps(2) Let_def)

text \<open>A path only reads the entries that it goes through.\<close>

lemma node_cong:
  "(\<And>q i r x. p = q @ i # r \<Longrightarrow> node m t q = Some x \<Longrightarrow> load64 m' (slot x i) = load64 m (slot x i)) \<Longrightarrow>
     node m' t p = node m t p"
proof (induction p arbitrary: t)
  case (Cons i p)
  have e: "load64 m' (slot t i) = load64 m (slot t i)"
    by (rule Cons.prems [of "[]" i p]) simp_all
  have "node m' (PTE2PA v) p = node m (PTE2PA v) p"
    if v: "v = load64 m (slot t i)" "v AND PTE_V \<noteq> 0" for v
  proof (rule Cons.IH)
    fix q j r x assume "p = q @ j # r" "node m (PTE2PA v) q = Some x"
    then show "load64 m' (slot x j) = load64 m (slot x j)"
      using v by (intro Cons.prems [of "i # q" j r]) (auto simp: node.simps(2) Let_def)
  qed
  then show ?case by (simp add: node.simps(2) Let_def e)
qed simp

lemma path_prefix: "path (q @ r) \<Longrightarrow> path q"
  by (auto simp: path_def)

lemma path_index: "path (q @ i # r) \<Longrightarrow> i < 512 \<and> length q < 2"
  by (auto simp: path_def)

lemma tree_page: "tree_ok k root xs \<Longrightarrow> path p \<Longrightarrow> node (k_mem k) root p = Some x \<Longrightarrow> is_page k x"
  by (auto simp: tree_ok_def)

lemma tree_aligned: "tree_ok k root xs \<Longrightarrow> path p \<Longrightarrow> node (k_mem k) root p = Some x \<Longrightarrow> page_aligned x"
  by (auto simp: tree_ok_def is_page_def)

lemma tree_not_free: "tree_ok k root xs \<Longrightarrow> path p \<Longrightarrow> node (k_mem k) root p = Some x \<Longrightarrow> x \<notin> set xs"
  by (auto simp: tree_ok_def)

lemma tree_inj:
  "tree_ok k root xs \<Longrightarrow> path p \<Longrightarrow> path q \<Longrightarrow> node (k_mem k) root p = Some x \<Longrightarrow>
     node (k_mem k) root q = Some x \<Longrightarrow> p = q"
  by (auto simp: tree_ok_def)

text \<open>
  The indices of a virtual address, and the entry that the tables hold for it, 0 where a table
  is missing.
\<close>

fun vpath :: "u64 \<Rightarrow> nat \<Rightarrow> u64 list" where
  "vpath va 0 = []"
| "vpath va (Suc l) = PX (Suc l) va # vpath va l"

definition pte_of :: "mem \<Rightarrow> u64 \<Rightarrow> u64 \<Rightarrow> u64" where
  "pte_of m root va =
     (case node m root (vpath va 2) of None \<Rightarrow> 0 | Some x \<Rightarrow> load64 m (slot x (PX 0 va)))"

lemma length_vpath [simp]: "length (vpath va l) = l"
  by (induction l) auto

lemma path_vpath: "path (vpath va 2)"
  by (simp add: path_def numeral_2_eq_2 PX_less)

lemma walk_loop_lookup:
  "walk_loop k t va False l =
     (case node (k_mem k) t (vpath va l) of None \<Rightarrow> (0, k) | Some x \<Rightarrow> (slot x (PX 0 va), k))"
  by (induction l arbitrary: t) (auto simp: node.simps(2) Let_def slot_def)

text \<open>A zeroed page as a table has no children.\<close>

lemma load_zero: "(\<And>b. in_range a n b \<Longrightarrow> m b = 0) \<Longrightarrow> load_le n m a = 0"
proof (induction n arbitrary: a)
  case (Suc n)
  have "load_le n m (a + 1) = 0"
  proof (rule Suc.IH)
    fix b assume "in_range (a + 1) n b"
    then show "m b = 0" by (intro Suc.prems) (simp add: in_range_Suc_iff)
  qed
  moreover have "m a = 0" by (rule Suc.prems) simp
  ultimately show ?case by (simp add: load_le.simps)
qed (simp add: load_le.simps)

lemma node_zero_page:
  assumes "\<And>b. in_range t PGBYTES b \<Longrightarrow> m b = 0" and "i < 512"
  shows "node m t (i # p) = None" and "load64 m (slot t i) = 0"
proof -
  show z: "load64 m (slot t i) = 0"
    by (rule load_zero) (rule assms(1), rule slot_in_page [OF assms(2)])
  then show "node m t (i # p) = None" by (simp add: node.simps(2))
qed

section \<open>Adding a table page\<close>

lemma page_small: "is_page k x \<Longrightarrow> unat x < 2 ^ 56"
  by (simp add: is_page_def word_less_nat_alt)

text \<open>Writing entry \<open>i\<close> of the table at path \<open>q\<close> and a free page leaves all other entries alone.\<close>

lemma entry_frame:
  assumes ok: "tree_ok k root xs" and q: "path q" "node (k_mem k) root q = Some t" "i < 512"
    and x: "path q'" "node (k_mem k) root q' = Some x" "j < 512" and ne: "(q', j) \<noteq> (q, i)"
    and m': "\<And>b. \<not> in_range (slot t i) 8 b \<Longrightarrow> (\<And>f. f \<in> F \<Longrightarrow> \<not> in_range f PGBYTES b) \<Longrightarrow> m' b = k_mem k b"
    and F: "F \<subseteq> set xs" "\<And>f. f \<in> F \<Longrightarrow> page_aligned f"
  shows "load64 m' (slot x j) = load64 (k_mem k) (slot x j)"
proof (rule load_le_cong)
  fix b assume b: "in_range (slot x j) 8 b"
  have al: "page_aligned t" "page_aligned x" using tree_aligned ok q x by blast+
  have "t \<noteq> x \<or> i \<noteq> j" using tree_inj [OF ok q(1) x(1) q(2)] x(2) ne by auto
  then have "\<not> in_range (slot t i) 8 b" using slot_disjoint [OF al(2,1) x(3) q(3)] b by auto
  moreover have "\<not> in_range f PGBYTES b" if "f \<in> F" for f
    using page_disjoint [OF al(2) F(2) [OF that]] slot_in_page [OF x(3) b] F(1) that
      tree_not_free [OF ok x(1,2)] by blast
  ultimately show "m' b = k_mem k b" by (rule m')
qed

lemma node_frame:
  assumes ok: "tree_ok k root xs" and q: "path q" "node (k_mem k) root q = Some t" "i < 512"
    and p: "path p" "\<nexists>r. p = q @ i # r"
    and m': "\<And>b. \<not> in_range (slot t i) 8 b \<Longrightarrow> (\<And>f. f \<in> F \<Longrightarrow> \<not> in_range f PGBYTES b) \<Longrightarrow> m' b = k_mem k b"
    and F: "F \<subseteq> set xs" "\<And>f. f \<in> F \<Longrightarrow> page_aligned f"
  shows "node m' root p = node (k_mem k) root p"
proof (rule node_cong)
  fix q' j r x assume e: "p = q' @ j # r" "node (k_mem k) root q' = Some x"
  have "path q'" "j < 512" using p(1) e(1) path_prefix path_index by blast+
  moreover have "(q', j) \<noteq> (q, i)" using p(2) e(1) by auto
  ultimately show "load64 m' (slot x j) = load64 (k_mem k) (slot x j)"
    using entry_frame [OF ok q _ e(2) _ _ m' F] by blast
qed

lemma new_table_node:
  assumes ok: "tree_ok k root xs" and q: "path (q @ [i])" "node (k_mem k) root q = Some t"
    and pg: "pg \<in> set xs" "is_page k pg"
    and zero: "\<And>b. in_range pg PGBYTES b \<Longrightarrow> m' b = 0"
    and out: "\<And>b. \<not> in_range (slot t i) 8 b \<Longrightarrow> \<not> in_range pg PGBYTES b \<Longrightarrow> m' b = k_mem k b"
    and e: "load64 m' (slot t i) = PA2PTE pg OR PTE_V" and p: "path p"
  shows "node m' root p =
    (if p = q @ [i] then Some pg else if \<exists>r. p = q @ i # r then None else node (k_mem k) root p)"
proof -
  have qp: "path q" "i < 512" using q(1) path_prefix path_index [of q i "[]"] by auto
  have al: "page_aligned pg" using pg(2) by (simp add: is_page_def)
  have keep: "node m' root p = node (k_mem k) root p" if "path p" "\<nexists>r. p = q @ i # r" for p
    using node_frame [OF ok qp(1) q(2) qp(2) that, of "{pg}" m'] out pg(1) al by auto
  have "node m' root q = Some t" using keep [OF qp(1)] q(2) by auto
  moreover have "PTE2PA (PA2PTE pg OR PTE_V) = pg" by (rule PTE_roundtrip(1)) (use al page_small [OF pg(2)] in auto)
  moreover have "(PA2PTE pg OR PTE_V) AND PTE_V \<noteq> 0"
  proof -
    have "bit ((PA2PTE pg OR PTE_V) AND PTE_V) 0" by (simp add: bit_simps)
    then show ?thesis by (metis bit_0_eq bot_apply bot_bool_def)
  qed
  ultimately have down: "node m' root (q @ i # r) = node m' pg r" for r
    by (simp add: node_append node.simps(2) e Let_def)
  show ?thesis
  proof (cases "\<exists>r. p = q @ i # r")
    case True
    then obtain r where r: "p = q @ i # r" by blast
    show ?thesis
    proof (cases r)
      case (Cons j s)
      have "j < 512" using p r Cons by (simp add: path_def)
      then show ?thesis using r Cons down node_zero_page(1) [OF zero] by simp
    qed (use r down in simp)
  qed (use keep p in auto)
qed

text \<open>The byte \<open>b\<close> is outside the free pages and the pages of the tables.\<close>

definition elsewhere :: "kmem \<Rightarrow> u64 \<Rightarrow> u64 list \<Rightarrow> u64 \<Rightarrow> bool" where
  "elsewhere k root xs b \<longleftrightarrow> (\<forall>f\<in>set xs. \<not> in_range f PGBYTES b) \<and>
     (\<forall>p x. path p \<and> node (k_mem k) root p = Some x \<longrightarrow> \<not> in_range x PGBYTES b)"

text \<open>
  What \<open>walk\<close> does to the machine: the free list loses pages to the tree, the tree keeps its
  nodes, no entry changes, and no byte elsewhere does.
\<close>

definition grows :: "u64 \<Rightarrow> kmem \<Rightarrow> u64 list \<Rightarrow> kmem \<Rightarrow> u64 list \<Rightarrow> bool" where
  "grows root k xs k' xs' \<longleftrightarrow> kmem_inv k' xs' \<and> tree_ok k' root xs' \<and> k_end k' = k_end k \<and>
     set xs' \<subseteq> set xs \<and>
     (\<forall>va. pte_of (k_mem k') root va = pte_of (k_mem k) root va) \<and>
     (\<forall>p x. path p \<and> node (k_mem k) root p = Some x \<longrightarrow> node (k_mem k') root p = Some x) \<and>
     (\<forall>p x. path p \<and> node (k_mem k') root p = Some x \<longrightarrow>
        node (k_mem k) root p = Some x \<or> x \<in> set xs) \<and>
     (\<forall>b. elsewhere k root xs b \<longrightarrow> k_mem k' b = k_mem k b)"

lemma grows_refl: "kmem_inv k xs \<Longrightarrow> tree_ok k root xs \<Longrightarrow> grows root k xs k xs"
  by (auto simp: grows_def)

lemma elsewhere_grows:
  assumes "grows root k xs k' xs'" and "elsewhere k root xs b"
  shows "elsewhere k' root xs' b"
  unfolding elsewhere_def
proof (intro conjI ballI allI impI)
  fix f assume "f \<in> set xs'"
  then have "f \<in> set xs" using assms(1) unfolding grows_def by blast
  then show "\<not> in_range f PGBYTES b" using assms(2) unfolding elsewhere_def by blast
next
  fix p x assume "path p \<and> node (k_mem k') root p = Some x"
  then have "path p \<and> node (k_mem k) root p = Some x \<or> x \<in> set xs"
    using assms(1) unfolding grows_def by blast
  then show "\<not> in_range x PGBYTES b" using assms(2) unfolding elsewhere_def by blast
qed

lemma grows_trans:
  assumes a: "grows root k xs k1 xs1" and b: "grows root k1 xs1 k2 xs2"
  shows "grows root k xs k2 xs2"
  unfolding grows_def
proof (intro conjI allI impI)
  show "kmem_inv k2 xs2" "tree_ok k2 root xs2" using b by (simp_all add: grows_def)
  show "k_end k2 = k_end k" "set xs2 \<subseteq> set xs" using a b by (auto simp: grows_def)
  show "pte_of (k_mem k2) root va = pte_of (k_mem k) root va" for va
    using a b by (simp add: grows_def)
  show "node (k_mem k2) root p = Some x" if "path p \<and> node (k_mem k) root p = Some x" for p x
    using a b that by (simp add: grows_def)
  show "node (k_mem k) root p = Some x \<or> x \<in> set xs"
    if "path p \<and> node (k_mem k2) root p = Some x" for p x
  proof -
    have "node (k_mem k1) root p = Some x \<or> x \<in> set xs1" using b that by (simp add: grows_def)
    then show ?thesis using a that by (auto simp: grows_def)
  qed
  show "k_mem k2 c = k_mem k c" if "elsewhere k root xs c" for c
    using a b elsewhere_grows [OF a that] that by (simp add: grows_def)
qed

lemma alloc_table:
  assumes inv: "kmem_inv k (pg # xs)" and ok: "tree_ok k root (pg # xs)"
    and q: "path (q @ [i])" "node (k_mem k) root q = Some t"
    and no: "load64 (k_mem k) (slot t i) AND PTE_V = 0"
    and k1: "kalloc k = (pg, k1)"
    and k': "k' = set_mem (store64 (memset (k_mem k1) pg 0 PGBYTES) (slot t i) (PA2PTE pg OR PTE_V)) k1"
  shows "grows root k (pg # xs) k' xs" and "node (k_mem k') root (q @ [i]) = Some pg"
proof -
  have qp: "path q" "i < 512" "length q < 2"
    using q(1) path_prefix path_index [of q i "[]"] by auto
  from inv obtain k1' where "kalloc k = (pg, k1')" and k1': "kmem_inv k1' xs" "k_end k1' = k_end k"
    "is_page k pg" "pg \<notin> set xs" "same_outside pg (k_mem k) (k_mem k1')"
    by (rule kalloc_some)
  then have [simp]: "k1' = k1" using k1 by simp
  note pg = k1'(3) and out1 = k1'(5)
  let ?m = "k_mem k'"
  have m: "?m = store64 (memset (k_mem k1) pg 0 PGBYTES) (slot t i) (PA2PTE pg OR PTE_V)"
    by (simp add: k' set_mem_def)
  have al: "page_aligned t" "page_aligned pg" "t \<noteq> pg" "t \<notin> set xs"
    using tree_aligned [OF ok qp(1) q(2)] pg tree_not_free [OF ok qp(1) q(2)] by (auto simp: is_page_def)
  have out: "?m b = k_mem k b" if "\<not> in_range (slot t i) 8 b" "\<not> in_range pg PGBYTES b" for b
    using that out1 by (simp add: m store_le_other memset_eq same_outside_def)
  have zero: "?m b = 0" if "in_range pg PGBYTES b" for b
  proof -
    have "\<not> in_range (slot t i) 8 b"
      using page_disjoint [OF al(1,2) _ that] slot_in_page [OF qp(2)] al(3) by blast
    then show ?thesis using that by (simp add: m store_le_other memset_eq)
  qed
  have e: "load64 ?m (slot t i) = PA2PTE pg OR PTE_V" by (simp add: m)
  note nd = new_table_node [OF ok q _ pg zero out e]
  then have node': "node ?m root p =
      (if p = q @ [i] then Some pg else if \<exists>r. p = q @ i # r then None else node (k_mem k) root p)"
    if "path p" for p
    using that by simp
  have before: "node (k_mem k) root (q @ i # r) = None" for r
    using q(2) no by (simp add: node_append node.simps(2))
  show "node (k_mem k') root (q @ [i]) = Some pg" using node' q(1) by simp
  have fl: "flist ?m (k_freelist k1) xs = flist (k_mem k1) (k_freelist k1) xs"
  proof (rule flist_cong)
    fix x b assume x: "x \<in> set xs" and "in_range x 8 b"
    then have b: "in_range x PGBYTES b" using in_range_mono by force
    have "page_aligned x" using k1' x by (auto simp: kmem_inv_def is_page_def)
    then have "\<not> in_range pg PGBYTES b" "\<not> in_range t PGBYTES b"
      using page_disjoint b al x k1'(4) by metis+
    moreover from this have "\<not> in_range (slot t i) 8 b" using slot_in_page [OF qp(2)] by blast
    ultimately show "?m b = k_mem k1 b" by (simp add: m store_le_other memset_eq)
  qed
  have same: "is_page k' = is_page k" using k1'(2) by (simp add: k' set_mem_def is_page_def fun_eq_iff)
  have kend: "k_end k' = k_end k" "k_freelist k' = k_freelist k1"
    using k1'(2) by (simp_all add: k' set_mem_def)
  have "kmem_inv k' xs" using k1' fl same kend inv by (auto simp: kmem_inv_def)
  moreover have "tree_ok k' root xs"
    unfolding tree_ok_def
  proof (intro conjI allI impI; elim conjE)
    fix p x assume p: "path p" "node ?m root p = Some x"
    then show "is_page k' x" "x \<notin> set xs"
      using ok pg k1'(4) same by (auto simp: node' tree_ok_def split: if_splits)
  next
    fix p p' x assume "path p" "path p'" "node ?m root p = Some x" "node ?m root p' = Some x"
    then show "p = p'"
      using ok by (auto simp: node' tree_ok_def split: if_splits)
  qed
  moreover have "pte_of ?m root va = pte_of (k_mem k) root va" for va
  proof (cases "\<exists>r. vpath va 2 = q @ i # r")
    case True
    then have "node ?m root (vpath va 2) = (if vpath va 2 = q @ [i] then Some pg else None)"
      using node' [OF path_vpath] by auto
    then show ?thesis using True before node_zero_page(2) [OF zero PX_less]
      by (auto simp: pte_of_def)
  next
    case False
    then have n: "node ?m root (vpath va 2) = node (k_mem k) root (vpath va 2)"
      using node' [OF path_vpath] by auto
    have "load64 ?m (slot x (PX 0 va)) = load64 (k_mem k) (slot x (PX 0 va))"
      if x: "node (k_mem k) root (vpath va 2) = Some x" for x
      by (rule entry_frame [OF ok qp(1) q(2) qp(2) path_vpath x PX_less, where F = "{pg}"])
        (use qp(3) out al in \<open>auto dest: arg_cong [of _ _ length]\<close>)
    then show ?thesis by (auto simp: pte_of_def n split: option.splits)
  qed
  moreover have "?m b = k_mem k b" if "elsewhere k root (pg # xs) b" for b
  proof (rule out)
    show "\<not> in_range pg PGBYTES b" using that by (simp add: elsewhere_def)
    have "\<not> in_range t PGBYTES b" using that qp(1) q(2) unfolding elsewhere_def by blast
    then show "\<not> in_range (slot t i) 8 b" using slot_in_page [OF qp(2)] by blast
  qed
  ultimately show "grows root k (pg # xs) k' xs"
    using kend before by (auto simp: grows_def node' split: if_splits)
qed

section \<open>The walk\<close>

lemma walk_loop_grows:
  assumes "kmem_inv k xs" and "tree_ok k root xs" and "node (k_mem k) root q = Some t"
    and "path (q @ vpath va l)"
  shows "\<exists>k' xs'. grows root k xs k' xs' \<and> length xs \<le> length xs' + l \<and>
    (walk_loop k t va True l = (0, k') \<and> xs' = [] \<or>
     (\<exists>x. node (k_mem k') root (q @ vpath va l) = Some x \<and>
        walk_loop k t va True l = (slot x (PX 0 va), k')))"
  using assms
proof (induction l arbitrary: k xs q t)
  case 0
  then show ?case using grows_refl [of k xs root] by (auto simp: slot_def)
next
  case (Suc l)
  let ?i = "PX (Suc l) va"
  let ?v = "load64 (k_mem k) (slot t ?i)"
  have p: "path (q @ [?i])" "path ((q @ [?i]) @ vpath va l)"
    using Suc.prems(4) path_prefix [of "q @ [?i]" "vpath va l"] by simp_all
  show ?case
  proof (cases "?v AND PTE_V = 0")
    case False
    then have "node (k_mem k) root (q @ [?i]) = Some (PTE2PA ?v)"
      using Suc.prems(3) by (simp add: node_append node.simps(2))
    from Suc.IH [OF Suc.prems(1,2) this p(2)] show ?thesis
      using False by (fastforce simp: Let_def slot_def)
  next
    case True
    show ?thesis
    proof (cases xs)
      case Nil
      then show ?thesis
        using True Suc.prems(1,2) kalloc_none [of k] grows_refl [of k xs root]
        by (auto simp: Let_def slot_def)
    next
      case (Cons pg ys)
      obtain k1 where k1: "kalloc k = (pg, k1)" "pg \<noteq> 0"
        using Suc.prems(1) Cons by (metis kalloc_some)
      define k' where "k' = set_mem (store64 (memset (k_mem k1) pg 0 PGBYTES) (slot t ?i)
        (PA2PTE pg OR PTE_V)) k1"
      have g: "grows root k xs k' ys" "node (k_mem k') root (q @ [?i]) = Some pg"
        using alloc_table [OF _ _ p(1) Suc.prems(3) True k1(1) k'_def] Suc.prems(1,2) Cons by auto
      have eq: "walk_loop k t va True (Suc l) = walk_loop k' pg va True l"
        using True k1 by (simp add: Let_def slot_def k'_def set_mem_def)
      have "kmem_inv k' ys" "tree_ok k' root ys" using g(1) by (auto simp: grows_def)
      from Suc.IH [OF this g(2) p(2)] obtain k2 zs where z: "grows root k' ys k2 zs"
        "length ys \<le> length zs + l" "walk_loop k' pg va True l = (0, k2) \<and> zs = [] \<or>
          (\<exists>x. node (k_mem k2) root ((q @ [?i]) @ vpath va l) = Some x \<and>
             walk_loop k' pg va True l = (slot x (PX 0 va), k2))"
        by blast
      have "grows root k xs k2 zs" by (rule grows_trans [OF g(1) z(1)])
      moreover have "length xs \<le> length zs + Suc l" using z(2) Cons by simp
      ultimately show ?thesis using z(3) unfolding eq by auto
    qed
  qed
qed

text \<open>\<open>walk\<close> with allocation from the root, and without.\<close>

lemma walk_alloc:
  assumes "kmem_inv k xs" and "tree_ok k root xs" and "va < MAXVA"
  obtains k' where "grows root k xs k' []" and "walk k root va True = Done (0, k')"
      and "length xs \<le> 2"
  | k' xs' x where "grows root k xs k' xs'" and "node (k_mem k') root (vpath va 2) = Some x"
      and "walk k root va True = Done (slot x (PX 0 va), k')" and "slot x (PX 0 va) \<noteq> 0"
      and "length xs \<le> length xs' + 2"
proof -
  have "\<exists>k' xs'. grows root k xs k' xs' \<and> length xs \<le> length xs' + 2 \<and>
    (walk_loop k root va True 2 = (0, k') \<and> xs' = [] \<or>
     (\<exists>x. node (k_mem k') root (vpath va 2) = Some x \<and>
        walk_loop k root va True 2 = (slot x (PX 0 va), k')))"
    using walk_loop_grows [OF assms(1,2), of "[]" root va 2] path_vpath by simp
  then obtain k' xs' where g: "grows root k xs k' xs'" and len: "length xs \<le> length xs' + 2"
    and w: "walk_loop k root va True 2 = (0, k') \<and> xs' = [] \<or>
     (\<exists>x. node (k_mem k') root (vpath va 2) = Some x \<and>
        walk_loop k root va True 2 = (slot x (PX 0 va), k'))"
    by blast
  have W: "walk k root va True = Done (walk_loop k root va True 2)" using assms(3) by (simp add: walk_def)
  from w show thesis
  proof (elim disjE exE conjE)
    assume "walk_loop k root va True 2 = (0, k')" "xs' = []"
    then show thesis using that(1) g W len by simp
  next
    fix x assume x: "node (k_mem k') root (vpath va 2) = Some x"
      "walk_loop k root va True 2 = (slot x (PX 0 va), k')"
    have ok: "tree_ok k' root xs'" "kmem_inv k' xs'" using g by (simp_all add: grows_def)
    have "is_page k' x" by (rule tree_page [OF ok(1) path_vpath x(1)])
    moreover from this have "x \<noteq> 0" using ok(2) page_nonzero by (auto simp: kmem_inv_def)
    ultimately have "slot x (PX 0 va) \<noteq> 0" using slot_nonzero PX_less by (simp add: is_page_def)
    then show thesis using that(2) g x W len by simp
  qed
qed

lemma walk_lookup:
  assumes "kmem_inv k xs" and "tree_ok k root xs" and "va < MAXVA"
  shows "walk k root va False = Done (case node (k_mem k) root (vpath va 2) of
      None \<Rightarrow> (0, k) | Some x \<Rightarrow> (slot x (PX 0 va), k))"
    and "node (k_mem k) root (vpath va 2) = Some x \<Longrightarrow> slot x (PX 0 va) \<noteq> 0"
proof -
  show "walk k root va False = Done (case node (k_mem k) root (vpath va 2) of
      None \<Rightarrow> (0, k) | Some x \<Rightarrow> (slot x (PX 0 va), k))"
    using assms(3) by (simp add: walk_def walk_loop_lookup)
  assume x: "node (k_mem k) root (vpath va 2) = Some x"
  have "is_page k x" using tree_page [OF assms(2) path_vpath x] .
  moreover from this have "x \<noteq> 0" using assms(1) page_nonzero by (auto simp: kmem_inv_def)
  ultimately show "slot x (PX 0 va) \<noteq> 0" using slot_nonzero PX_less by (simp add: is_page_def)
qed

text \<open>What \<open>walkaddr\<close> returns, from the entry alone.\<close>

lemma walkaddr_pte:
  assumes "kmem_inv k xs" and "tree_ok k root xs" and "va < MAXVA"
  shows "walkaddr k root va = Done (let v = pte_of (k_mem k) root va in
    if v AND PTE_V = 0 \<or> v AND PTE_U = 0 then 0 else PTE2PA v)"
  using assms(3) walk_lookup [OF assms]
  by (auto simp: walkaddr_def pte_of_def Let_def split: option.splits)

section \<open>Writing a leaf entry\<close>

lemma PX_bits: "bit (PX l va) j \<longleftrightarrow> j < 9 \<and> bit va (12 + 9 * l + j)"
proof -
  have "(0x1FF :: u64) = mask 9" by (simp add: mask_eq_exp_minus_1)
  then have "PX l va = take_bit 9 (drop_bit (12 + 9 * l) va)" by (simp add: PX_def take_bit_eq_mask)
  then show ?thesis by (auto simp: bit_simps dest: bit_imp_le_length)
qed

lemma vpath_eq_bits:
  assumes "vpath va 2 = vpath vb 2" and "PX 0 va = PX 0 vb" and "12 \<le> j" and "j < 39"
  shows "bit va j = bit vb j"
proof -
  have px: "PX l va = PX l vb" if "l < 3" for l
    using assms(1,2) that by (auto simp: numeral_2_eq_2 numeral_3_eq_3 less_Suc_eq)
  define l where "l = (j - 12) div 9"
  have "l < 3" using assms(3,4) by (simp add: l_def less_mult_imp_div_less)
  moreover have "j = 12 + 9 * l + (j - 12) mod 9" using assms(3) unfolding l_def by presburger
  ultimately show ?thesis
    using PX_bits [of l va "(j - 12) mod 9"] PX_bits [of l vb "(j - 12) mod 9"] px by simp
qed

text \<open>Two user addresses have the same entry exactly when they are in the same page.\<close>

lemma same_entry_iff:
  assumes "va < MAXVA" and "vb < MAXVA"
  shows "vpath va 2 = vpath vb 2 \<and> PX 0 va = PX 0 vb \<longleftrightarrow> PGROUNDDOWN va = PGROUNDDOWN vb"
proof
  have hi: "unat va < 2 ^ 38" "unat vb < 2 ^ 38" using assms by (simp_all add: word_less_nat_alt)
  assume "vpath va 2 = vpath vb 2 \<and> PX 0 va = PX 0 vb"
  then have "bit va j = bit vb j" if "12 \<le> j" for j
    using that vpath_eq_bits [of va vb j] no_high_bits [OF hi(1), of j] no_high_bits [OF hi(2), of j]
    by (cases "j < 39") auto
  then show "PGROUNDDOWN va = PGROUNDDOWN vb"
    unfolding PGROUNDDOWN_eq by (intro bit_word_eqI) (auto simp: bit_simps)
next
  assume eq: "PGROUNDDOWN va = PGROUNDDOWN vb"
  have "bit va j = bit vb j" if "12 \<le> j" for j
  proof -
    have "bit (PGROUNDDOWN va) j = bit (PGROUNDDOWN vb) j" by (simp add: eq)
    then show ?thesis using that by (auto simp: PGROUNDDOWN_eq bit_simps dest: bit_imp_le_length)
  qed
  then have "PX l va = PX l vb" for l by (intro bit_word_eqI) (simp add: PX_bits)
  then show "vpath va 2 = vpath vb 2 \<and> PX 0 va = PX 0 vb" by (simp add: numeral_2_eq_2)
qed

lemma set_pte:
  assumes inv: "kmem_inv k xs" and ok: "tree_ok k root xs" and va: "va < MAXVA"
    and x: "node (k_mem k) root (vpath va 2) = Some x"
    and k': "k' = set_mem (store64 (k_mem k) (slot x (PX 0 va)) v) k"
  shows "kmem_inv k' xs" and "tree_ok k' root xs" and "k_end k' = k_end k"
    and "\<And>p. path p \<Longrightarrow> node (k_mem k') root p = node (k_mem k) root p"
    and "\<And>vb. vb < MAXVA \<Longrightarrow> pte_of (k_mem k') root vb =
      (if PGROUNDDOWN vb = PGROUNDDOWN va then v else pte_of (k_mem k) root vb)"
    and "\<And>b. elsewhere k root xs b \<Longrightarrow> k_mem k' b = k_mem k b"
proof -
  note px = PX_less [of 0 va]
  have al: "page_aligned x" "x \<notin> set xs"
    using tree_aligned [OF ok path_vpath x] tree_not_free [OF ok path_vpath x] by auto
  have m: "k_mem k' = store64 (k_mem k) (slot x (PX 0 va)) v" by (simp add: k' set_mem_def)
  have out: "k_mem k' b = k_mem k b" if "\<not> in_range (slot x (PX 0 va)) 8 b" for b
    using that by (simp add: m store_le_other)
  have same: "is_page k' = is_page k" by (simp add: k' set_mem_def is_page_def fun_eq_iff)
  show kend: "k_end k' = k_end k" by (simp add: k' set_mem_def)
  have "flist (k_mem k') (k_freelist k) xs = flist (k_mem k) (k_freelist k) xs"
    using inv al out slot_in_page [OF px]
    by (intro flist_other_page [where p = x]) (auto simp: kmem_inv_def is_page_def)
  moreover have "k_freelist k' = k_freelist k" by (simp add: k' set_mem_def)
  ultimately show "kmem_inv k' xs" using inv same kend by (simp add: kmem_inv_def)
  show nd: "node (k_mem k') root p = node (k_mem k) root p" if "path p" for p
    by (rule node_frame [OF ok path_vpath x px that, where F = "{}"]) (use that out in \<open>auto simp: path_def\<close>)
  show "tree_ok k' root xs" using ok same by (auto simp: tree_ok_def nd)
  show "pte_of (k_mem k') root vb = (if PGROUNDDOWN vb = PGROUNDDOWN va then v else pte_of (k_mem k) root vb)"
    if vb: "vb < MAXVA" for vb
  proof (cases "vpath vb 2 = vpath va 2 \<and> PX 0 vb = PX 0 va")
    case True
    then show ?thesis using same_entry_iff [OF vb va] x nd [OF path_vpath] by (simp add: pte_of_def m)
  next
    case False
    have "load64 (k_mem k') (slot y (PX 0 vb)) = load64 (k_mem k) (slot y (PX 0 vb))"
      if y: "node (k_mem k) root (vpath vb 2) = Some y" for y
      by (rule entry_frame [OF ok path_vpath x px path_vpath y PX_less, where F = "{}"])
        (use False out in auto)
    then show ?thesis using same_entry_iff [OF vb va] False nd [OF path_vpath, of vb]
      by (auto simp: pte_of_def split: option.splits)
  qed
  show "k_mem k' b = k_mem k b" if "elsewhere k root xs b" for b
    by (rule out) (use that path_vpath x slot_in_page [OF px, of x b] in \<open>auto simp: elsewhere_def\<close>)
qed

section \<open>Mapping pages\<close>

lemma PGROUNDDOWN_aligned: "page_aligned a \<Longrightarrow> PGROUNDDOWN a = a"
proof -
  assume "page_aligned a"
  then obtain j where "unat a = PGBYTES * j" using page_aligned_mult by blast
  then show ?thesis by (simp add: word_unat_eq_iff unat_PGROUNDDOWN)
qed

lemma page_aligned_PGROUNDDOWN: "page_aligned (PGROUNDDOWN a)"
  by (simp add: page_aligned_iff unat_PGROUNDDOWN)

lemma in_page_PGROUNDDOWN: "page_aligned a \<Longrightarrow> in_range a PGBYTES b \<longleftrightarrow> PGROUNDDOWN b = a"
proof
  assume a: "page_aligned a" "in_range a PGBYTES b"
  have "unat (PGROUNDDOWN b) = unat a" unfolding unat_PGROUNDDOWN using page_div [OF a] .
  then show "PGROUNDDOWN b = a" by (simp add: word_unat_eq_iff)
next
  assume "PGROUNDDOWN b = a"
  then show "in_range a PGBYTES b" using page_offset_less [of b] by (simp add: in_range_def)
qed

lemma in_range_pages_Suc:
  assumes "page_aligned a" and "Suc j * PGBYTES < 2 ^ 64"
  shows "in_range a (Suc j * PGBYTES) b \<longleftrightarrow> PGROUNDDOWN b = a \<or> in_range (a + PGSIZE) (j * PGBYTES) b"
proof -
  have "in_range (a + of_nat 4096) (j * PGBYTES) b \<longleftrightarrow>
      4096 \<le> unat (b - a) \<and> unat (b - a) < 4096 + j * PGBYTES"
    using assms(2) by (intro in_range_off) simp
  moreover have "PGROUNDDOWN b = a \<longleftrightarrow> unat (b - a) < 4096"
    using in_page_PGROUNDDOWN [OF assms(1)] by (simp add: in_range_def)
  ultimately show ?thesis by (auto simp: in_range_def)
qed

lemma page_aligned_next: "page_aligned a \<Longrightarrow> a < MAXVA \<Longrightarrow> page_aligned (a + PGSIZE)"
  using unat_next_page [of a] by (simp add: page_aligned_iff)

text \<open>The entry that \<open>mappages\<close> writes for \<open>vb\<close> when it maps from \<open>a\<close> to \<open>pa\<close>.\<close>

definition mapped_pte :: "u64 \<Rightarrow> u64 \<Rightarrow> u64 \<Rightarrow> u64 \<Rightarrow> u64" where
  "mapped_pte a pa perm vb = PA2PTE (pa + (PGROUNDDOWN vb - a)) OR perm OR PTE_V"

text \<open>
  \<open>j\<close> pages have been mapped: the result of \<open>mappages\<close> on the tables, whether it runs out of
  memory on the way or not.
\<close>

definition maps_pages :: "u64 \<Rightarrow> kmem \<Rightarrow> u64 list \<Rightarrow> u64 \<Rightarrow> u64 \<Rightarrow> u64 \<Rightarrow> nat \<Rightarrow> kmem \<Rightarrow> u64 list \<Rightarrow> bool" where
  "maps_pages root k xs a pa perm j k' xs' \<longleftrightarrow>
     kmem_inv k' xs' \<and> tree_ok k' root xs' \<and> k_end k' = k_end k \<and> set xs' \<subseteq> set xs \<and>
     (\<forall>vb<MAXVA. pte_of (k_mem k') root vb =
        (if in_range a (j * PGBYTES) vb then mapped_pte a pa perm vb else pte_of (k_mem k) root vb)) \<and>
     (\<forall>p x. path p \<and> node (k_mem k') root p = Some x \<longrightarrow>
        node (k_mem k) root p = Some x \<or> x \<in> set xs) \<and>
     (\<forall>b. elsewhere k root xs b \<longrightarrow> k_mem k' b = k_mem k b)"

lemma grows_maps: "grows root k xs k' xs' \<Longrightarrow> maps_pages root k xs a pa perm 0 k' xs'"
  by (simp add: maps_pages_def grows_def in_range_def)

lemma elsewhere_maps:
  assumes "maps_pages root k xs a pa perm j k' xs'" and "elsewhere k root xs b"
  shows "elsewhere k' root xs' b"
  unfolding elsewhere_def
proof (intro conjI ballI allI impI)
  fix f assume "f \<in> set xs'"
  then have "f \<in> set xs" using assms(1) unfolding maps_pages_def by blast
  then show "\<not> in_range f PGBYTES b" using assms(2) unfolding elsewhere_def by blast
next
  fix p x assume "path p \<and> node (k_mem k') root p = Some x"
  then have "path p \<and> node (k_mem k) root p = Some x \<or> x \<in> set xs"
    using assms(1) unfolding maps_pages_def by blast
  then show "\<not> in_range x PGBYTES b" using assms(2) unfolding elsewhere_def by blast
qed

lemma map_one:
  assumes g: "grows root k xs k1 xs1" and va: "a < MAXVA" "page_aligned a"
    and x: "node (k_mem k1) root (vpath a 2) = Some x"
    and k2: "k2 = set_mem (store64 (k_mem k1) (slot x (PX 0 a)) (PA2PTE pa OR perm OR PTE_V)) k1"
  shows "maps_pages root k xs a pa perm 1 k2 xs1"
proof -
  have k1: "kmem_inv k1 xs1" "tree_ok k1 root xs1" using g by (simp_all add: grows_def)
  note s = set_pte [OF k1 va(1) x k2]
  have one: "in_range a (1 * PGBYTES) vb \<longleftrightarrow> PGROUNDDOWN vb = PGROUNDDOWN a" for vb
    using in_page_PGROUNDDOWN [OF va(2)] PGROUNDDOWN_aligned [OF va(2)] by simp
  have "k_mem k2 b = k_mem k b" if "elsewhere k root xs b" for b
    using s(6) [OF elsewhere_grows [OF g that]] g that by (simp add: grows_def)
  then show ?thesis
    using s(1-5) g PGROUNDDOWN_aligned [OF va(2)] unfolding maps_pages_def one
    by (auto simp: grows_def mapped_pte_def) blast
qed

lemma maps_trans:
  assumes a: "page_aligned a" "Suc j * PGBYTES < 2 ^ 64"
    and one: "maps_pages root k xs a pa perm 1 k1 xs1"
    and rest: "maps_pages root k1 xs1 (a + PGSIZE) (pa + PGSIZE) perm j k2 xs2"
  shows "maps_pages root k xs a pa perm (Suc j) k2 xs2"
  unfolding maps_pages_def
proof (intro conjI allI impI)
  show "kmem_inv k2 xs2" "tree_ok k2 root xs2" using rest by (simp_all add: maps_pages_def)
  show "k_end k2 = k_end k" "set xs2 \<subseteq> set xs" using one rest by (auto simp: maps_pages_def)
  fix vb :: u64 assume vb: "vb < MAXVA"
  have "pa + PGSIZE + (PGROUNDDOWN vb - (a + PGSIZE)) = pa + (PGROUNDDOWN vb - a)" by simp
  then have "mapped_pte (a + PGSIZE) (pa + PGSIZE) perm vb = mapped_pte a pa perm vb"
    unfolding mapped_pte_def by (simp only:)
  then show "pte_of (k_mem k2) root vb =
      (if in_range a (Suc j * PGBYTES) vb then mapped_pte a pa perm vb else pte_of (k_mem k) root vb)"
    using one rest vb in_range_pages_Suc [OF a] in_page_PGROUNDDOWN [OF a(1)]
    unfolding maps_pages_def by auto
next
  fix p x assume p: "path p \<and> node (k_mem k2) root p = Some x"
  have "node (k_mem k1) root p = Some x \<or> x \<in> set xs1" using rest p unfolding maps_pages_def by blast
  then show "node (k_mem k) root p = Some x \<or> x \<in> set xs"
    using one p unfolding maps_pages_def by blast
next
  fix b assume "elsewhere k root xs b"
  then show "k_mem k2 b = k_mem k b"
    using one rest elsewhere_maps [OF one] by (simp add: maps_pages_def)
qed

lemma mappages_loop_maps:
  assumes "kmem_inv k xs" and "tree_ok k root xs" and "page_aligned a"
    and "unat a + Suc n * PGBYTES \<le> 0x4000000000"
    and "\<And>i. i \<le> n \<Longrightarrow> pte_of (k_mem k) root (a + of_nat i * PGSIZE) AND PTE_V = 0"
  shows "\<exists>j r k' xs'. mappages_loop k root a (a + of_nat n * PGSIZE) pa perm = Done (r, k') \<and>
    maps_pages root k xs a pa perm j k' xs' \<and> (r = 0 \<and> j = Suc n \<or> r = -1 \<and> j \<le> n)"
  using assms
proof (induction n arbitrary: k xs a pa)
  case (0 k xs a pa)
  have va: "a < MAXVA" using 0(4) by (simp add: word_less_nat_alt)
  from 0(1,2) va show ?case
  proof (cases rule: walk_alloc)
    case (1 k')
    then show ?thesis using grows_maps [OF 1(1), of a pa perm] by (subst mappages_loop.simps) auto
  next
    case (2 k' xs' x)
    have "pte_of (k_mem k') root a AND PTE_V = 0" using 2(1) 0(5) [of 0] by (simp add: grows_def)
    then show ?thesis
      using 2 map_one [OF 2(1) va 0(3) 2(2) refl, of pa perm]
      by (subst mappages_loop.simps) (auto simp: pte_of_def Let_def)
  qed
next
  case (Suc n k xs a pa)
  have va: "a < MAXVA" using Suc.prems(4) by (simp add: word_less_nat_alt)
  from Suc.prems(1,2) va show ?case
  proof (cases rule: walk_alloc)
    case (1 k')
    then show ?thesis using grows_maps [OF 1(1), of a pa perm] by (subst mappages_loop.simps) auto
  next
    case (2 k1 xs1 x)
    define k2 where "k2 = set_mem (store64 (k_mem k1) (slot x (PX 0 a)) (PA2PTE pa OR perm OR PTE_V)) k1"
    have one: "maps_pages root k xs a pa perm 1 k2 xs1"
      by (rule map_one [OF 2(1) va Suc.prems(3) 2(2) k2_def])
    have free: "pte_of (k_mem k1) root a AND PTE_V = 0"
      using 2(1) Suc.prems(5) [of 0] by (simp add: grows_def)
    have ne: "a \<noteq> a + of_nat (Suc n) * PGSIZE"
    proof
      assume "a = a + of_nat (Suc n) * PGSIZE"
      then have "(of_nat (Suc n * PGBYTES) :: u64) = 0" by simp
      then show False using Suc.prems(4) unat_of_nat_u64 [of "Suc n * PGBYTES"] by simp
    qed
    have nxt: "unat (a + PGSIZE) = unat a + PGBYTES" using va by (rule unat_next_page)
    have eq: "mappages_loop k root a (a + of_nat (Suc n) * PGSIZE) pa perm =
        mappages_loop k2 root (a + PGSIZE) (a + PGSIZE + of_nat n * PGSIZE) (pa + PGSIZE) perm"
      using 2 free ne by (subst mappages_loop.simps) (simp add: pte_of_def Let_def k2_def algebra_simps)
    have "\<exists>j r k' xs'. mappages_loop k2 root (a + PGSIZE) (a + PGSIZE + of_nat n * PGSIZE) (pa + PGSIZE) perm
        = Done (r, k') \<and> maps_pages root k2 xs1 (a + PGSIZE) (pa + PGSIZE) perm j k' xs' \<and>
        (r = 0 \<and> j = Suc n \<or> r = -1 \<and> j \<le> n)"
    proof (rule Suc.IH)
      show "kmem_inv k2 xs1" "tree_ok k2 root xs1" using one by (simp_all add: maps_pages_def)
      show "page_aligned (a + PGSIZE)" using Suc.prems(3) va by (rule page_aligned_next)
      show "unat (a + PGSIZE) + Suc n * PGBYTES \<le> 0x4000000000" using Suc.prems(4) nxt by simp
      fix i assume i: "i \<le> n"
      have b: "a + PGSIZE + of_nat i * PGSIZE = a + of_nat (Suc i * PGBYTES)" by (simp add: algebra_simps)
      have lt: "unat a + Suc i * PGBYTES < 0x4000000000" using i Suc.prems(4) by simp
      then have "unat (of_nat (Suc i * PGBYTES) :: u64) = Suc i * PGBYTES"
        by (intro unat_of_nat_u64) simp
      then have "a + of_nat (Suc i * PGBYTES) < MAXVA" and "\<not> in_range a PGBYTES (a + of_nat (Suc i * PGBYTES))"
        using lt by (simp_all add: word_less_nat_alt unat_plus_if' in_range_def)
      moreover have "pte_of (k_mem k) root (a + of_nat (Suc i * PGBYTES)) AND PTE_V = 0"
        using Suc.prems(5) [of "Suc i"] i by (simp add: algebra_simps)
      ultimately show "pte_of (k_mem k2) root (a + PGSIZE + of_nat i * PGSIZE) AND PTE_V = 0"
        unfolding b using one unfolding maps_pages_def by simp
    qed
    then obtain j r k' xs' where r: "mappages_loop k2 root (a + PGSIZE) (a + PGSIZE + of_nat n * PGSIZE)
        (pa + PGSIZE) perm = Done (r, k')" "maps_pages root k2 xs1 (a + PGSIZE) (pa + PGSIZE) perm j k' xs'"
      "r = 0 \<and> j = Suc n \<or> r = -1 \<and> j \<le> n"
      by blast
    have "Suc j * PGBYTES < 2 ^ 64" using r(3) Suc.prems(4) by auto
    from maps_trans [OF Suc.prems(3) this one r(2)] show ?thesis
      unfolding eq using r(1,3) by (metis Suc_le_mono)
  qed
qed

section \<open>Writing user pages\<close>

lemma data_write:
  assumes inv: "kmem_inv k xs" and ok: "tree_ok k root xs" and d: "page_aligned d" "d \<notin> set xs"
    and no: "\<And>p x. path p \<Longrightarrow> node (k_mem k) root p = Some x \<Longrightarrow> x \<noteq> d"
    and m': "\<And>b. \<not> in_range d PGBYTES b \<Longrightarrow> m' b = k_mem k b"
  shows "kmem_inv (set_mem m' k) xs" and "tree_ok (set_mem m' k) root xs"
    and "\<And>p. path p \<Longrightarrow> node m' root p = node (k_mem k) root p"
    and "\<And>va. pte_of m' root va = pte_of (k_mem k) root va"
proof -
  have load: "load64 m' (slot x j) = load64 (k_mem k) (slot x j)"
    if x: "path q" "node (k_mem k) root q = Some x" "j < 512" for q x j
  proof (rule load_le_cong)
    fix b assume "in_range (slot x j) 8 b"
    then have "in_range x PGBYTES b" using slot_in_page x(3) by blast
    then have "\<not> in_range d PGBYTES b"
      using page_disjoint [OF tree_aligned [OF ok x(1,2)] d(1)] no [OF x(1,2)] by blast
    then show "m' b = k_mem k b" by (rule m')
  qed
  show nd: "node m' root p = node (k_mem k) root p" if "path p" for p
  proof (rule node_cong)
    fix q i r x assume "p = q @ i # r" "node (k_mem k) root q = Some x"
    then show "load64 m' (slot x i) = load64 (k_mem k) (slot x i)"
      using load that path_prefix path_index by blast
  qed
  have same: "is_page (set_mem m' k) = is_page k" by (simp add: set_mem_def is_page_def fun_eq_iff)
  have km: "k_mem (set_mem m' k) = m'" "k_end (set_mem m' k) = k_end k"
    "k_freelist (set_mem m' k) = k_freelist k"
    by (simp_all add: set_mem_def)
  show "tree_ok (set_mem m' k) root xs" using ok by (auto simp: tree_ok_def nd km same)
  have "flist m' (k_freelist k) xs = flist (k_mem k) (k_freelist k) xs"
    using inv d m' by (intro flist_other_page [where p = d]) (auto simp: kmem_inv_def is_page_def)
  then show "kmem_inv (set_mem m' k) xs" using inv by (simp add: kmem_inv_def km same)
  show "pte_of m' root va = pte_of (k_mem k) root va" for va
    using load [OF path_vpath _ PX_less, of va] nd [OF path_vpath, of va]
    by (auto simp: pte_of_def split: option.splits)
qed

text \<open>The physical address that a user store to \<open>va\<close> writes, if the page is mapped writable.\<close>

definition waddr :: "mem \<Rightarrow> u64 \<Rightarrow> u64 \<Rightarrow> u64 option" where
  "waddr m root va =
     (let va0 = PGROUNDDOWN va; v = pte_of m root va0 in
      if va0 \<ge> MAXVA \<or> v AND PTE_V = 0 \<or> v AND PTE_U = 0 \<or> v AND PTE_W = 0 then None
      else Some (PTE2PA v + (va - va0)))"

text \<open>The user pages of a page table are neither table pages nor free.\<close>

definition data_ok :: "mem \<Rightarrow> u64 \<Rightarrow> u64 list \<Rightarrow> bool" where
  "data_ok m root xs \<longleftrightarrow> (\<forall>va<MAXVA. let v = pte_of m root va in
     v AND PTE_V \<noteq> 0 \<and> v AND PTE_U \<noteq> 0 \<longrightarrow>
       PTE2PA v \<notin> set xs \<and> (\<forall>p x. path p \<and> node m root p = Some x \<longrightarrow> x \<noteq> PTE2PA v))"

text \<open>Byte-wise stores of \<open>src\<close> at user addresses from \<open>va\<close>, as a user program would do them.\<close>

definition user_store :: "mem \<Rightarrow> u64 \<Rightarrow> u64 \<Rightarrow> u8 list \<Rightarrow> mem" where
  "user_store m root va src =
     foldl (\<lambda>m' i. m'(the (waddr m root (va + of_nat i)) := src ! i)) m [0..<length src]"

lemma poke_foldl: "poke m a bs = foldl (\<lambda>m i. m(a + of_nat i := bs ! i)) m [0..<length bs]"
proof (induction bs arbitrary: m a)
  case (Cons b bs)
  have "[0..<length (b # bs)] = 0 # map Suc [0..<length bs]"
    by (simp add: upt_conv_Cons map_Suc_upt del: upt_Suc)
  then show ?case unfolding Cons.IH poke.simps
    by (simp only: foldl.simps foldl_map nth_Cons_0 nth_Cons_Suc of_nat_Suc add.assoc) simp
qed simp

lemma poke_outside: "\<not> in_range a (length bs) b \<Longrightarrow> poke m a bs b = m b"
proof (induction bs arbitrary: m a)
  case (Cons c bs)
  then have "b \<noteq> a" "\<not> in_range (a + 1) (length bs) b" by (auto simp: in_range_Suc_iff)
  with Cons.IH show ?case by simp
qed simp

lemma page_aligned_PTE2PA: "page_aligned (PTE2PA v)"
proof -
  have "take_bit 12 (PTE2PA v) = 0" by (rule bit_word_eqI) (auto simp: PTE2PA_def bit_simps)
  then show ?thesis by (simp add: page_aligned_def take_bit_eq_mod)
qed

lemma foldl_store_cong:
  "(\<And>i. i \<in> set is \<Longrightarrow> f i = g i \<and> c i = d i) \<Longrightarrow>
     foldl (\<lambda>m i. m(f i := c i)) m is = foldl (\<lambda>m i. m(g i := d i)) m is"
  by (induction "is" arbitrary: m) auto

lemma user_store_append:
  "user_store m root va (bs @ cs) =
     foldl (\<lambda>m' i. m'(the (waddr m root (va + of_nat (length bs) + of_nat i)) := cs ! i))
       (user_store m root va bs) [0..<length cs]"
proof -
  have split: "[0..<length (bs @ cs)] = [0..<length bs] @ map (\<lambda>i. length bs + i) [0..<length cs]"
    by (simp add: upt_add_eq_append [of 0] map_add_upt add.commute)
  have pre: "foldl (\<lambda>m' i. m'(the (waddr m root (va + of_nat i)) := (bs @ cs) ! i)) m [0..<length bs]
      = user_store m root va bs"
    unfolding user_store_def by (rule foldl_store_cong) (auto simp: nth_append)
  show ?thesis
    by (subst user_store_def, subst split, subst foldl_append, subst pre)
      (simp add: foldl_map nth_append algebra_simps)
qed

lemma waddr_same_page:
  assumes "i < PGBYTES - unat (va - PGROUNDDOWN va)"
  shows "waddr m root (va + of_nat i) = map_option (\<lambda>a. a + of_nat i) (waddr m root va)"
  using same_page [OF assms] by (simp add: waddr_def Let_def algebra_simps)

lemma waddr_cong:
  "(\<And>va. pte_of m' root va = pte_of m root va) \<Longrightarrow> waddr m' root va = waddr m root va"
  by (simp add: waddr_def)

lemma poke_user_store:
  assumes "waddr m root va = Some a" and "length bs \<le> PGBYTES - unat (va - PGROUNDDOWN va)"
  shows "poke m a bs = user_store m root va bs"
  unfolding user_store_def poke_foldl
  by (rule foldl_store_cong) (use assms in \<open>simp add: waddr_same_page\<close>)

text \<open>The result of \<open>copyout\<close>: \<open>n\<close> bytes have been stored.\<close>

definition copied :: "kmem \<Rightarrow> u64 \<Rightarrow> u64 list \<Rightarrow> u64 \<Rightarrow> u8 list \<Rightarrow> int \<Rightarrow> kmem \<Rightarrow> nat \<Rightarrow> bool" where
  "copied k root xs va src r k' n \<longleftrightarrow>
     k_mem k' = user_store (k_mem k) root va (take n src) \<and>
     (r = 0 \<and> n = length src \<or>
      r = -1 \<and> n < length src \<and> waddr (k_mem k) root (va + of_nat n) = None) \<and>
     (\<forall>i<n. waddr (k_mem k) root (va + of_nat i) \<noteq> None) \<and>
     kmem_inv k' xs \<and> tree_ok k' root xs \<and> data_ok (k_mem k') root xs \<and>
     (\<forall>vb. pte_of (k_mem k') root vb = pte_of (k_mem k) root vb)"

lemma copied_step:
  assumes w: "waddr (k_mem k) root va = Some a" and b: "length bs \<le> PGBYTES - unat (va - PGROUNDDOWN va)"
    and k1: "k_mem k1 = user_store (k_mem k) root va bs"
    and pte: "\<And>vb. pte_of (k_mem k1) root vb = pte_of (k_mem k) root vb"
    and va1: "va1 = va + of_nat (length bs) \<or> cs = []"
    and c: "copied k1 root xs va1 cs r k2 n"
  shows "copied k root xs va (bs @ cs) r k2 (length bs + n)"
proof -
  have wa: "waddr (k_mem k1) root vb = waddr (k_mem k) root vb" for vb by (rule waddr_cong) (rule pte)
  have "n = 0" if "cs = []" using c that by (auto simp: copied_def)
  then have v: "va1 = va + of_nat (length bs) \<or> (n = 0 \<and> cs = [])" using va1 by auto
  have low: "waddr (k_mem k) root (va + of_nat i) \<noteq> None" if "i < length bs" for i
    using w waddr_same_page [of i va "k_mem k" root] b that by simp
  have all: "waddr (k_mem k) root (va + of_nat i) \<noteq> None" if i: "i < length bs + n" for i
  proof (cases "i < length bs")
    case False
    then obtain j where j: "i = length bs + j" by (metis le_Suc_ex not_less)
    then show ?thesis using c v i by (auto simp: copied_def wa algebra_simps)
  qed (use low in blast)
  have "k_mem k2 = user_store (k_mem k) root va (bs @ take n cs)"
  proof (cases "cs = []")
    case True
    then show ?thesis using c k1 by (simp add: copied_def user_store_def)
  next
    case False
    then have "va1 = va + of_nat (length bs)" using v by blast
    moreover have "k_mem k2 = foldl (\<lambda>m' i. m'(the (waddr (k_mem k) root (va1 + of_nat i)) := take n cs ! i))
        (k_mem k1) [0..<length (take n cs)]"
      using c by (simp only: copied_def user_store_def wa)
    ultimately show ?thesis unfolding user_store_append by (simp add: k1)
  qed
  then show ?thesis
    using c v all by (auto simp: copied_def wa pte algebra_simps)
qed

lemma write_in_page:
  assumes "unat ofs + n \<le> PGBYTES" and "in_range (d + ofs) n b"
  shows "in_range d PGBYTES b"
proof -
  have "unat ofs + n \<le> 2 ^ 64" using assms(1) by simp
  from in_range_off [OF this, of d b] assms show ?thesis by (simp add: in_range_def)
qed

lemma copyout_spec:
  assumes "kmem_inv k xs" and "tree_ok k root xs" and "data_ok (k_mem k) root xs"
  shows "\<exists>r k' n. copyout k root va src = Done (r, k') \<and> copied k root xs va src r k' n"
  using assms
proof (induction k root va src rule: copyout.induct)
  case (1 k root va src)
  let ?va0 = "PGROUNDDOWN va" and ?v = "pte_of (k_mem k) root (PGROUNDDOWN va)"
  let ?room = "PGBYTES - unat (va - PGROUNDDOWN va)"
  let ?n = "if ?room > length src then length src else ?room"
  have stop: "copied k root xs va src (-1) k 0" if "waddr (k_mem k) root va = None" "src \<noteq> []"
    using that 1(2-4) by (simp add: copied_def user_store_def)
  show ?case
  proof (cases "waddr (k_mem k) root va")
    case None
    have "\<exists>r n. copyout k root va src = Done (r, k) \<and> copied k root xs va src r k n"
    proof (cases "src = []")
      case True
      then show ?thesis using 1(2-4) by (subst copyout.simps) (simp add: copied_def user_store_def)
    next
      case False
      have "copyout k root va src = Done (-1, k)"
      proof (cases "?va0 \<ge> MAXVA")
        case True
        then show ?thesis using False by (subst copyout.simps) (simp add: Let_def)
      next
        case lt: False
        have "?v AND PTE_V = 0 \<or> ?v AND PTE_U = 0 \<or> ?v AND PTE_W = 0"
          using None lt by (auto simp: waddr_def Let_def split: if_splits)
        then show ?thesis using lt False walk_lookup(1) [OF 1(2,3), of ?va0]
          by (subst copyout.simps) (auto simp: Let_def pte_of_def split: option.splits)
      qed
      then show ?thesis using stop [OF None False] by blast
    qed
    then show ?thesis by blast
  next
    case (Some a)
    then have lt: "?va0 < MAXVA" and bits: "?v AND PTE_V \<noteq> 0" "?v AND PTE_U \<noteq> 0" "?v AND PTE_W \<noteq> 0"
      and a: "a = PTE2PA ?v + (va - ?va0)"
      by (auto simp: waddr_def Let_def not_le split: if_splits)
    obtain x where x: "node (k_mem k) root (vpath ?va0 2) = Some x"
      using bits(1) by (cases "node (k_mem k) root (vpath ?va0 2)") (auto simp: pte_of_def)
    have walk: "walk k root ?va0 False = Done (slot x (PX 0 ?va0), k)" "slot x (PX 0 ?va0) \<noteq> 0"
      using walk_lookup [OF 1(2,3) lt] x by auto
    have v: "load64 (k_mem k) (slot x (PX 0 ?va0)) = ?v" by (simp add: pte_of_def x)
    show ?thesis
    proof (cases "src = []")
      case True
      then show ?thesis using 1(2-4) by (subst copyout.simps) (simp add: copied_def user_store_def)
    next
      case False
      let ?m = "poke (k_mem k) a (take ?n src)"
      let ?k = "set_mem ?m k"
      have len: "length (take ?n src) \<le> ?room" by simp
      have "?m b = k_mem k b" if "\<not> in_range (PTE2PA ?v) PGBYTES b" for b
      proof (rule poke_outside)
        have "unat (va - ?va0) + length (take ?n src) \<le> PGBYTES"
          using len page_offset_less [of va] by linarith
        then show "\<not> in_range a (length (take ?n src)) b"
          using that write_in_page [of "va - ?va0" "length (take ?n src)"] unfolding a by blast
      qed
      moreover have "PTE2PA ?v \<notin> set xs" "\<And>p y. path p \<Longrightarrow> node (k_mem k) root p = Some y \<Longrightarrow> y \<noteq> PTE2PA ?v"
        using 1(4) lt bits unfolding data_ok_def by (auto simp: Let_def)
      ultimately have dw: "kmem_inv ?k xs" "tree_ok ?k root xs"
        "\<And>p. path p \<Longrightarrow> node ?m root p = node (k_mem k) root p"
        "\<And>va. pte_of ?m root va = pte_of (k_mem k) root va"
        using data_write [OF 1(2,3) page_aligned_PTE2PA, of ?v ?m] by blast+
      have km: "k_mem ?k = ?m" by (simp add: set_mem_def)
      have "data_ok ?m root xs" using 1(4) unfolding data_ok_def dw(4) using dw(3) by metis
      then obtain r k' j where r: "copyout ?k root (?va0 + PGSIZE) (drop ?n src) = Done (r, k')"
        "copied ?k root xs (?va0 + PGSIZE) (drop ?n src) r k' j"
        using 1(1) [OF _ refl _ walk(1) refl refl _ refl refl refl refl] dw(1,2) km lt bits walk(2) a False
        by (simp add: v not_le del: take_append) blast
      have eq: "copyout k root va src = Done (r, k')"
        using r(1) lt [unfolded linorder_not_le [symmetric]] bits walk a False by (subst copyout.simps) (simp add: Let_def v)
      have nx: "?va0 + PGSIZE = va + of_nat (length (take ?n src)) \<or> drop ?n src = []"
        using next_page_addr [of va] by auto
      have "k_mem ?k = user_store (k_mem k) root va (take ?n src)"
        unfolding km by (rule poke_user_store [OF Some len])
      from copied_step [OF Some len this _ nx r(2)] dw(4) km
      have "copied k root xs va (take ?n src @ drop ?n src) r k' (length (take ?n src) + j)" by simp
      then show ?thesis using eq unfolding append_take_drop_id by blast
    qed
  qed
qed

section \<open>Empty page tables\<close>

lemma empty_table:
  assumes "is_page k root" and "root \<notin> set xs" and "\<And>b. in_range root PGBYTES b \<Longrightarrow> k_mem k b = 0"
  shows "tree_ok k root xs" and "pte_of (k_mem k) root va = 0"
    and "path p \<Longrightarrow> node (k_mem k) root p = Some x \<Longrightarrow> x = root"
proof -
  have only: "node (k_mem k) root p = (if p = [] then Some root else None)" if "path p" for p
    using that node_zero_page(1) [OF assms(3)] by (cases p) (auto simp: path_def)
  show "tree_ok k root xs" using assms(1,2) by (auto simp: tree_ok_def only split: if_splits)
  show "pte_of (k_mem k) root va = 0"
    using only [OF path_vpath, of va] by (auto simp: pte_of_def numeral_2_eq_2)
  show "path p \<Longrightarrow> node (k_mem k) root p = Some x \<Longrightarrow> x = root" by (simp add: only split: if_splits)
qed

lemma uvmcreate_table:
  assumes "kmem_inv k (pg # xs)"
  obtains k' where "uvmcreate k = (pg, k')" and "kmem_inv k' xs" and "tree_ok k' pg xs"
    and "\<And>va. pte_of (k_mem k') pg va = 0" and "pg \<noteq> 0" and "k_end k' = k_end k"
    and "\<And>p x. path p \<Longrightarrow> node (k_mem k') pg p = Some x \<Longrightarrow> x = pg"
    and "\<And>b. \<not> in_range pg PGBYTES b \<Longrightarrow> k_mem k' b = k_mem k b"
proof -
  from assms obtain k1 where k1: "kalloc k = (pg, k1)" "kmem_inv k1 xs" "k_end k1 = k_end k"
    "is_page k pg" "pg \<noteq> 0" "pg \<notin> set xs" "same_outside pg (k_mem k) (k_mem k1)"
    by (rule kalloc_some)
  let ?k = "set_mem (memset (k_mem k1) pg 0 PGBYTES) k1"
  have "flist (k_mem ?k) (k_freelist k1) xs = flist (k_mem k1) (k_freelist k1) xs"
    using k1 by (intro flist_other_page [where p = pg])
      (auto simp: kmem_inv_def is_page_def set_mem_def memset_eq)
  then have "kmem_inv ?k xs" using k1 by (simp add: kmem_inv_def set_mem_def is_page_def)
  moreover have "is_page ?k pg" using k1 by (simp add: is_page_def set_mem_def)
  moreover have "uvmcreate k = (pg, ?k)" using k1 by (simp add: uvmcreate_def)
  ultimately show thesis
    using that [of ?k] empty_table [of ?k pg xs] k1(3,5-7)
    by (simp add: set_mem_def memset_eq same_outside_def)
qed

section \<open>Properties\<close>


text \<open>
  Property C4: \<open>copyout\<close> is equivalent to storing the bytes one by one at the user addresses, as
  a user program would. It returns 0 when all bytes are stored, and -1 at the first page that
  is not mapped user-writable, after storing the bytes before it. The page table and the free
  list are unchanged, since user pages are neither table pages nor free.
\<close>

theorem copyout_stores_bytes:
  assumes "kmem_inv k xs" and "tree_ok k root xs" and "data_ok (k_mem k) root xs"
  shows "\<exists>r k' n. copyout k root va src = Done (r, k') \<and>
    k_mem k' = user_store (k_mem k) root va (take n src) \<and>
    (\<forall>i<n. waddr (k_mem k) root (va + of_nat i) \<noteq> None) \<and>
    (r = 0 \<and> n = length src \<or>
     r = -1 \<and> n < length src \<and> waddr (k_mem k) root (va + of_nat n) = None) \<and>
    kmem_inv k' xs \<and> tree_ok k' root xs \<and>
    (\<forall>vb. pte_of (k_mem k') root vb = pte_of (k_mem k) root vb)"
  using copyout_spec [OF assms, of va src] unfolding copied_def by blast

section \<open>Witnesses\<close>

text \<open>
  A small machine: a root table, one table of each lower level, one user page mapped at
  address 0 with all permissions, and two free pages.
\<close>

definition demo_mem :: mem where
  "demo_mem = store64 (store64 (store64 (store64 (\<lambda>_. 0)
     0x87fff000 (PA2PTE 0x87ffe000 OR PTE_V))
     0x87ffe000 (PA2PTE 0x87ffd000 OR PTE_V))
     0x87ffd000 (PA2PTE 0x87ffc000 OR 0x1f))
     0x87ffb000 0x87ffa000"

definition demo_kmem :: kmem where
  "demo_kmem = \<lparr>k_mem = demo_mem, k_freelist = 0x87ffb000, k_end = 0x80100000\<rparr>"

abbreviation demo_root :: u64 where
  "demo_root \<equiv> 0x87fff000"

lemma demo_loads:
  "load64 demo_mem 0x87fff000 = PA2PTE 0x87ffe000 OR PTE_V"
  "load64 demo_mem 0x87ffe000 = PA2PTE 0x87ffd000 OR PTE_V"
  "load64 demo_mem 0x87ffd000 = PA2PTE 0x87ffc000 OR 0x1f"
  "load64 demo_mem 0x87ffb000 = 0x87ffa000"
  "load64 demo_mem 0x87ffa000 = 0"
  by (simp_all add: demo_mem_def load_store_page page_aligned_def load_zero)

lemma demo_zero:
  assumes "page_aligned t" "i < 512" "t = 0x87fff000 \<or> t = 0x87ffe000 \<or> t = 0x87ffd000 \<Longrightarrow> i \<noteq> 0"
    "t \<noteq> 0x87ffb000"
  shows "load64 demo_mem (slot t i) = 0"
proof -
  have far: "load64 (store64 m a v) (slot t i) = load64 m (slot t i)"
    if "page_aligned a" "a \<noteq> t \<or> i \<noteq> 0" for m a v
  proof (rule load_store_other)
    fix c assume "in_range (slot t i) 8 c"
    then have "\<not> in_range (slot a 0) 8 c"
      by (rule slot_disjoint [rotated 5]) (use assms that in auto)
    then show "\<not> in_range a 8 c" by (simp add: slot_def)
  qed
  have "load64 (\<lambda>_. 0) (slot t i) = 0" by (rule load_zero) simp
  then show ?thesis
    using assms(3,4) unfolding demo_mem_def
    by (subst far, simp add: page_aligned_def, blast)+
qed

lemma demo_node:
  assumes "path p"
  shows "node demo_mem demo_root p = (if p = [] then Some demo_root else if p = [0] then Some 0x87ffe000
    else if p = [0, 0] then Some 0x87ffd000 else None)"
proof -
  have dec: "PTE2PA (PA2PTE 0x87ffe000 OR PTE_V) = 0x87ffe000" "(PA2PTE 0x87ffe000 OR PTE_V) AND PTE_V \<noteq> 0"
    "PTE2PA (PA2PTE 0x87ffd000 OR PTE_V) = 0x87ffd000" "(PA2PTE 0x87ffd000 OR PTE_V) AND PTE_V \<noteq> 0"
    by code_simp+
  have one: "node demo_mem demo_root (i # p) = (if i = 0 then node demo_mem 0x87ffe000 p else None)"
    if "i < 512" for i p
    using that demo_zero [of demo_root i] demo_loads(1) dec
    by (simp add: node.simps(2) page_aligned_def slot_def)
  have two: "node demo_mem 0x87ffe000 (i # p) = (if i = 0 then node demo_mem 0x87ffd000 p else None)"
    if "i < 512" for i p
    using that demo_zero [of "0x87ffe000" i] demo_loads(2) dec
    by (simp add: node.simps(2) page_aligned_def slot_def)
  from assms consider "p = []" | i where "p = [i]" "i < 512" | i j where "p = [i, j]" "i < 512" "j < 512"
    unfolding path_def by (cases p; cases "tl p"; force)
  then show ?thesis by cases (auto simp: one two)
qed

lemma demo_inv: "kmem_inv demo_kmem [0x87ffb000, 0x87ffa000]"
  by (simp add: kmem_inv_def demo_kmem_def demo_loads is_page_def page_aligned_def)

lemma demo_tree: "tree_ok demo_kmem demo_root [0x87ffb000, 0x87ffa000]"
  by (auto simp: tree_ok_def demo_kmem_def demo_node is_page_def page_aligned_def split: if_splits)

lemma demo_pte: "pte_of demo_mem demo_root va =
    (if vpath va 2 = [0, 0] \<and> PX 0 va = 0 then PA2PTE 0x87ffc000 OR 0x1f else 0)"
  using demo_node [OF path_vpath, of va] demo_zero [of "0x87ffd000" "PX 0 va"] PX_less [of 0 va]
    demo_loads(3)
  by (auto simp: pte_of_def page_aligned_def slot_def dest: arg_cong [of _ _ length])

lemma demo_data: "data_ok demo_mem demo_root [0x87ffb000, 0x87ffa000]"
proof -
  have "PTE2PA (PA2PTE 0x87ffc000 OR 0x1f) = 0x87ffc000" by code_simp
  then show ?thesis by (auto simp: data_ok_def Let_def demo_pte demo_node split: if_splits)
qed

lemma demo_bits: "PA2PTE 0x87ffc000 OR 0x1f = (0x21fff01f :: u64)" "PTE2PA 0x21fff01f = 0x87ffc000"
  by code_simp+

lemma vpath_2: "vpath va 2 = [PX 2 va, PX 1 va]"
  by (simp add: numeral_2_eq_2)

lemma demo_leaf: "pte_of demo_mem demo_root 0 = 0x21fff01f" "pte_of demo_mem demo_root 0x1000 = 0"
  by (simp_all add: demo_pte demo_bits vpath_2 PX_def)

lemma demo_k_mem: "k_mem demo_kmem = demo_mem"
  by (simp add: demo_kmem_def)

lemma demo_walkaddr:
  "walkaddr demo_kmem demo_root 0 = Done 0x87ffc000" "walkaddr demo_kmem demo_root 0x1000 = Done 0"
  by (simp_all add: walkaddr_pte [OF demo_inv demo_tree] demo_k_mem demo_leaf demo_bits)

lemmas demo_user = demo_k_mem ubyte_def waddr_def Let_def demo_walkaddr demo_leaf demo_bits PGROUNDDOWN_def


theorem copyout_stores_bytes_witness:
  "\<exists>r k' n. copyout demo_kmem demo_root 0xffe [7, 8, 9] = Done (r, k') \<and> r = -1 \<and> n = (2 :: nat) \<and>
     k_mem k' = user_store (k_mem demo_kmem) demo_root 0xffe [7, 8]"
proof -
  let ?w = "\<lambda>va. waddr (k_mem demo_kmem) demo_root va"
  have w: "?w 0xffe \<noteq> None" "?w 0xfff \<noteq> None" "?w 0x1000 = None" by (simp_all add: demo_user)
  obtain r k' n where c: "copyout demo_kmem demo_root 0xffe [7, 8, 9] = Done (r, k')"
    "k_mem k' = user_store (k_mem demo_kmem) demo_root 0xffe (take n [7, 8, 9])"
    "\<forall>i<n. ?w (0xffe + of_nat i) \<noteq> None"
    "r = 0 \<and> n = 3 \<or> r = -1 \<and> n < 3 \<and> ?w (0xffe + of_nat n) = None"
    using copyout_stores_bytes [OF demo_inv demo_tree, of "0xffe" "[7, 8, 9]"] demo_data
    by (auto simp: demo_kmem_def)
  have "\<not> 2 < n" using c(3) w(3) by fastforce
  moreover have "n \<noteq> 0" "n \<noteq> 1" by (rule notI, use c(4) w in simp)+
  ultimately have "n = 2" by linarith
  then show ?thesis using c by auto
qed

theorem copyin_reads_bytes_witness:
  "\<exists>r bs. copyin demo_kmem demo_root 0xffe 3 = Done (r, bs) \<and> r = -1 \<and> length bs = 2"
proof -
  let ?b = "\<lambda>va. ubyte demo_kmem demo_root va"
  have b: "?b 0xffe \<noteq> None" "?b 0xfff \<noteq> None" "?b 0x1000 = None" by (simp_all add: demo_user)
  obtain r bs where c: "copyin demo_kmem demo_root 0xffe 3 = Done (r, bs)"
    "\<forall>i<length bs. ?b (0xffe + of_nat i) = Some (bs ! i)"
    "r = 0 \<and> length bs = 3 \<or> r = -1 \<and> length bs < 3 \<and> ?b (0xffe + of_nat (length bs)) = None"
    using copyin_reads_bytes [of demo_kmem demo_root "0xffe" 3] by auto
  have "\<not> 2 < length bs" using c(2) b(3) by fastforce
  moreover have "length bs \<noteq> 0" "length bs \<noteq> 1" using c(3) b by auto
  ultimately have "length bs = 2" by linarith
  then show ?thesis using c by auto
qed

theorem copyinstr_reads_string_witness:
  "\<exists>r bs. copyinstr demo_kmem demo_root 0x10 8 = Done (r, bs) \<and> r = 0 \<and> bs = [0]"
proof -
  have b: "ubyte demo_kmem demo_root 0x10 = Some 0" by (simp add: demo_user) (simp add: demo_mem_def store_le_other in_range_def del: store_le.simps)
  obtain r bs where c: "copyinstr demo_kmem demo_root 0x10 8 = Done (r, bs)"
    "\<forall>i<length bs. ubyte demo_kmem demo_root (0x10 + of_nat i) = Some (bs ! i)"
    "r = 0 \<and> length bs \<le> 8 \<and> bs \<noteq> [] \<and> last bs = 0 \<and> 0 \<notin> set (butlast bs) \<or>
      r = -1 \<and> 0 \<notin> set bs \<and> (length bs = 8 \<or>
        length bs < 8 \<and> ubyte demo_kmem demo_root (0x10 + of_nat (length bs)) = None)"
    using copyinstr_reads_string [of demo_kmem demo_root "0x10" 8] by auto
  have ne: "bs \<noteq> []" using c(3) b by auto
  then have "hd bs = 0" using c(2) [rule_format, of 0] b by (cases bs) auto
  with ne c(3) have "bs = [0] \<and> r = 0" by (cases bs) (auto split: if_splits)
  then show ?thesis using c(1) by auto
qed

end
