(* ===== verification/PriorityQueue.thy ===== *)
theory PriorityQueue
  imports ProcDefs
begin

text \<open>
  \<^verbatim>\<open>kernel/priority_queue.h\<close>: the array heap the scheduler takes its next process from, ordered
  by used ticks and then by deadline. \<open>pq_push\<close> and \<open>pq_pop\<close> implement a priority queue;
  \<open>pq_check_and_push\<close>, the insertion that the scheduler calls, does not keep the heap order.
\<close>

section \<open>The operations\<close>

record PriorityQueue =
  pq_heap :: "nat list"
  pq_size :: nat
  pq_lock :: spinlock

definition pq_init :: "PriorityQueue \<Rightarrow> PriorityQueue" where
  "pq_init pq = pq\<lparr>pq_lock := initlock ''pq_lock'', pq_size := 0\<rparr>"

text \<open>\<open>swap(&heap[a], &heap[b])\<close>.\<close>

definition swap :: "nat list \<Rightarrow> nat \<Rightarrow> nat \<Rightarrow> nat list" where
  "swap h a b = (let temp = h ! a; h = h[a := h ! b] in h[b := temp])"

text \<open>When the loop of \<open>pq_push\<close> breaks, from the usage of the parent and of the new entry.\<close>

definition push_stops :: "cpu_usage \<Rightarrow> cpu_usage \<Rightarrow> bool" where
  "push_stops up ui =
     (if sum_of_ticks up \<le> sum_of_ticks ui
      then (if sum_of_ticks up = sum_of_ticks ui
            then (if deadline up \<le> deadline ui then True else False)
            else True)
      else False)"

text \<open>The loop of \<open>pq_check_and_push\<close> tests for equality only.\<close>

definition check_stops :: "cpu_usage \<Rightarrow> cpu_usage \<Rightarrow> bool" where
  "check_stops up ui =
     (if sum_of_ticks up = sum_of_ticks ui
      then (if deadline up \<le> deadline ui then True else False)
      else True)"

function bubble_up :: "(cpu_usage \<Rightarrow> cpu_usage \<Rightarrow> bool) \<Rightarrow> (nat \<Rightarrow> cpu_usage outcome) \<Rightarrow>
    nat list \<Rightarrow> nat \<Rightarrow> nat list outcome" where
  "bubble_up stops u h i =
     (if i > 0 then
        (let parent = (i - 1) div 2 in
         obind (u (h ! parent)) (\<lambda>up.
         obind (u (h ! i)) (\<lambda>ui.
           if stops up ui then Done h
           else bubble_up stops u (swap h parent i) parent)))
      else Done h)"
  by pat_completeness auto
termination
  by (relation "measure (\<lambda>(_, _, _, i). i)") auto

definition pq_push :: "proc list \<Rightarrow> PriorityQueue \<Rightarrow> nat \<Rightarrow> PriorityQueue outcome" where
  "pq_push ps pq p =
     (if pq_size pq \<ge> NPROC then Panic ''Priority queue overflow''
      else (let h = (pq_heap pq)[pq_size pq := p]; i = pq_size pq in
            obind (bubble_up push_stops (usage_of ps) h i) (\<lambda>h.
              Done (pq\<lparr>pq_heap := h, pq_size := pq_size pq + 1\<rparr>))))"

text \<open>The two comparisons of \<open>pq_pop\<close>: does the child go before the smallest so far?\<close>

definition goes_before :: "cpu_usage \<Rightarrow> cpu_usage \<Rightarrow> bool" where
  "goes_before uc us =
     (if sum_of_ticks uc \<le> sum_of_ticks us
      then (if sum_of_ticks uc = sum_of_ticks us
            then (if deadline uc < deadline us then True else False)
            else True)
      else False)"

definition smaller_child :: "(nat \<Rightarrow> cpu_usage outcome) \<Rightarrow> nat list \<Rightarrow> nat \<Rightarrow> nat \<Rightarrow> nat \<Rightarrow>
    nat outcome" where
  "smaller_child u h n c smallest =
     (if c < n then
        obind (u (h ! c)) (\<lambda>uc.
        obind (u (h ! smallest)) (\<lambda>us.
          Done (if goes_before uc us then c else smallest)))
      else Done smallest)"

definition pick_smallest :: "(nat \<Rightarrow> cpu_usage outcome) \<Rightarrow> nat list \<Rightarrow> nat \<Rightarrow> nat \<Rightarrow> nat outcome" where
  "pick_smallest u h n i =
     (let left = 2 * i + 1; right = 2 * i + 2 in
      obind (smaller_child u h n left i) (\<lambda>smallest.
        smaller_child u h n right smallest))"

lemma smaller_child_cases:
  "smaller_child u h n c s = Done x \<Longrightarrow> x = s \<or> (x = c \<and> c < n)"
  by (auto simp: smaller_child_def outcome_simps split: if_splits)

lemma pick_smallest_cases:
  "pick_smallest u h n i = Done x \<Longrightarrow> x = i \<or> (i < x \<and> x < n \<and> (x = 2 * i + 1 \<or> x = 2 * i + 2))"
  by (auto simp: pick_smallest_def Let_def outcome_simps dest!: smaller_child_cases)

function bubble_down :: "(nat \<Rightarrow> cpu_usage outcome) \<Rightarrow> nat \<Rightarrow> nat list \<Rightarrow> nat \<Rightarrow>
    nat list outcome" where
  "bubble_down u n h i =
     obind (pick_smallest u h n i) (\<lambda>smallest.
       if smallest = i then Done h
       else bubble_down u n (swap h i smallest) smallest)"
  by pat_completeness auto
termination
  by (relation "measure (\<lambda>(_, n, _, i). n - i)") (auto dest: pick_smallest_cases)

definition pq_pop :: "proc list \<Rightarrow> PriorityQueue \<Rightarrow>
    (nat option \<times> proc list \<times> PriorityQueue) outcome" where
  "pq_pop ps pq =
     (if pq_size pq = 0 then Done (None, ps, pq)
      else
        (let m = pq_heap pq ! 0;
             h = (pq_heap pq)[0 := pq_heap pq ! (pq_size pq - 1)];
             n = pq_size pq - 1
         in obind (bubble_down (usage_of ps) n h 0) (\<lambda>h.
              Done (Some m, upd_proc m (\<lambda>p. p\<lparr>p_state := CHOSEN_TO_RUN\<rparr>) ps,
                    pq\<lparr>pq_heap := h, pq_size := n\<rparr>))))"

definition pq_empty :: "PriorityQueue \<Rightarrow> bool" where
  "pq_empty pq \<longleftrightarrow> pq_size pq = 0"

definition pq_check_and_push :: "proc list \<Rightarrow> PriorityQueue \<Rightarrow> nat \<Rightarrow>
    (nat \<times> PriorityQueue) outcome" where
  "pq_check_and_push ps pq p =
     (if p_state (ps ! p) \<noteq> RUNNABLE then Done (0, pq)
      else if p \<in> set (take (pq_size pq) (pq_heap pq)) then Done (0, pq)
      else if pq_size pq \<ge> NPROC then Panic ''Priority queue overflow''
      else (let h = (pq_heap pq)[pq_size pq := p]; i = pq_size pq in
            obind (bubble_up check_stops (usage_of ps) h i) (\<lambda>h.
              Done (1, pq\<lparr>pq_heap := h, pq_size := pq_size pq + 1\<rparr>))))"

declare bubble_up.simps [simp del] bubble_down.simps [simp del]

section \<open>The order\<close>

text \<open>
  Used ticks first, deadline second, as one number. The nested comparisons of the code are
  the usual order on it.
\<close>

definition rank :: "cpu_usage \<Rightarrow> nat" where
  "rank v = unat (sum_of_ticks v) * 2 ^ 32 + unat (deadline v)"

lemma lex_less:
  assumes "b < (m :: nat)" and "d < m"
  shows "a * m + b < c * m + d \<longleftrightarrow> a < c \<or> (a = c \<and> b < d)"
proof (cases a c rule: linorder_cases)
  case less
  then have "a * m + m \<le> c * m" by (metis Suc_leI add.commute mult_Suc mult_le_mono1)
  with less assms show ?thesis by linarith
next
  case greater
  then have "c * m + m \<le> a * m" by (metis Suc_leI add.commute mult_Suc mult_le_mono1)
  with greater assms show ?thesis by linarith
qed simp

lemma rank_less:
  "rank a < rank b \<longleftrightarrow> sum_of_ticks a < sum_of_ticks b \<or>
     (sum_of_ticks a = sum_of_ticks b \<and> deadline a < deadline b)"
  using lex_less [OF unat_u32_bound [of "deadline a"] unat_u32_bound [of "deadline b"],
      of "unat (sum_of_ticks a)" "unat (sum_of_ticks b)"]
  by (simp only: rank_def word_less_nat_alt word_unat_eq_iff)

lemma goes_before_rank: "goes_before a b \<longleftrightarrow> rank a < rank b"
  by (auto simp: goes_before_def rank_less)

lemma push_stops_rank: "push_stops a b \<longleftrightarrow> rank a \<le> rank b"
  by (auto simp: push_stops_def rank_less linorder_not_less [symmetric])

lemma check_stops_rank:
  "sum_of_ticks a = sum_of_ticks b \<Longrightarrow> check_stops a b \<longleftrightarrow> rank a \<le> rank b"
  by (auto simp: check_stops_def rank_less linorder_not_less [symmetric])

section \<open>Swapping\<close>

lemma length_swap [simp]: "length (swap h a b) = length h"
  by (simp add: swap_def Let_def)

lemma nth_swap:
  "a < length h \<Longrightarrow> b < length h \<Longrightarrow> j < length h \<Longrightarrow>
     swap h a b ! j = (if j = a then h ! b else if j = b then h ! a else h ! j)"
  by (simp add: swap_def Let_def nth_list_update)

lemma mset_take_swap:
  assumes "a < n" and "b < n" and "n \<le> length h"
  shows "mset (take n (swap h a b)) = mset (take n h)"
proof -
  have "take n (swap h a b) = (take n h)[a := take n h ! b, b := take n h ! a]"
    using assms by (simp add: swap_def Let_def take_update_swap)
  also have "mset \<dots> = mset (take n h)"
    using assms by (intro mset_swap) auto
  finally show ?thesis .
qed

section \<open>Heap order\<close>

text \<open>
  \<open>r\<close> ranks the heap's elements. The heap order of the first \<open>n\<close> slots, and the two weakened
  forms that the loops maintain: all pairs but the one at \<open>i\<close> and its parent are in order, or
  all but \<open>i\<close> and its children.
\<close>

definition heap_ok :: "(nat \<Rightarrow> nat) \<Rightarrow> nat list \<Rightarrow> nat \<Rightarrow> bool" where
  "heap_ok r h n \<longleftrightarrow> (\<forall>j. 0 < j \<and> j < n \<longrightarrow> r (h ! ((j - 1) div 2)) \<le> r (h ! j))"

definition up_inv :: "(nat \<Rightarrow> nat) \<Rightarrow> nat list \<Rightarrow> nat \<Rightarrow> nat \<Rightarrow> bool" where
  "up_inv r h n i \<longleftrightarrow>
     (\<forall>j. 0 < j \<and> j < n \<and> j \<noteq> i \<longrightarrow> r (h ! ((j - 1) div 2)) \<le> r (h ! j)) \<and>
     (\<forall>j. 0 < i \<and> 0 < j \<and> j < n \<and> (j - 1) div 2 = i \<longrightarrow> r (h ! ((i - 1) div 2)) \<le> r (h ! j))"

definition down_inv :: "(nat \<Rightarrow> nat) \<Rightarrow> nat list \<Rightarrow> nat \<Rightarrow> nat \<Rightarrow> bool" where
  "down_inv r h n i \<longleftrightarrow>
     (\<forall>j. 0 < j \<and> j < n \<and> (j - 1) div 2 \<noteq> i \<longrightarrow> r (h ! ((j - 1) div 2)) \<le> r (h ! j)) \<and>
     (\<forall>j. 0 < i \<and> 0 < j \<and> j < n \<and> (j - 1) div 2 = i \<longrightarrow> r (h ! ((i - 1) div 2)) \<le> r (h ! j))"

lemma heap_ok_root:
  assumes "heap_ok r h n" and "j < n"
  shows "r (h ! 0) \<le> r (h ! j)"
  using assms(2)
proof (induction j rule: less_induct)
  case (less j)
  show ?case
  proof (cases "j = 0")
    case False
    then have "(j - 1) div 2 < j" by simp
    with less have "r (h ! 0) \<le> r (h ! ((j - 1) div 2))" by simp
    also have "\<dots> \<le> r (h ! j)" using assms(1) False less.prems by (simp add: heap_ok_def)
    finally show ?thesis .
  qed simp
qed

lemma up_inv_snoc: "heap_ok r h n \<Longrightarrow> n < length h \<Longrightarrow> up_inv r (h[n := p]) (Suc n) n"
  by (auto simp: heap_ok_def up_inv_def nth_list_update)

lemma up_inv_root: "up_inv r h n 0 \<Longrightarrow> heap_ok r h n"
  by (simp add: up_inv_def heap_ok_def)

lemma up_inv_stop:
  "up_inv r h n i \<Longrightarrow> r (h ! ((i - 1) div 2)) \<le> r (h ! i) \<Longrightarrow> heap_ok r h n"
  by (auto simp: up_inv_def heap_ok_def)

lemma up_inv_swap:
  assumes inv: "up_inv r h n i" and i: "0 < i" "i < n" and len: "n \<le> length h"
    and gt: "r (h ! i) < r (h ! ((i - 1) div 2))"
  shows "up_inv r (swap h ((i - 1) div 2) i) n ((i - 1) div 2)"
proof -
  define p where "p = (i - 1) div 2"
  let ?h = "swap h p i"
  have p: "p < i" using i by (simp add: p_def)
  have gt': "r (h ! i) < r (h ! p)" using gt by (simp add: p_def)
  have nth: "?h ! j = (if j = p then h ! i else if j = i then h ! p else h ! j)" if "j < n" for j
    using that p i len by (intro nth_swap) auto
  have ord: "r (h ! ((j - 1) div 2)) \<le> r (h ! j)" if "0 < j" "j < n" "j \<noteq> i" for j
    using inv that by (simp add: up_inv_def)
  have child: "r (h ! p) \<le> r (h ! j)" if "0 < j" "j < n" "(j - 1) div 2 = i" for j
    using inv that i by (simp add: up_inv_def p_def)
  have one: "r (?h ! ((j - 1) div 2)) \<le> r (?h ! j)" if j: "0 < j" "j < n" "j \<noteq> p" for j
  proof -
    have pj: "(j - 1) div 2 < n" using j by linarith
    consider "j = i" | "j \<noteq> i" "(j - 1) div 2 = p" | "(j - 1) div 2 = i"
      | "j \<noteq> i" "(j - 1) div 2 \<noteq> p" "(j - 1) div 2 \<noteq> i"
      by blast
    then show ?thesis
    proof cases
      case 1
      then have "(j - 1) div 2 = p" by (simp add: p_def)
      with 1 show ?thesis using gt' p i j pj by (simp add: nth del: One_nat_def)
    next
      case 2
      then have "r (h ! p) \<le> r (h ! j)" using ord [of j] j by simp
      with 2 show ?thesis using gt' j pj by (simp add: nth del: One_nat_def)
    next
      case 3
      then have "j \<noteq> i" using i by presburger
      with 3 show ?thesis using child [of j] j pj p by (simp add: nth del: One_nat_def)
    next
      case 4
      then show ?thesis using ord [of j] j pj by (simp add: nth del: One_nat_def)
    qed
  qed
  have two: "r (?h ! ((p - 1) div 2)) \<le> r (?h ! j)"
    if p0: "0 < p" and j: "0 < j" "j < n" "(j - 1) div 2 = p" for j
  proof -
    have pp: "(p - 1) div 2 < p" using p0 by linarith
    have a: "r (h ! ((p - 1) div 2)) \<le> r (h ! p)" using ord [of p] p0 p i by simp
    have "?h ! ((p - 1) div 2) = h ! ((p - 1) div 2)" using pp p i by (simp add: nth del: One_nat_def)
    moreover have "?h ! j = (if j = i then h ! p else h ! j)" using j by (subst nth) auto
    moreover have "j \<noteq> i \<Longrightarrow> r (h ! p) \<le> r (h ! j)" using ord [of j] j by simp
    ultimately show ?thesis using a by auto
  qed
  show ?thesis unfolding p_def [symmetric] using one two by (simp add: up_inv_def)
qed

lemma down_inv_root: "heap_ok r h n \<Longrightarrow> 0 < m \<Longrightarrow> m < n \<Longrightarrow> down_inv r (h[0 := x]) m 0"
  by (auto simp: heap_ok_def down_inv_def nth_list_update)

lemma child_cases: "0 < j \<Longrightarrow> (j - 1) div 2 = i \<longleftrightarrow> j = 2 * i + 1 \<or> j = 2 * i + 2" for i j :: nat
  by presburger

lemma down_inv_stop:
  assumes "down_inv r h n i"
    and "\<And>c. c < n \<Longrightarrow> c = 2 * i + 1 \<or> c = 2 * i + 2 \<Longrightarrow> r (h ! i) \<le> r (h ! c)"
  shows "heap_ok r h n"
  unfolding heap_ok_def
proof (intro allI impI)
  fix j assume j: "0 < j \<and> j < n"
  show "r (h ! ((j - 1) div 2)) \<le> r (h ! j)"
  proof (cases "(j - 1) div 2 = i")
    case True
    with j child_cases [of j i] assms(2) [of j] show ?thesis by auto
  next
    case False
    with j assms(1) show ?thesis by (simp add: down_inv_def)
  qed
qed

lemma down_inv_swap:
  assumes inv: "down_inv r h n i" and len: "n \<le> length h"
    and c: "c = 2 * i + 1 \<or> c = 2 * i + 2" "c < n"
    and lt: "r (h ! c) < r (h ! i)"
    and least: "\<And>d. d < n \<Longrightarrow> d = 2 * i + 1 \<or> d = 2 * i + 2 \<Longrightarrow> r (h ! c) \<le> r (h ! d)"
  shows "down_inv r (swap h i c) n c"
proof -
  let ?h = "swap h i c"
  have i: "i < c" using c by auto
  have pc: "(c - 1) div 2 = i" using c by presburger
  have nth: "?h ! j = (if j = i then h ! c else if j = c then h ! i else h ! j)" if "j < n" for j
    using that i c len by (intro nth_swap) auto
  have ord: "r (h ! ((j - 1) div 2)) \<le> r (h ! j)" if "0 < j" "j < n" "(j - 1) div 2 \<noteq> i" for j
    using inv that by (simp add: down_inv_def)
  have up: "r (h ! ((i - 1) div 2)) \<le> r (h ! j)" if "0 < i" "0 < j" "j < n" "(j - 1) div 2 = i" for j
    using inv that by (simp add: down_inv_def)
  have one: "r (?h ! ((j - 1) div 2)) \<le> r (?h ! j)" if j: "0 < j" "j < n" "(j - 1) div 2 \<noteq> c" for j
  proof -
    have pj: "(j - 1) div 2 < n" using j by linarith
    consider "j = c" | "j \<noteq> c" "(j - 1) div 2 = i" | "j = i" "(j - 1) div 2 \<noteq> i"
      | "j \<noteq> c" "j \<noteq> i" "(j - 1) div 2 \<noteq> i" by blast
    then show ?thesis
    proof cases
      case 1
      then show ?thesis using pc lt j pj i by (simp add: nth del: One_nat_def)
    next
      case 2
      then have "j = 2 * i + 1 \<or> j = 2 * i + 2" using j(1) child_cases [of j i] by simp
      then have "r (h ! c) \<le> r (h ! j)" using j least by blast
      moreover have "j \<noteq> i" using 2 j by presburger
      ultimately show ?thesis using 2 j pj by (simp add: nth del: One_nat_def)
    next
      case 3
      then have "r (h ! ((i - 1) div 2)) \<le> r (h ! c)" using up [of c] j c pc i by simp
      with 3 show ?thesis using j pj by (simp add: nth del: One_nat_def)
    next
      case 4
      then show ?thesis using ord [of j] j pj by (simp add: nth del: One_nat_def)
    qed
  qed
  have two: "r (?h ! ((c - 1) div 2)) \<le> r (?h ! j)" if j: "0 < j" "j < n" "(j - 1) div 2 = c" for j
  proof -
    have "j \<noteq> c" "j \<noteq> i" using j i by presburger+
    moreover have "r (h ! c) \<le> r (h ! j)" using ord [of j] j i by simp
    moreover have "i < n" using i c by simp
    ultimately show ?thesis using j pc by (simp add: nth del: One_nat_def)
  qed
  show ?thesis using one two by (simp add: down_inv_def)
qed

section \<open>The loops\<close>

text \<open>A process's rank in a given process table, and whether its usage page is there.\<close>

definition has_usage :: "proc list \<Rightarrow> nat \<Rightarrow> bool" where
  "has_usage ps x \<longleftrightarrow> p_usage_time (ps ! x) \<noteq> None"

definition the_usage :: "proc list \<Rightarrow> nat \<Rightarrow> cpu_usage" where
  "the_usage ps x = snd (the (p_usage_time (ps ! x)))"

abbreviation proc_rank :: "proc list \<Rightarrow> nat \<Rightarrow> nat" where
  "proc_rank ps x \<equiv> rank (the_usage ps x)"

lemma usage_of_Done: "has_usage ps x \<Longrightarrow> usage_of ps x = Done (the_usage ps x)"
  by (auto simp: has_usage_def usage_of_def the_usage_def)

lemma nth_mem_take: "j < n \<Longrightarrow> n \<le> length h \<Longrightarrow> h ! j \<in> set (take n h)"
  by (metis length_take min.absorb2 nth_mem nth_take)

lemma has_usage_nth:
  "\<forall>x\<in>set (take n h). has_usage ps x \<Longrightarrow> j < n \<Longrightarrow> n \<le> length h \<Longrightarrow> has_usage ps (h ! j)"
  by (simp add: nth_mem_take)

lemma set_take_swap:
  "a < n \<Longrightarrow> b < n \<Longrightarrow> n \<le> length h \<Longrightarrow> set (take n (swap h a b)) = set (take n h)"
  by (metis mset_take_swap set_mset_mset)

text \<open>Whatever the stopping test, the upward loop returns and only permutes the heap.\<close>

lemma bubble_up_permutes:
  assumes "i < n" and "n \<le> length h" and "\<forall>x\<in>set (take n h). has_usage ps x"
  shows "\<exists>h'. bubble_up stops (usage_of ps) h i = Done h' \<and> length h' = length h \<and>
    mset (take n h') = mset (take n h)"
  using assms
proof (induction stops "usage_of ps" h i rule: bubble_up.induct)
  case (1 stops h i)
  show ?case
  proof (cases "0 < i")
    case True
    let ?p = "(i - 1) div 2"
    have p: "?p < n" using 1(2) by simp
    have u: "usage_of ps (h ! ?p) = Done (the_usage ps (h ! ?p))"
      "usage_of ps (h ! i) = Done (the_usage ps (h ! i))"
      using has_usage_nth [OF 1(4)] p 1(2,3) by (auto intro: usage_of_Done)
    show ?thesis
    proof (cases "stops (the_usage ps (h ! ?p)) (the_usage ps (h ! i))")
      case True
      with u \<open>0 < i\<close> show ?thesis by (simp add: bubble_up.simps [of _ _ h i] Let_def)
    next
      case False
      have "\<exists>h'. bubble_up stops (usage_of ps) (swap h ?p i) ?p = Done h' \<and>
          length h' = length (swap h ?p i) \<and> mset (take n h') = mset (take n (swap h ?p i))"
        using 1(1) [OF \<open>0 < i\<close> refl u False] p 1(2,3,4) by (simp add: set_take_swap)
      moreover have "bubble_up stops (usage_of ps) h i = bubble_up stops (usage_of ps) (swap h ?p i) ?p"
        using u \<open>0 < i\<close> False by (subst bubble_up.simps) (simp add: Let_def)
      ultimately show ?thesis using p 1(2,3) by (simp add: mset_take_swap)
    qed
  next
    case False
    then show ?thesis by (subst bubble_up.simps) simp
  qed
qed

text \<open>With a test that compares ranks it ends in a heap.\<close>

lemma bubble_up_heap:
  assumes "up_inv (proc_rank ps) h n i" and "i < n" and "n \<le> length h"
    and "\<forall>x\<in>set (take n h). has_usage ps x"
    and "\<And>x y. x \<in> set (take n h) \<Longrightarrow> y \<in> set (take n h) \<Longrightarrow>
      stops (the_usage ps x) (the_usage ps y) \<longleftrightarrow> proc_rank ps x \<le> proc_rank ps y"
    and "bubble_up stops (usage_of ps) h i = Done h'"
  shows "heap_ok (proc_rank ps) h' n"
  using assms
proof (induction stops "usage_of ps" h i rule: bubble_up.induct)
  case (1 stops h i)
  show ?case
  proof (cases "0 < i")
    case True
    let ?p = "(i - 1) div 2"
    have p: "?p < n" using 1(3) by simp
    have u: "usage_of ps (h ! ?p) = Done (the_usage ps (h ! ?p))"
      "usage_of ps (h ! i) = Done (the_usage ps (h ! i))"
      using has_usage_nth [OF 1(5)] p 1(3,4) by (auto intro: usage_of_Done)
    have mem: "h ! ?p \<in> set (take n h)" "h ! i \<in> set (take n h)"
      using p 1(3,4) by (auto intro: nth_mem_take)
    show ?thesis
    proof (cases "stops (the_usage ps (h ! ?p)) (the_usage ps (h ! i))")
      case True
      then have "h' = h" using 1(7) u \<open>0 < i\<close> by (simp add: bubble_up.simps [of _ _ h i] Let_def)
      then show ?thesis using 1(2,6) mem True by (auto intro: up_inv_stop)
    next
      case False
      have "up_inv (proc_rank ps) (swap h ?p i) n ?p"
        using 1(2) \<open>0 < i\<close> 1(3,4) by (rule up_inv_swap) (use 1(6) mem False in auto)
      moreover have "bubble_up stops (usage_of ps) (swap h ?p i) ?p = Done h'"
        using 1(7) u \<open>0 < i\<close> False by (subst (asm) bubble_up.simps) (simp add: Let_def)
      ultimately show ?thesis
        using 1(1) [OF \<open>0 < i\<close> refl u False] p 1(3,4,5,6) by (simp add: set_take_swap)
    qed
  next
    case False
    then show ?thesis using 1(2,7) by (subst (asm) bubble_up.simps) (simp add: up_inv_root)
  qed
qed

lemma pick_smallest_least:
  assumes "i < n" and "n \<le> length h" and "\<forall>x\<in>set (take n h). has_usage ps x"
  obtains s where "pick_smallest (usage_of ps) h n i = Done s" and "s < n"
    and "s = i \<or> (s = 2 * i + 1 \<or> s = 2 * i + 2) \<and> proc_rank ps (h ! s) < proc_rank ps (h ! i)"
    and "\<And>c. c < n \<Longrightarrow> c = i \<or> c = 2 * i + 1 \<or> c = 2 * i + 2 \<Longrightarrow>
      proc_rank ps (h ! s) \<le> proc_rank ps (h ! c)"
proof -
  have u: "usage_of ps (h ! j) = Done (the_usage ps (h ! j))" if "j < n" for j
    using has_usage_nth [OF assms(3) that assms(2)] by (rule usage_of_Done)
  have sc: "smaller_child (usage_of ps) h n c s =
      Done (if c < n \<and> proc_rank ps (h ! c) < proc_rank ps (h ! s) then c else s)" if "s < n" for c s
    using that u by (simp add: smaller_child_def goes_before_rank)
  let ?s = "if 2 * i + 1 < n \<and> proc_rank ps (h ! (2 * i + 1)) < proc_rank ps (h ! i)
    then 2 * i + 1 else i"
  let ?t = "if 2 * i + 2 < n \<and> proc_rank ps (h ! (2 * i + 2)) < proc_rank ps (h ! ?s)
    then 2 * i + 2 else ?s"
  have s: "?s < n" using assms(1) by auto
  have "pick_smallest (usage_of ps) h n i = Done ?t"
    unfolding pick_smallest_def Let_def sc [OF assms(1)] obind.simps sc [OF s] ..
  then show thesis by (rule that) (use assms(1) in \<open>auto split: if_splits\<close>)
qed

lemma bubble_down_permutes:
  assumes "i < n" and "n \<le> length h" and "\<forall>x\<in>set (take n h). has_usage ps x"
  shows "\<exists>h'. bubble_down (usage_of ps) n h i = Done h' \<and> length h' = length h \<and>
    mset (take n h') = mset (take n h)"
  using assms
proof (induction "n - i" arbitrary: h i rule: less_induct)
  case less
  obtain s where s: "pick_smallest (usage_of ps) h n i = Done s" "s < n"
    using pick_smallest_least [OF less.prems] by blast
  show ?case
  proof (cases "s = i")
    case True
    with s show ?thesis by (simp add: bubble_down.simps [of _ _ h i])
  next
    case False
    then have "n - s < n - i" using pick_smallest_cases [OF s(1)] s(2) by auto
    then show ?thesis
      using less.hyps [of s "swap h i s"] less.prems s False
      by (simp add: bubble_down.simps [of _ _ h i] set_take_swap mset_take_swap)
  qed
qed

lemma bubble_down_heap:
  assumes "down_inv (proc_rank ps) h n i" and "i < n" and "n \<le> length h"
    and "\<forall>x\<in>set (take n h). has_usage ps x"
  shows "\<exists>h'. bubble_down (usage_of ps) n h i = Done h' \<and> length h' = length h \<and>
    mset (take n h') = mset (take n h) \<and> heap_ok (proc_rank ps) h' n"
  using assms
proof (induction "n - i" arbitrary: h i rule: less_induct)
  case less
  obtain s where s: "pick_smallest (usage_of ps) h n i = Done s" "s < n"
    and gt: "s = i \<or> (s = 2 * i + 1 \<or> s = 2 * i + 2) \<and> proc_rank ps (h ! s) < proc_rank ps (h ! i)"
    and least: "\<And>c. c < n \<Longrightarrow> c = i \<or> c = 2 * i + 1 \<or> c = 2 * i + 2 \<Longrightarrow>
      proc_rank ps (h ! s) \<le> proc_rank ps (h ! c)"
    using pick_smallest_least [OF less.prems(2-4)] by blast
  show ?case
  proof (cases "s = i")
    case True
    then have "heap_ok (proc_rank ps) h n" using less.prems(1) least by (auto intro: down_inv_stop)
    with True s show ?thesis by (simp add: bubble_down.simps [of _ _ h i])
  next
    case False
    then have c: "s = 2 * i + 1 \<or> s = 2 * i + 2" "proc_rank ps (h ! s) < proc_rank ps (h ! i)"
      using gt by auto
    have step: "bubble_down (usage_of ps) n h i = bubble_down (usage_of ps) n (swap h i s) s"
      using s False by (simp add: bubble_down.simps [of _ _ h i])
    have "down_inv (proc_rank ps) (swap h i s) n s"
      using less.prems(1,3) c(1) s(2) c(2) least by (intro down_inv_swap) auto
    moreover have "n - s < n - i" using c s by auto
    ultimately show ?thesis
      using less.hyps [of s "swap h i s"] less.prems s(2) step
      by (simp add: set_take_swap mset_take_swap)
  qed
qed

section \<open>The operations keep the invariant\<close>

definition pq_elems :: "PriorityQueue \<Rightarrow> nat multiset" where
  "pq_elems pq = mset (take (pq_size pq) (pq_heap pq))"

definition pq_wf :: "proc list \<Rightarrow> PriorityQueue \<Rightarrow> bool" where
  "pq_wf ps pq \<longleftrightarrow> length (pq_heap pq) = NPROC \<and> pq_size pq \<le> NPROC \<and>
     (\<forall>x\<in>set (take (pq_size pq) (pq_heap pq)). x < length ps \<and> has_usage ps x)"

definition pq_inv :: "proc list \<Rightarrow> PriorityQueue \<Rightarrow> bool" where
  "pq_inv ps pq \<longleftrightarrow> pq_wf ps pq \<and> heap_ok (proc_rank ps) (pq_heap pq) (pq_size pq)"

lemma size_pq_elems: "pq_wf ps pq \<Longrightarrow> size (pq_elems pq) = pq_size pq"
  by (simp add: pq_elems_def pq_wf_def)

lemma take_Suc_update: "n < length h \<Longrightarrow> take (Suc n) (h[n := p]) = take n h @ [p]"
  by (simp add: take_Suc_conv_app_nth)

text \<open>The upward loop after writing the new element in the first free slot.\<close>

lemma insert_slot:
  assumes wf: "pq_wf ps pq" and room: "pq_size pq < NPROC"
    and p: "p < length ps" "has_usage ps p"
  obtains h where
    "bubble_up stops (usage_of ps) ((pq_heap pq)[pq_size pq := p]) (pq_size pq) = Done h"
    and "length h = NPROC"
    and "mset (take (Suc (pq_size pq)) h) = add_mset p (pq_elems pq)"
    and "pq_wf ps (pq\<lparr>pq_heap := h, pq_size := pq_size pq + 1\<rparr>)"
proof -
  let ?n = "Suc (pq_size pq)" and ?h = "(pq_heap pq)[pq_size pq := p]"
  have len: "length (pq_heap pq) = NPROC" using wf by (simp add: pq_wf_def)
  have tk: "take ?n ?h = take (pq_size pq) (pq_heap pq) @ [p]"
    using len room by (intro take_Suc_update) simp
  have all: "\<forall>x\<in>set (take ?n ?h). x < length ps \<and> has_usage ps x"
    using wf p by (auto simp: tk pq_wf_def)
  obtain h where h: "bubble_up stops (usage_of ps) ?h (pq_size pq) = Done h"
    "length h = length ?h" "mset (take ?n h) = mset (take ?n ?h)"
    using bubble_up_permutes [of "pq_size pq" ?n ?h ps stops] all room len by auto
  have "set (take ?n h) = set (take ?n ?h)" using h(3) by (rule mset_eq_setD)
  then have "pq_wf ps (pq\<lparr>pq_heap := h, pq_size := pq_size pq + 1\<rparr>)"
    using all h(2) len room by (simp add: pq_wf_def del: take_update_cancel)
  then show thesis using h len by (intro that) (simp_all add: tk pq_elems_def)
qed

lemma pq_push_done:
  assumes inv: "pq_inv ps pq" and room: "pq_size pq < NPROC"
    and p: "p < length ps" "has_usage ps p"
  shows "\<exists>pq'. pq_push ps pq p = Done pq' \<and> pq_inv ps pq' \<and>
    pq_elems pq' = add_mset p (pq_elems pq)"
proof -
  let ?n = "Suc (pq_size pq)" and ?h = "(pq_heap pq)[pq_size pq := p]"
  have wf: "pq_wf ps pq" and ok: "heap_ok (proc_rank ps) (pq_heap pq) (pq_size pq)"
    using inv by (simp_all add: pq_inv_def)
  have len: "length (pq_heap pq) = NPROC" using wf by (simp add: pq_wf_def)
  have tk: "take ?n ?h = take (pq_size pq) (pq_heap pq) @ [p]"
    using len room by (intro take_Suc_update) simp
  from wf room p obtain h where h: "bubble_up push_stops (usage_of ps) ?h (pq_size pq) = Done h"
    "length h = NPROC" "mset (take ?n h) = add_mset p (pq_elems pq)"
    "pq_wf ps (pq\<lparr>pq_heap := h, pq_size := pq_size pq + 1\<rparr>)"
    by (rule insert_slot)
  have "up_inv (proc_rank ps) ?h ?n (pq_size pq)" using ok len room by (intro up_inv_snoc) auto
  then have "heap_ok (proc_rank ps) h ?n"
    by (rule bubble_up_heap [OF _ _ _ _ _ h(1)])
      (use wf p len room in \<open>auto simp: tk pq_wf_def push_stops_rank\<close>)
  with h room show ?thesis by (simp add: pq_push_def Let_def pq_inv_def pq_elems_def)
qed

lemma usage_time_upd_state [simp]:
  "p_usage_time (upd_proc m (\<lambda>p. p\<lparr>p_state := st\<rparr>) ps ! x) = p_usage_time (ps ! x)"
  by (rule upd_proc_proj) simp

lemma usage_upd_state [simp]:
  "usage_of (upd_proc m (\<lambda>p. p\<lparr>p_state := st\<rparr>) ps) x = usage_of ps x"
  "the_usage (upd_proc m (\<lambda>p. p\<lparr>p_state := st\<rparr>) ps) x = the_usage ps x"
  "has_usage (upd_proc m (\<lambda>p. p\<lparr>p_state := st\<rparr>) ps) x = has_usage ps x"
  by (simp_all add: usage_of_def the_usage_def has_usage_def)

lemma pq_inv_upd_state [simp]:
  "pq_wf (upd_proc m (\<lambda>p. p\<lparr>p_state := st\<rparr>) ps) pq = pq_wf ps pq"
  "pq_inv (upd_proc m (\<lambda>p. p\<lparr>p_state := st\<rparr>) ps) pq = pq_inv ps pq"
  by (simp_all add: pq_wf_def pq_inv_def)

text \<open>The array after the last element has moved to the root: the root's element is gone.\<close>

lemma mset_root_removed:
  assumes "0 < n" and "n \<le> length h"
  shows "mset (take (n - 1) (h[0 := h ! (n - 1)])) = mset (take n h) - {#h ! 0#}"
proof -
  obtain x xs where h: "h = x # xs" using assms by (cases h) auto
  obtain m where n: "n = Suc m" using assms by (cases n) auto
  show ?thesis
  proof (cases m)
    case 0
    then show ?thesis by (simp add: n h)
  next
    case (Suc k)
    then have "take m xs = take k xs @ [xs ! k]"
      using assms by (simp add: h n take_Suc_conv_app_nth)
    then show ?thesis using Suc by (simp add: n h)
  qed
qed

text \<open>
  On any well-formed array, heap or not, \<open>pq_pop\<close> takes out the element at the root.
\<close>

lemma pq_pop_wf:
  assumes wf: "pq_wf ps pq" and ne: "0 < pq_size pq"
  obtains h where
    "bubble_down (usage_of ps) (pq_size pq - 1)
       ((pq_heap pq)[0 := pq_heap pq ! (pq_size pq - 1)]) 0 = Done h"
    and "pq_pop ps pq = Done (Some (pq_heap pq ! 0),
      upd_proc (pq_heap pq ! 0) (\<lambda>p. p\<lparr>p_state := CHOSEN_TO_RUN\<rparr>) ps,
      pq\<lparr>pq_heap := h, pq_size := pq_size pq - 1\<rparr>)"
    and "pq_wf ps (pq\<lparr>pq_heap := h, pq_size := pq_size pq - 1\<rparr>)"
    and "pq_elems (pq\<lparr>pq_heap := h, pq_size := pq_size pq - 1\<rparr>) = pq_elems pq - {#pq_heap pq ! 0#}"
proof -
  let ?n = "pq_size pq - 1" and ?h = "(pq_heap pq)[0 := pq_heap pq ! (pq_size pq - 1)]"
  have len: "length (pq_heap pq) = NPROC" "pq_size pq \<le> NPROC" using wf by (simp_all add: pq_wf_def)
  have ms: "mset (take ?n ?h) = pq_elems pq - {#pq_heap pq ! 0#}"
    unfolding pq_elems_def using ne len by (intro mset_root_removed) auto
  have "set (take ?n ?h) \<subseteq> set (take (pq_size pq) (pq_heap pq))"
    using set_mset_mono [OF diff_subset_eq_self [of "pq_elems pq" "{#pq_heap pq ! 0#}"]]
    unfolding ms [symmetric] by (simp add: pq_elems_def)
  then have all: "\<forall>x\<in>set (take ?n ?h). x < length ps \<and> has_usage ps x"
    using wf unfolding pq_wf_def by blast
  have "\<exists>h'. bubble_down (usage_of ps) ?n ?h 0 = Done h' \<and> length h' = length ?h \<and>
      mset (take ?n h') = mset (take ?n ?h)"
  proof (cases "0 < ?n")
    case True
    then show ?thesis using len all by (intro bubble_down_permutes) auto
  next
    case False
    then show ?thesis
      by (subst bubble_down.simps) (simp add: pick_smallest_def smaller_child_def)
  qed
  then obtain h' where h': "bubble_down (usage_of ps) ?n ?h 0 = Done h'" "length h' = length ?h"
    "mset (take ?n h') = mset (take ?n ?h)"
    by blast
  have "set (take ?n h') = set (take ?n ?h)" using h'(3) by (rule mset_eq_setD)
  then have "pq_wf ps (pq\<lparr>pq_heap := h', pq_size := ?n\<rparr>)"
    using h' all len by (simp add: pq_wf_def)
  moreover have "pq_elems (pq\<lparr>pq_heap := h', pq_size := ?n\<rparr>) = pq_elems pq - {#pq_heap pq ! 0#}"
    using h'(3) ms by (simp add: pq_elems_def)
  ultimately show thesis using h'(1) ne by (intro that) (simp_all add: pq_pop_def Let_def)
qed

lemma pq_pop_root:
  assumes "pq_wf ps pq" and "0 < pq_size pq"
  shows "\<exists>pq'. pq_pop ps pq = Done (Some (pq_heap pq ! 0),
      upd_proc (pq_heap pq ! 0) (\<lambda>p. p\<lparr>p_state := CHOSEN_TO_RUN\<rparr>) ps, pq') \<and>
    pq_wf ps pq' \<and> pq_elems pq' = pq_elems pq - {#pq_heap pq ! 0#}"
  by (rule pq_pop_wf [OF assms]) blast

lemma pq_pop_empty: "pq_size pq = 0 \<Longrightarrow> pq_pop ps pq = Done (None, ps, pq)"
  by (simp add: pq_pop_def)

text \<open>On a heap the array stays a heap.\<close>

lemma pq_pop_done:
  assumes inv: "pq_inv ps pq" and ne: "0 < pq_size pq"
  shows "\<exists>ps' pq'. pq_pop ps pq = Done (Some (pq_heap pq ! 0), ps', pq') \<and>
    ps' = upd_proc (pq_heap pq ! 0) (\<lambda>p. p\<lparr>p_state := CHOSEN_TO_RUN\<rparr>) ps \<and> pq_inv ps' pq' \<and>
    pq_elems pq' = pq_elems pq - {#pq_heap pq ! 0#}"
proof -
  let ?n = "pq_size pq - 1" and ?h = "(pq_heap pq)[0 := pq_heap pq ! (pq_size pq - 1)]"
  have wf: "pq_wf ps pq" and ok: "heap_ok (proc_rank ps) (pq_heap pq) (pq_size pq)"
    using inv by (simp_all add: pq_inv_def)
  from wf ne obtain h where h: "bubble_down (usage_of ps) ?n ?h 0 = Done h"
    and pop: "pq_pop ps pq = Done (Some (pq_heap pq ! 0),
      upd_proc (pq_heap pq ! 0) (\<lambda>p. p\<lparr>p_state := CHOSEN_TO_RUN\<rparr>) ps,
      pq\<lparr>pq_heap := h, pq_size := ?n\<rparr>)"
    and res: "pq_wf ps (pq\<lparr>pq_heap := h, pq_size := ?n\<rparr>)"
      "pq_elems (pq\<lparr>pq_heap := h, pq_size := ?n\<rparr>) = pq_elems pq - {#pq_heap pq ! 0#}"
    by (rule pq_pop_wf)
  have "heap_ok (proc_rank ps) h ?n"
  proof (cases "0 < ?n")
    case True
    have len: "length (pq_heap pq) = NPROC" "pq_size pq \<le> NPROC"
      using wf by (simp_all add: pq_wf_def)
    have d: "down_inv (proc_rank ps) ?h ?n 0" using ok True by (intro down_inv_root) auto
    have "set_mset (mset (take ?n ?h)) \<subseteq> set_mset (pq_elems pq)"
      unfolding pq_elems_def using ne len by (subst mset_root_removed) (auto dest: in_diffD)
    then have "\<forall>x\<in>set (take ?n ?h). has_usage ps x" using wf by (auto simp: pq_wf_def pq_elems_def)
    with d True len h show ?thesis using bubble_down_heap [of ps ?h ?n 0] by auto
  next
    case False
    then show ?thesis by (simp add: heap_ok_def)
  qed
  then show ?thesis using pop res by (simp add: pq_inv_def)
qed

lemma check_and_push_skip:
  "p_state (ps ! p) \<noteq> RUNNABLE \<or> p \<in># pq_elems pq \<Longrightarrow> pq_check_and_push ps pq p = Done (0, pq)"
  by (auto simp: pq_check_and_push_def pq_elems_def)

text \<open>
  The heap holds no process twice and indices of a table of \<open>NPROC\<close> entries, so it has room for
  one that it does not hold.
\<close>

lemma room_for_new:
  assumes wf: "pq_wf ps pq" and "distinct (take (pq_size pq) (pq_heap pq))"
    and "length ps = NPROC" and "p < NPROC" and "p \<notin># pq_elems pq"
  shows "pq_size pq < NPROC"
proof -
  let ?xs = "take (pq_size pq) (pq_heap pq)"
  have "set ?xs \<subseteq> {..<NPROC} - {p}"
    using assms by (auto simp: pq_wf_def pq_elems_def)
  then have "card (set ?xs) \<le> card ({..<NPROC} - {p})" by (intro card_mono) auto
  then have "length ?xs \<le> 63" using assms(2,4) by (simp add: distinct_card)
  then show ?thesis using wf by (simp add: pq_wf_def)
qed

lemma check_and_push_add:
  assumes "pq_wf ps pq" and "pq_size pq < NPROC" and "p < length ps" and "has_usage ps p"
    and "p_state (ps ! p) = RUNNABLE" and "p \<notin># pq_elems pq"
  obtains h where
    "bubble_up check_stops (usage_of ps) ((pq_heap pq)[pq_size pq := p]) (pq_size pq) = Done h"
    and "pq_check_and_push ps pq p = Done (1, pq\<lparr>pq_heap := h, pq_size := pq_size pq + 1\<rparr>)"
    and "pq_wf ps (pq\<lparr>pq_heap := h, pq_size := pq_size pq + 1\<rparr>)"
    and "pq_elems (pq\<lparr>pq_heap := h, pq_size := pq_size pq + 1\<rparr>) = add_mset p (pq_elems pq)"
proof -
  from assms(1-4) obtain h where h:
    "bubble_up check_stops (usage_of ps) ((pq_heap pq)[pq_size pq := p]) (pq_size pq) = Done h"
    "length h = NPROC" "mset (take (Suc (pq_size pq)) h) = add_mset p (pq_elems pq)"
    "pq_wf ps (pq\<lparr>pq_heap := h, pq_size := pq_size pq + 1\<rparr>)"
    by (rule insert_slot)
  show thesis
    by (rule that [OF h(1)])
      (use h assms in \<open>auto simp: pq_check_and_push_def Let_def pq_elems_def\<close>)
qed

lemma check_and_push_result:
  assumes "pq_wf ps pq" and "distinct (take (pq_size pq) (pq_heap pq))" and "length ps = NPROC"
    and "p < NPROC" and "p_state (ps ! p) = RUNNABLE \<longrightarrow> has_usage ps p"
  shows "\<exists>r pq'. pq_check_and_push ps pq p = Done (r, pq') \<and> pq_wf ps pq' \<and>
    distinct (take (pq_size pq') (pq_heap pq')) \<and>
    (r = 1 \<longleftrightarrow> p_state (ps ! p) = RUNNABLE \<and> p \<notin># pq_elems pq) \<and>
    pq_elems pq' = pq_elems pq + (if r = 1 then {#p#} else {#})"
proof (cases "p_state (ps ! p) = RUNNABLE \<and> p \<notin># pq_elems pq")
  case True
  then have "pq_size pq < NPROC" using room_for_new assms by blast
  with True assms obtain h where h:
    "pq_check_and_push ps pq p = Done (1, pq\<lparr>pq_heap := h, pq_size := pq_size pq + 1\<rparr>)"
    "pq_wf ps (pq\<lparr>pq_heap := h, pq_size := pq_size pq + 1\<rparr>)"
    "pq_elems (pq\<lparr>pq_heap := h, pq_size := pq_size pq + 1\<rparr>) = add_mset p (pq_elems pq)"
    using check_and_push_add [of ps pq p] by metis
  have "mset (take (pq_size pq + 1) h) = mset (p # take (pq_size pq) (pq_heap pq))"
    using h(3) by (simp add: pq_elems_def)
  then have "distinct (take (pq_size pq + 1) h)"
    using True assms(2) by (metis distinct.simps(2) mset_eq_imp_distinct_iff pq_elems_def set_mset_mset)
  with True h show ?thesis by simp
next
  case False
  then show ?thesis using assms(1,2) check_and_push_skip [of ps p pq] by auto
qed

text \<open>
  While all processes have used the same number of ticks, the equality test of
  \<open>pq_check_and_push\<close> agrees with the order and the heap stays a heap.
\<close>

lemma check_and_push_same_ticks:
  assumes inv: "pq_inv ps pq" and room: "pq_size pq < NPROC" and p: "p < length ps" "has_usage ps p"
    and eq: "\<And>x. x \<in># add_mset p (pq_elems pq) \<Longrightarrow> sum_of_ticks (the_usage ps x) = t"
    and h: "bubble_up check_stops (usage_of ps) ((pq_heap pq)[pq_size pq := p]) (pq_size pq) = Done h"
  shows "heap_ok (proc_rank ps) h (pq_size pq + 1)"
proof -
  let ?h = "(pq_heap pq)[pq_size pq := p]"
  have wf: "pq_wf ps pq" and len: "length (pq_heap pq) = NPROC"
    and ok: "heap_ok (proc_rank ps) (pq_heap pq) (pq_size pq)"
    using inv by (simp_all add: pq_inv_def pq_wf_def)
  have tk: "take (Suc (pq_size pq)) ?h = take (pq_size pq) (pq_heap pq) @ [p]"
    using len room by (intro take_Suc_update) simp
  have same: "sum_of_ticks (the_usage ps x) = t" if "x \<in> set (take (Suc (pq_size pq)) ?h)" for x
    using eq [of x] that by (auto simp: tk pq_elems_def)
  have "up_inv (proc_rank ps) ?h (Suc (pq_size pq)) (pq_size pq)"
    using ok len room by (intro up_inv_snoc) auto
  then have "heap_ok (proc_rank ps) h (Suc (pq_size pq))"
    by (rule bubble_up_heap [OF _ _ _ _ _ h])
      (use wf p len room in \<open>auto simp: tk pq_wf_def check_stops_rank same\<close>)
  then show ?thesis by simp
qed

section \<open>The interface of a priority queue\<close>

text \<open>Popping \<open>n\<close> times, over any implementation.\<close>

fun drain :: "('s \<Rightarrow> ('a option \<times> 's) outcome) \<Rightarrow> nat \<Rightarrow> 's \<Rightarrow> ('a list \<times> 's) outcome" where
  "drain popmin 0 s = Done ([], s)"
| "drain popmin (Suc n) s =
     obind (popmin s) (\<lambda>(m, s).
       case m of None \<Rightarrow> Done ([], s)
       | Some x \<Rightarrow> obind (drain popmin n s) (\<lambda>(xs, s). Done (x # xs, s)))"

fun push_all :: "('s \<Rightarrow> 'a \<Rightarrow> 's outcome) \<Rightarrow> 'a list \<Rightarrow> 's \<Rightarrow> 's outcome" where
  "push_all push [] s = Done s"
| "push_all push (x # xs) s = obind (push s x) (push_all push xs)"

locale min_queue =
  fixes push :: "'s \<Rightarrow> 'a \<Rightarrow> 's outcome"
    and popmin :: "'s \<Rightarrow> ('a option \<times> 's) outcome"
    and elems :: "'s \<Rightarrow> 'a multiset"
    and prio :: "'s \<Rightarrow> 'a \<Rightarrow> nat"
    and ok :: "'s \<Rightarrow> 'a \<Rightarrow> bool"
    and cap :: nat
    and inv :: "'s \<Rightarrow> bool"
  assumes push_law: "inv s \<Longrightarrow> ok s x \<Longrightarrow> size (elems s) < cap \<Longrightarrow>
      \<exists>s'. push s x = Done s' \<and> inv s' \<and> elems s' = add_mset x (elems s) \<and>
        prio s' = prio s \<and> ok s' = ok s"
    and pop_empty_law: "inv s \<Longrightarrow> elems s = {#} \<Longrightarrow> popmin s = Done (None, s)"
    and pop_law: "inv s \<Longrightarrow> elems s \<noteq> {#} \<Longrightarrow>
      \<exists>m s'. popmin s = Done (Some m, s') \<and> inv s' \<and> m \<in># elems s \<and>
        (\<forall>x\<in>#elems s. prio s m \<le> prio s x) \<and> elems s' = elems s - {#m#} \<and>
        prio s' = prio s \<and> ok s' = ok s"
begin

lemma push_all_elems:
  "inv s \<Longrightarrow> \<forall>x\<in>set xs. ok s x \<Longrightarrow> size (elems s) + length xs \<le> cap \<Longrightarrow>
     \<exists>s'. push_all push xs s = Done s' \<and> inv s' \<and> elems s' = elems s + mset xs \<and> prio s' = prio s"
proof (induction xs arbitrary: s)
  case Nil
  then show ?case by simp
next
  case (Cons x xs)
  then obtain s1 where s1: "push s x = Done s1" "inv s1" "elems s1 = add_mset x (elems s)"
    "prio s1 = prio s" "ok s1 = ok s"
    using push_law [of s x] by auto
  with Cons.prems Cons.IH [of s1] show ?case by auto
qed

lemma drain_sorted:
  "inv s \<Longrightarrow> size (elems s) \<le> n \<Longrightarrow>
     \<exists>xs s'. drain popmin n s = Done (xs, s') \<and> mset xs = elems s \<and>
       sorted (map (prio s) xs) \<and> inv s' \<and> elems s' = {#}"
proof (induction n arbitrary: s)
  case 0
  then show ?case by simp
next
  case (Suc n)
  show ?case
  proof (cases "elems s = {#}")
    case True
    then show ?thesis using Suc.prems by (simp add: pop_empty_law)
  next
    case False
    then obtain m s1 where s1: "popmin s = Done (Some m, s1)" "inv s1" "m \<in># elems s"
      "\<forall>x\<in>#elems s. prio s m \<le> prio s x" "elems s1 = elems s - {#m#}" "prio s1 = prio s"
      using pop_law [of s] Suc.prems by blast
    have "size (elems s1) \<le> n" using s1 Suc.prems by (simp add: size_Diff_singleton)
    then obtain xs s' where xs: "drain popmin n s1 = Done (xs, s')" "mset xs = elems s1"
      "sorted (map (prio s) xs)" "inv s'" "elems s' = {#}"
      using Suc.IH [of s1] s1 by auto
    have "\<forall>x\<in>set xs. prio s m \<le> prio s x"
      using s1(4,5) xs(2) by (metis in_diffD set_mset_mset)
    with s1 xs show ?thesis by simp
  qed
qed

lemma push_drain_sorted:
  assumes "inv s" and "elems s = {#}" and "\<forall>x\<in>set xs. ok s x" and "length xs \<le> cap"
  shows "\<exists>ys s'. obind (push_all push xs s) (drain popmin (length xs)) = Done (ys, s') \<and>
    mset ys = mset xs \<and> sorted (map (prio s) ys) \<and> elems s' = {#}"
proof -
  obtain s1 where s1: "push_all push xs s = Done s1" "inv s1" "elems s1 = mset xs" "prio s1 = prio s"
    using push_all_elems [OF assms(1,3)] assms(2,4) by auto
  with drain_sorted [of s1 "length xs"] show ?thesis by auto
qed

end

text \<open>The process table and the heap together are the state of the priority queue.\<close>

definition sys_push :: "proc list \<times> PriorityQueue \<Rightarrow> nat \<Rightarrow> (proc list \<times> PriorityQueue) outcome" where
  "sys_push s p = obind (pq_push (fst s) (snd s) p) (\<lambda>pq. Done (fst s, pq))"

definition sys_pop :: "proc list \<times> PriorityQueue \<Rightarrow>
    (nat option \<times> proc list \<times> PriorityQueue) outcome" where
  "sys_pop s = pq_pop (fst s) (snd s)"

definition sys_ok :: "proc list \<times> PriorityQueue \<Rightarrow> nat \<Rightarrow> bool" where
  "sys_ok s p \<longleftrightarrow> p < length (fst s) \<and> has_usage (fst s) p"

interpretation pheap: min_queue sys_push sys_pop "\<lambda>s. pq_elems (snd s)" "\<lambda>s. proc_rank (fst s)"
  sys_ok NPROC "\<lambda>s. pq_inv (fst s) (snd s)"
proof (unfold_locales, goal_cases)
  case (1 s x)
  moreover have "pq_wf (fst s) (snd s)" using 1 by (simp add: pq_inv_def)
  ultimately show ?case
    using pq_push_done [of "fst s" "snd s" x]
    by (auto simp: sys_push_def sys_ok_def size_pq_elems fun_eq_iff)
next
  case (2 s)
  then have "pq_size (snd s) = 0" using size_pq_elems [of "fst s" "snd s"] by (simp add: pq_inv_def)
  then show ?case by (cases s) (simp add: sys_pop_def pq_pop_empty)
next
  case (3 s)
  have wf: "pq_wf (fst s) (snd s)" and ok: "heap_ok (proc_rank (fst s)) (pq_heap (snd s)) (pq_size (snd s))"
    using 3 by (simp_all add: pq_inv_def)
  have ne: "0 < pq_size (snd s)" using 3 by (auto simp: pq_elems_def)
  have "pq_heap (snd s) ! 0 \<in># pq_elems (snd s)"
    using ne wf by (auto simp: pq_elems_def pq_wf_def intro!: nth_mem_take)
  moreover have "\<forall>x\<in>#pq_elems (snd s). proc_rank (fst s) (pq_heap (snd s) ! 0) \<le> proc_rank (fst s) x"
    using heap_ok_root [OF ok] wf by (auto simp: pq_elems_def pq_wf_def in_set_conv_nth)
  ultimately show ?case
    using pq_pop_done [OF 3(1) ne] by (fastforce simp: sys_pop_def sys_ok_def fun_eq_iff)
qed

section \<open>Properties\<close>

text \<open>
  Property C5: \<open>pq_push\<close> and \<open>pq_pop\<close> of \<^verbatim>\<open>priority_queue.h\<close> form a priority queue. Pushing any
  list of at most \<^verbatim>\<open>NPROC\<close> processes that have usage pages onto an empty heap and popping as
  often gives the same processes, in the order of used ticks and then deadline, without
  panic or null dereference.
\<close>

theorem pq_push_pop_sorts:
  assumes "pq_inv ps pq" and "pq_elems pq = {#}" and "length xs \<le> NPROC"
    and "\<forall>x\<in>set xs. x < length ps \<and> has_usage ps x"
  shows "\<exists>ys s. obind (push_all sys_push xs (ps, pq)) (drain sys_pop (length xs)) = Done (ys, s) \<and>
    mset ys = mset xs \<and> sorted (map (proc_rank ps) ys) \<and> pq_elems (snd s) = {#}"
  using pheap.push_drain_sorted [of "(ps, pq)" xs] assms by (simp add: sys_ok_def)

text \<open>
  Property C23: \<open>pq_check_and_push\<close> adds a process exactly when it is \<^verbatim>\<open>RUNNABLE\<close> and not in the
  heap yet. The heap never holds a process twice, so with a table of \<^verbatim>\<open>NPROC\<close> processes the
  overflow panic is unreachable, in whatever order the heap's elements are.
\<close>

theorem pq_check_and_push_set:
  assumes "pq_wf ps pq" and "distinct (take (pq_size pq) (pq_heap pq))" and "length ps = NPROC"
    and "p < NPROC" and "p_state (ps ! p) = RUNNABLE \<longrightarrow> has_usage ps p"
  shows "\<exists>r pq'. pq_check_and_push ps pq p = Done (r, pq') \<and> pq_wf ps pq' \<and>
    distinct (take (pq_size pq') (pq_heap pq')) \<and>
    (r = 1 \<longleftrightarrow> p_state (ps ! p) = RUNNABLE \<and> p \<notin># pq_elems pq) \<and>
    pq_elems pq' = pq_elems pq + (if r = 1 then {#p#} else {#})"
  using assms by (rule check_and_push_result)

text \<open>
  Property C32: \<open>pq_check_and_push\<close> compares used ticks for equality only, so a process that
  has used less CPU time than every process in the heap stays behind them. After it has been
  added, \<open>pq_pop\<close> returns the old root, whose rank is larger.
\<close>

theorem pq_check_and_push_inverts:
  assumes "pq_wf ps pq" and "0 < pq_size pq" and "pq_size pq < NPROC"
    and "p < length ps" and "has_usage ps p" and "p_state (ps ! p) = RUNNABLE"
    and "\<forall>x\<in>#pq_elems pq. sum_of_ticks (the_usage ps p) < sum_of_ticks (the_usage ps x)"
  shows "\<exists>pq' ps' pq''. pq_check_and_push ps pq p = Done (1, pq') \<and>
    pq_pop ps pq' = Done (Some (pq_heap pq ! 0), ps', pq'') \<and>
    p \<in># pq_elems pq'' \<and> proc_rank ps p < proc_rank ps (pq_heap pq ! 0)"
proof -
  let ?h = "(pq_heap pq)[pq_size pq := p]" and ?k = "(pq_size pq - 1) div 2"
  let ?pq = "pq\<lparr>pq_heap := ?h, pq_size := pq_size pq + 1\<rparr>"
  have len: "length (pq_heap pq) = NPROC" using assms(1) by (simp add: pq_wf_def)
  have notin: "p \<notin># pq_elems pq" using assms(7) by auto
  have k: "?k < pq_size pq" using assms(2) by simp
  have mem: "pq_heap pq ! j \<in># pq_elems pq" if "j < pq_size pq" for j
    using that len assms(3) by (simp add: pq_elems_def nth_mem_take)
  then have less: "sum_of_ticks (the_usage ps p) < sum_of_ticks (the_usage ps (pq_heap pq ! j))"
    if "j < pq_size pq" for j
    using that assms(7) by blast
  have us: "has_usage ps (pq_heap pq ! ?k)" using mem [OF k] assms(1) by (auto simp: pq_wf_def pq_elems_def)
  have "check_stops (the_usage ps (pq_heap pq ! ?k)) (the_usage ps p)"
    using less [OF k] by (auto simp: check_stops_def)
  then have stay: "bubble_up check_stops (usage_of ps) ?h (pq_size pq) = Done ?h"
    using assms(2-5) us k len
    by (subst bubble_up.simps) (simp add: Let_def usage_of_Done del: One_nat_def)
  then have add: "pq_check_and_push ps pq p = Done (1, ?pq)"
    "pq_wf ps ?pq" "pq_elems ?pq = add_mset p (pq_elems pq)"
    using check_and_push_add [OF assms(1,3-6) notin] by auto
  obtain ps' pq'' where pop: "pq_pop ps ?pq = Done (Some (pq_heap ?pq ! 0), ps', pq'')"
    "pq_elems pq'' = pq_elems ?pq - {#pq_heap ?pq ! 0#}"
    using pq_pop_root [OF add(2)] by auto
  have root: "pq_heap ?pq ! 0 = pq_heap pq ! 0" using assms(2) by simp
  have "pq_heap pq ! 0 \<noteq> p" using mem [OF assms(2)] notin by auto
  then have "p \<in># pq_elems pq''" using pop(2) unfolding add(3) root by (simp add: in_diff_count)
  moreover have "proc_rank ps p < proc_rank ps (pq_heap pq ! 0)"
    using less [OF assms(2)] by (simp add: rank_less)
  ultimately show ?thesis using add(1) pop(1) root by auto
qed

section \<open>Witnesses\<close>

text \<open>A process table with the given used ticks and deadlines, and heaps over it.\<close>

definition sample_procs :: "(u32 \<times> u32) list \<Rightarrow> proc list" where
  "sample_procs us = map (\<lambda>(t, d). zero_proc\<lparr>p_state := RUNNABLE,
     p_usage_time := Some (0x80001000, \<lparr>sum_of_ticks = t, start_tick = 0, quota = MAX_UINT,
       last_sched_tick = 0, deadline = d\<rparr>)\<rparr>) us"

definition sample_pq :: "nat list \<Rightarrow> PriorityQueue" where
  "sample_pq xs = \<lparr>pq_heap = xs @ replicate (NPROC - length xs) 0, pq_size = length xs,
     pq_lock = initlock ''pq_lock''\<rparr>"

lemma length_sample_procs [simp]: "length (sample_procs us) = length us"
  by (simp add: sample_procs_def)

lemma sample_procs_nth [simp]:
  assumes "i < length us"
  shows "has_usage (sample_procs us) i" and "p_state (sample_procs us ! i) = RUNNABLE"
    and "sum_of_ticks (the_usage (sample_procs us) i) = fst (us ! i)"
    and "deadline (the_usage (sample_procs us) i) = snd (us ! i)"
  using assms by (simp_all add: sample_procs_def has_usage_def the_usage_def split_beta)

lemma sample_pq_wf:
  assumes "length xs \<le> NPROC" and "\<forall>x\<in>set xs. x < length us"
  shows "pq_wf (sample_procs us) (sample_pq xs)"
  using assms by (simp add: pq_wf_def sample_pq_def)

lemma sample_pq_elems [simp]: "pq_elems (sample_pq xs) = mset xs"
  by (simp add: pq_elems_def sample_pq_def)

theorem pq_push_pop_sorts_witness:
  "pq_inv (sample_procs [(7, 0), (2, 9), (2, 4)]) (sample_pq []) \<and>
   (\<exists>ys s. obind (push_all sys_push [0, 1, 2] (sample_procs [(7, 0), (2, 9), (2, 4)], sample_pq []))
       (drain sys_pop 3) = Done (ys, s) \<and> mset ys = {#0, 1, 2#} \<and>
     sorted (map (proc_rank (sample_procs [(7, 0), (2, 9), (2, 4)])) ys))"
proof -
  let ?ps = "sample_procs [(7, 0), (2, 9), (2, 4)]"
  have inv: "pq_inv ?ps (sample_pq [])"
    by (simp add: pq_inv_def sample_pq_wf heap_ok_def) (simp add: sample_pq_def)
  have "\<forall>x\<in>set [0, 1, 2]. x < length ?ps \<and> has_usage ?ps x" by simp
  with inv show ?thesis using pq_push_pop_sorts [of ?ps "sample_pq []" "[0, 1, 2]"]
    by (simp add: numeral_3_eq_3 del: drain.simps push_all.simps) blast
qed

theorem pq_check_and_push_set_witness:
  "length (sample_procs (replicate NPROC (1, 1))) = NPROC \<and>
   (\<exists>pq'. pq_check_and_push (sample_procs (replicate NPROC (1, 1))) (sample_pq [5, 6]) 9 = Done (1, pq') \<and>
     pq_elems pq' = {#5, 6, 9#})"
proof -
  let ?ps = "sample_procs (replicate NPROC (1, 1))"
  have "distinct (take (pq_size (sample_pq [5, 6])) (pq_heap (sample_pq [5, 6])))"
    by (simp add: sample_pq_def)
  then obtain r pq' where "pq_check_and_push ?ps (sample_pq [5, 6]) 9 = Done (r, pq')"
    "r = 1 \<longleftrightarrow> p_state (?ps ! 9) = RUNNABLE \<and> 9 \<notin># pq_elems (sample_pq [5, 6])"
    "pq_elems pq' = pq_elems (sample_pq [5, 6]) + (if r = 1 then {#9#} else {#})"
    using pq_check_and_push_set [of ?ps "sample_pq [5, 6]" 9] by (auto simp: sample_pq_wf)
  then show ?thesis by (auto simp: add_mset_commute)
qed

theorem pq_check_and_push_inverts_witness:
  "p_state (sample_procs [(7, 0), (2, 9)] ! 1) = RUNNABLE \<and>
   (\<exists>pq' ps' pq''. pq_check_and_push (sample_procs [(7, 0), (2, 9)]) (sample_pq [0]) 1 = Done (1, pq') \<and>
     pq_pop (sample_procs [(7, 0), (2, 9)]) pq' = Done (Some 0, ps', pq''))"
proof -
  have "pq_size (sample_pq [0]) = 1" "pq_heap (sample_pq [0]) ! 0 = 0"
    by (simp_all add: sample_pq_def)
  then show ?thesis
    using pq_check_and_push_inverts [of "sample_procs [(7, 0), (2, 9)]" "sample_pq [0]" 1]
    by (auto simp: sample_pq_wf)
qed

end
