(* ===== verification/Proc.thy ===== *)
theory Proc
  imports VmTables PriorityQueue
begin

text \<open>
  \<^verbatim>\<open>kernel/proc.c\<close>, the process table: process identifiers, allocating and freeing processes,
  user page tables, wakeup, kill, reparenting, and the scan of \<^verbatim>\<open>wait\<close>. A critical section
  that a spinlock protects is one step; the current process is an argument where the code
  calls \<^verbatim>\<open>myproc()\<close>. The pages that hold a trap frame or a CPU usage structure come from the
  page allocator of \<open>Kalloc\<close>; their contents are the structure in the owner's record.
\<close>

section \<open>State\<close>

text \<open>
  The globals \<^verbatim>\<open>proc\<close>, \<^verbatim>\<open>nextpid\<close> and \<^verbatim>\<open>initproc\<close>, the physical memory, and the addresses of
  \<^verbatim>\<open>trampoline\<close> and \<^verbatim>\<open>forkret\<close>, which the linker assigns.
\<close>

record ptable =
  pt_procs :: "proc list"
  pt_kmem :: kmem
  pt_nextpid :: u32
  pt_initproc :: "nat option"
  pt_trampoline :: u64
  pt_forkret :: u64

abbreviation the_proc :: "ptable \<Rightarrow> nat \<Rightarrow> proc" where
  "the_proc st i \<equiv> pt_procs st ! i"

definition set_proc :: "nat \<Rightarrow> (proc \<Rightarrow> proc) \<Rightarrow> ptable \<Rightarrow> ptable" where
  "set_proc i f st = st\<lparr>pt_procs := upd_proc i f (pt_procs st)\<rparr>"

definition set_kmem :: "kmem \<Rightarrow> ptable \<Rightarrow> ptable" where
  "set_kmem k st = st\<lparr>pt_kmem := k\<rparr>"

lemma set_proc_simps [simp]:
  "pt_procs (set_proc i f st) = upd_proc i f (pt_procs st)"
  "pt_kmem (set_proc i f st) = pt_kmem st" "pt_nextpid (set_proc i f st) = pt_nextpid st"
  "pt_initproc (set_proc i f st) = pt_initproc st"
  "pt_trampoline (set_proc i f st) = pt_trampoline st" "pt_forkret (set_proc i f st) = pt_forkret st"
  by (simp_all add: set_proc_def)

lemma set_kmem_simps [simp]:
  "pt_procs (set_kmem k st) = pt_procs st" "pt_kmem (set_kmem k st) = k"
  "pt_nextpid (set_kmem k st) = pt_nextpid st" "pt_initproc (set_kmem k st) = pt_initproc st"
  "pt_trampoline (set_kmem k st) = pt_trampoline st" "pt_forkret (set_kmem k st) = pt_forkret st"
  by (simp_all add: set_kmem_def)

text \<open>A trap frame page fresh from the allocator: every byte is 5.\<close>

definition junk_trapframe :: trapframe where
  "junk_trapframe = (let j = 0x0505050505050505 in
     \<lparr>tf_kernel_satp = j, tf_kernel_sp = j, tf_kernel_trap = j, tf_epc = j, tf_kernel_hartid = j,
      tf_ra = j, tf_sp = j, tf_gp = j, tf_tp = j, tf_t0 = j, tf_t1 = j, tf_t2 = j, tf_s0 = j, tf_s1 = j,
      tf_a0 = j, tf_a1 = j, tf_a2 = j, tf_a3 = j, tf_a4 = j, tf_a5 = j, tf_a6 = j, tf_a7 = j,
      tf_s2 = j, tf_s3 = j, tf_s4 = j, tf_s5 = j, tf_s6 = j, tf_s7 = j, tf_s8 = j, tf_s9 = j,
      tf_s10 = j, tf_s11 = j, tf_t3 = j, tf_t4 = j, tf_t5 = j, tf_t6 = j\<rparr>)"

section \<open>Process table operations\<close>

definition procinit :: "proc list \<times> PriorityQueue \<times> nat Queue \<Rightarrow> proc list \<times> PriorityQueue \<times> nat Queue" where
  "procinit = (\<lambda>(ps, pq, q).
     (map (\<lambda>(i, p). p\<lparr>p_lock := initlock ''proc'', p_state := UNUSED, p_kstack := KSTACK i,
          p_threads := map (\<lambda>t. t\<lparr>t_state := THREAD_FREE\<rparr>) (p_threads p)\<rparr>)
        (zip [0..<length ps] ps),
      pq_init pq, initializeQueue q))"

definition allocpid :: "ptable \<Rightarrow> u32 \<times> ptable" where
  "allocpid st = (pt_nextpid st, st\<lparr>pt_nextpid := pt_nextpid st + 1\<rparr>)"

text \<open>\<^verbatim>\<open>kfree\<close> of a page that a pointer owns, where the pointer is not null.\<close>

definition kfree_owned :: "'a owned \<Rightarrow> kmem \<Rightarrow> kmem outcome" where
  "kfree_owned o' k = (case o' of None \<Rightarrow> Done k | Some (pa, _) \<Rightarrow> kfree k pa)"

definition freethread :: "thread \<Rightarrow> kmem \<Rightarrow> (thread \<times> kmem) outcome" where
  "freethread t k =
     obind (kfree_owned (t_trapframe t) k) (\<lambda>k.
       Done (t\<lparr>t_trapframe := None, t_state := THREAD_FREE, t_id := 0, t_join := 0\<rparr>, k))"

fun freethreads :: "thread list \<Rightarrow> kmem \<Rightarrow> (thread list \<times> kmem) outcome" where
  "freethreads [] k = Done ([], k)"
| "freethreads (t # ts) k =
     obind (freethread t k) (\<lambda>(t, k).
     obind (freethreads ts k) (\<lambda>(ts, k). Done (t # ts, k)))"

definition proc_pagetable :: "u64 \<Rightarrow> u64 \<Rightarrow> kmem \<Rightarrow> (u64 \<times> kmem) outcome" where
  "proc_pagetable trampoline tf k =
     (case uvmcreate k of (pagetable, k) \<Rightarrow>
        if pagetable = 0 then Done (0, k)
        else obind (mappages k pagetable TRAMPOLINE PGSIZE trampoline (PTE_R OR PTE_X)) (\<lambda>(r, k).
          if r < 0 then obind (uvmfree 3 k pagetable 0) (\<lambda>k. Done (0, k))
          else obind (mappages k pagetable TRAPFRAME PGSIZE tf (PTE_R OR PTE_W)) (\<lambda>(r, k).
            if r < 0
            then obind (uvmunmap k pagetable TRAMPOLINE 1 False) (\<lambda>k.
                 obind (uvmfree 3 k pagetable 0) (\<lambda>k. Done (0, k)))
            else Done (pagetable, k))))"

definition proc_freepagetable :: "u64 \<Rightarrow> u64 \<Rightarrow> kmem \<Rightarrow> kmem outcome" where
  "proc_freepagetable pagetable sz k =
     obind (uvmunmap k pagetable TRAMPOLINE 1 False) (\<lambda>k.
     obind (uvmunmap k pagetable TRAPFRAME 1 False) (\<lambda>k.
       uvmfree 3 k pagetable sz))"

text \<open>The memory that \<open>freeproc\<close> gives back, and the fields that it resets.\<close>

definition freeproc :: "nat \<Rightarrow> ptable \<Rightarrow> ptable outcome" where
  "freeproc i st =
     (let p = the_proc st i in
      obind (kfree_owned (p_trapframe p) (pt_kmem st)) (\<lambda>k.
      obind (kfree_owned (p_usage_time p) k) (\<lambda>k.
      obind (if p_pagetable p \<noteq> 0 then proc_freepagetable (p_pagetable p) (p_sz p) k else Done k) (\<lambda>k.
      obind (freethreads (p_threads p) k) (\<lambda>(ts, k).
        Done (set_kmem k (set_proc i (\<lambda>p. p\<lparr>p_trapframe := None, p_usage_time := None,
          p_pagetable := 0, p_sz := 0, p_pid := 0, p_parent := None, p_name := (p_name p)[0 := 0],
          p_chan := NoChan, p_killed := False, p_xstate := 0, p_state := UNUSED,
          p_current_thread := None, p_threads := ts\<rparr>) st)))))))"

definition find_unused :: "proc list \<Rightarrow> nat option" where
  "find_unused ps = find (\<lambda>i. p_state (ps ! i) = UNUSED) [0..<length ps]"

definition allocproc :: "ptable \<Rightarrow> (nat option \<times> ptable) outcome" where
  "allocproc st =
     (case find_unused (pt_procs st) of
        None \<Rightarrow> Done (None, st)
      | Some i \<Rightarrow>
        (case allocpid st of (pid, st) \<Rightarrow>
         let st = set_proc i (\<lambda>p. p\<lparr>p_pid := pid, p_state := USED\<rparr>) st in
         case kalloc (pt_kmem st) of (tf, k) \<Rightarrow>
         let st = set_kmem k (set_proc i
               (\<lambda>p. p\<lparr>p_trapframe := (if tf = 0 then None else Some (tf, junk_trapframe))\<rparr>) st) in
         if tf = 0 then obind (freeproc i st) (\<lambda>st. Done (None, st))
         else (case kalloc (pt_kmem st) of (ut, k) \<Rightarrow>
           let st = set_kmem k (set_proc i (\<lambda>p. p\<lparr>p_usage_time := (if ut = 0 then None
                 else Some (ut, \<lparr>sum_of_ticks = 0, start_tick = 0, quota = MAX_UINT,
                   last_sched_tick = 0, deadline = MAX_UINT\<rparr>))\<rparr>) st) in
           if ut = 0 then obind (freeproc i st) (\<lambda>st. Done (None, st))
           else obind (proc_pagetable (pt_trampoline st) tf (pt_kmem st)) (\<lambda>(pagetable, k).
             let st = set_kmem k (set_proc i (\<lambda>p. p\<lparr>p_pagetable := pagetable\<rparr>) st) in
             if pagetable = 0 then obind (freeproc i st) (\<lambda>st. Done (None, st))
             else Done (Some i, set_proc i (\<lambda>p. p\<lparr>p_context := zero_context\<lparr>ctx_ra := pt_forkret st,
                    ctx_sp := p_kstack p + PGSIZE\<rparr>, p_current_thread := None\<rparr>) st)))))"

end
