(* ===== verification/Bytes.thy ===== *)
theory Bytes
  imports Prelude
begin

text \<open>
  Machine values as the little-endian byte arrays that the kernel copies between disk blocks,
  buffers and user memory.
\<close>

fun le_bytes :: "nat \<Rightarrow> u64 \<Rightarrow> u8 list" where
  "le_bytes 0 v = []"
| "le_bytes (Suc n) v = ucast v # le_bytes n (drop_bit 8 v)"

fun of_bytes :: "u8 list \<Rightarrow> u64" where
  "of_bytes [] = 0"
| "of_bytes (b # bs) = ucast b OR push_bit 8 (of_bytes bs)"

abbreviation le16 :: "u16 \<Rightarrow> u8 list" where
  "le16 v \<equiv> le_bytes 2 (ucast v)"

abbreviation le32 :: "u32 \<Rightarrow> u8 list" where
  "le32 v \<equiv> le_bytes 4 (ucast v)"

abbreviation le64 :: "u64 \<Rightarrow> u8 list" where
  "le64 v \<equiv> le_bytes 8 v"

lemma length_le_bytes [simp]: "length (le_bytes n v) = n"
  by (induction n arbitrary: v) auto

lemma of_le_bytes: "of_bytes (le_bytes n v) = take_bit (8 * n) v"
proof (induction n arbitrary: v)
  case (Suc n)
  then show ?case by (simp add: take_bit_step del: mult_Suc_right)
qed simp

lemma of_le16 [simp]: "ucast (of_bytes (le16 v)) = (v :: u16)"
  unfolding of_le_bytes by (rule bit_word_eqI) (auto simp: bit_simps)

lemma of_le32 [simp]: "ucast (of_bytes (le32 v)) = (v :: u32)"
  unfolding of_le_bytes by (rule bit_word_eqI) (auto simp: bit_simps)

lemma of_le64 [simp]: "of_bytes (le64 v) = v"
  by (simp add: of_le_bytes take_bit_word_eq_self)

text \<open>Overwriting the bytes of an array from index \<open>o\<close> on.\<close>

definition splice :: "nat \<Rightarrow> 'a list \<Rightarrow> 'a list \<Rightarrow> 'a list" where
  "splice off new xs = take off xs @ new @ drop (off + length new) xs"

text \<open>\<open>n\<close> bytes of an array from index \<open>off\<close> on.\<close>

definition slice :: "nat \<Rightarrow> nat \<Rightarrow> 'a list \<Rightarrow> 'a list" where
  "slice off n xs = take n (drop off xs)"

lemma length_splice [simp]: "off + length new \<le> length xs \<Longrightarrow> length (splice off new xs) = length xs"
  by (simp add: splice_def)

lemma length_slice [simp]: "off + n \<le> length xs \<Longrightarrow> length (slice off n xs) = n"
  by (simp add: slice_def)

lemma nth_splice:
  assumes "off + length new \<le> length xs" and "i < length xs"
  shows "splice off new xs ! i =
    (if off \<le> i \<and> i < off + length new then new ! (i - off) else xs ! i)"
  using assms by (auto simp: splice_def nth_append)

lemma nth_slice: "i < n \<Longrightarrow> off + n \<le> length xs \<Longrightarrow> slice off n xs ! i = xs ! (off + i)"
  by (simp add: slice_def)

lemma slice_splice_same [simp]:
  "off + length new \<le> length xs \<Longrightarrow> slice off (length new) (splice off new xs) = new"
  by (simp add: slice_def splice_def)

lemma slice_splice_other:
  assumes "off + length new \<le> length xs" and "a + n \<le> length xs"
    and "a + n \<le> off \<or> off + length new \<le> a"
  shows "slice a n (splice off new xs) = slice a n xs"
  using assms by (intro nth_equalityI) (auto simp: nth_slice nth_splice)

lemma splice_slice [simp]: "off + n \<le> length xs \<Longrightarrow> splice off (slice off n xs) xs = xs"
  by (intro nth_equalityI) (auto simp: nth_splice nth_slice)

text \<open>Fields of 16 and 32 bits at a byte offset.\<close>

definition get16 :: "nat \<Rightarrow> u8 list \<Rightarrow> u16" where
  "get16 off bs = ucast (of_bytes (slice off 2 bs))"

definition put16 :: "nat \<Rightarrow> u16 \<Rightarrow> u8 list \<Rightarrow> u8 list" where
  "put16 off v bs = splice off (le16 v) bs"

definition get32 :: "nat \<Rightarrow> u8 list \<Rightarrow> u32" where
  "get32 off bs = ucast (of_bytes (slice off 4 bs))"

definition put32 :: "nat \<Rightarrow> u32 \<Rightarrow> u8 list \<Rightarrow> u8 list" where
  "put32 off v bs = splice off (le32 v) bs"

lemma length_put [simp]:
  "off + 2 \<le> length bs \<Longrightarrow> length (put16 off v bs) = length bs"
  "off + 4 \<le> length bs \<Longrightarrow> length (put32 off w bs) = length bs"
  by (simp_all add: put16_def put32_def)

lemma get_put_same [simp]:
  "off + 2 \<le> length bs \<Longrightarrow> get16 off (put16 off v bs) = v"
  "off + 4 \<le> length bs \<Longrightarrow> get32 off (put32 off w bs) = w"
  using slice_splice_same [of off "le16 v" bs] slice_splice_same [of off "le32 w" bs]
  by (simp_all add: get16_def put16_def get32_def put32_def)

lemma slice_put_other:
  "off + 2 \<le> length bs \<Longrightarrow> a + n \<le> length bs \<Longrightarrow> a + n \<le> off \<or> off + 2 \<le> a \<Longrightarrow> slice a n (put16 off v bs) = slice a n bs"
  "off + 4 \<le> length bs \<Longrightarrow> a + n \<le> length bs \<Longrightarrow> a + n \<le> off \<or> off + 4 \<le> a \<Longrightarrow> slice a n (put32 off w bs) = slice a n bs"
  unfolding put16_def put32_def by (rule slice_splice_other; simp)+

lemma get32_put32_other:
  "off + 4 \<le> length bs \<Longrightarrow> a + 4 \<le> length bs \<Longrightarrow> a + 4 \<le> off \<or> off + 4 \<le> a \<Longrightarrow> get32 a (put32 off v bs) = get32 a bs"
  by (simp add: get32_def slice_put_other)

end
