(* ===== verification/ProcOps.thy ===== *)
theory ProcOps
  imports Proc Bytes
begin

text \<open>
  The operations of \<^verbatim>\<open>kernel/proc.c\<close> that change the process table without switching context:
  \<open>growproc\<close>, \<open>wakeup\<close>, \<open>reparent\<close>, \<open>kill\<close>, \<open>setkilled\<close>, \<open>killed\<close>, one round of \<open>wait\<close>, the last
  part of \<open>exit\<close>, and \<open>either_copyout\<close> and \<open>either_copyin\<close>. \<open>me\<close> is the index of \<^verbatim>\<open>myproc()\<close>.
\<close>

section \<open>Operations\<close>

text \<open>The argument is a C \<^verbatim>\<open>int\<close>; \<^verbatim>\<open>sz + n\<close> extends its sign.\<close>

definition growproc :: "u32 \<Rightarrow> nat \<Rightarrow> ptable \<Rightarrow> (int \<times> ptable) outcome" where
  "growproc n me st =
     (let p = the_proc st me; sz = p_sz p in
      if sint n > 0 then
        obind (uvmalloc (pt_kmem st) (p_pagetable p) sz (sz + scast n) PTE_W) (\<lambda>(sz, k).
          if sz = 0 then Done (-1, set_kmem k st)
          else Done (0, set_proc me (\<lambda>p. p\<lparr>p_sz := sz\<rparr>) (set_kmem k st)))
      else if sint n < 0 then
        obind (uvmdealloc (pt_kmem st) (p_pagetable p) sz (sz + scast n)) (\<lambda>(sz, k).
          Done (0, set_proc me (\<lambda>p. p\<lparr>p_sz := sz\<rparr>) (set_kmem k st)))
      else Done (0, set_proc me (\<lambda>p. p\<lparr>p_sz := sz\<rparr>) st))"

text \<open>
  \<open>wakeup\<close> visits the table once; \<open>me\<close> is \<open>None\<close> in an interrupt handler without a process.
\<close>

definition wake :: "chan \<Rightarrow> proc \<Rightarrow> proc" where
  "wake ch p = (if p_state p = SLEEPING \<and> p_chan p = ch then p\<lparr>p_state := RUNNABLE\<rparr> else p)"

definition wakeup :: "chan \<Rightarrow> nat option \<Rightarrow> ptable \<Rightarrow> ptable" where
  "wakeup ch me st = st\<lparr>pt_procs :=
     map (\<lambda>i. if me \<noteq> Some i then wake ch (the_proc st i) else the_proc st i)
       [0..<length (pt_procs st)]\<rparr>"

text \<open>The address of a process as a channel; the null pointer is channel 0.\<close>

definition proc_chan :: "nat option \<Rightarrow> chan" where
  "proc_chan p = (case p of None \<Rightarrow> NoChan | Some i \<Rightarrow> ChanProc i)"

definition reparent1 :: "nat option \<Rightarrow> nat \<Rightarrow> nat \<Rightarrow> ptable \<Rightarrow> ptable" where
  "reparent1 me p i st =
     (if p_parent (the_proc st i) = Some p
      then wakeup (proc_chan (pt_initproc st)) me
             (set_proc i (\<lambda>pp. pp\<lparr>p_parent := pt_initproc st\<rparr>) st)
      else st)"

definition reparent :: "nat option \<Rightarrow> nat \<Rightarrow> ptable \<Rightarrow> ptable" where
  "reparent me p st = fold (reparent1 me p) [0..<length (pt_procs st)] st"

text \<open>The part of \<open>exit\<close> from \<^verbatim>\<open>acquire(&wait_lock)\<close> to the switch.\<close>

definition exit_tail :: "u32 \<Rightarrow> nat \<Rightarrow> ptable \<Rightarrow> ptable" where
  "exit_tail status me st =
     (let st = reparent (Some me) me st;
          st = wakeup (proc_chan (p_parent (the_proc st me))) (Some me) st
      in set_proc me (\<lambda>p. p\<lparr>p_xstate := status, p_state := ZOMBIE\<rparr>) st)"

definition kill :: "u32 \<Rightarrow> ptable \<Rightarrow> int \<times> ptable" where
  "kill pid st =
     (case find (\<lambda>i. p_pid (the_proc st i) = pid) [0..<length (pt_procs st)] of
        None \<Rightarrow> (-1, st)
      | Some i \<Rightarrow> (0, set_proc i (\<lambda>p. if p_state p = SLEEPING then p\<lparr>p_killed := True, p_state := RUNNABLE\<rparr>
                                else p\<lparr>p_killed := True\<rparr>) st))"

definition setkilled :: "nat \<Rightarrow> ptable \<Rightarrow> ptable" where
  "setkilled i st = set_proc i (\<lambda>p. p\<lparr>p_killed := True\<rparr>) st"

definition killed :: "nat \<Rightarrow> ptable \<Rightarrow> bool" where
  "killed i st = p_killed (the_proc st i)"

text \<open>
  One scan of \<open>wait\<close>: \<open>Inl havekids\<close> when no child has exited, \<open>Inr\<close> the result of the call
  otherwise.
\<close>

fun wait_scan :: "nat \<Rightarrow> u64 \<Rightarrow> nat list \<Rightarrow> bool \<Rightarrow> ptable \<Rightarrow> ((bool + u32) \<times> ptable) outcome" where
  "wait_scan me addr [] havekids st = Done (Inl havekids, st)"
| "wait_scan me addr (i # is) havekids st =
     (if p_parent (the_proc st i) = Some me then
        (if p_state (the_proc st i) = ZOMBIE then
           (let pid = p_pid (the_proc st i) in
            obind (if addr \<noteq> 0
                   then copyout (pt_kmem st) (p_pagetable (the_proc st me)) addr (le32 (p_xstate (the_proc st i)))
                   else Done (0, pt_kmem st)) (\<lambda>(r, k).
              if addr \<noteq> 0 \<and> r < 0 then Done (Inr (-1), set_kmem k st)
              else obind (freeproc i (set_kmem k st)) (\<lambda>st. Done (Inr pid, st))))
         else wait_scan me addr is True st)
      else wait_scan me addr is havekids st)"

text \<open>One round of the loop of \<open>wait\<close>: \<open>None\<close> when the caller goes to sleep on itself.\<close>

definition wait_round :: "u64 \<Rightarrow> nat \<Rightarrow> ptable \<Rightarrow> (u32 option \<times> ptable) outcome" where
  "wait_round addr me st =
     obind (wait_scan me addr [0..<length (pt_procs st)] False st) (\<lambda>(r, st).
       case r of
         Inr v \<Rightarrow> Done (Some v, st)
       | Inl havekids \<Rightarrow> if \<not> havekids \<or> killed me st then Done (Some (-1), st) else Done (None, st))"

text \<open>Copies between a kernel buffer and either a user or a kernel address.\<close>

definition either_copyout :: "bool \<Rightarrow> u64 \<Rightarrow> u8 list \<Rightarrow> nat \<Rightarrow> ptable \<Rightarrow> (int \<times> ptable) outcome" where
  "either_copyout user_dst dst src me st =
     (if user_dst then
        obind (copyout (pt_kmem st) (p_pagetable (the_proc st me)) dst src) (\<lambda>(r, k). Done (r, set_kmem k st))
      else Done (0, set_kmem (set_mem (poke (k_mem (pt_kmem st)) dst src) (pt_kmem st)) st))"

definition either_copyin :: "bool \<Rightarrow> u64 \<Rightarrow> nat \<Rightarrow> nat \<Rightarrow> ptable \<Rightarrow> (int \<times> u8 list) outcome" where
  "either_copyin user_src src len me st =
     (if user_src then copyin (pt_kmem st) (p_pagetable (the_proc st me)) src len
      else Done (0, peek (k_mem (pt_kmem st)) src len))"

section \<open>Waking\<close>

lemma length_wakeup [simp]: "length (pt_procs (wakeup ch me st)) = length (pt_procs st)"
  by (simp add: wakeup_def)

lemma wakeup_nth:
  "i < length (pt_procs st) \<Longrightarrow>
     the_proc (wakeup ch me st) i = (if me \<noteq> Some i then wake ch (the_proc st i) else the_proc st i)"
  by (simp add: wakeup_def)

lemma wakeup_simps [simp]:
  "pt_kmem (wakeup ch me st) = pt_kmem st" "pt_nextpid (wakeup ch me st) = pt_nextpid st"
  "pt_initproc (wakeup ch me st) = pt_initproc st"
  by (simp_all add: wakeup_def)

lemma wake_fields [simp]:
  "p_parent (wake ch p) = p_parent p" "p_chan (wake ch p) = p_chan p" "p_pid (wake ch p) = p_pid p"
  "p_killed (wake ch p) = p_killed p" "p_xstate (wake ch p) = p_xstate p"
  "p_pagetable (wake ch p) = p_pagetable p" "p_trapframe (wake ch p) = p_trapframe p"
  "p_usage_time (wake ch p) = p_usage_time p"
  by (simp_all add: wake_def)

lemma wake_state: "p_state (wake ch p) =
    (if p_state p = SLEEPING \<and> p_chan p = ch then RUNNABLE else p_state p)"
  by (simp add: wake_def)

lemma wakeup_parent [simp]:
  "i < length (pt_procs st) \<Longrightarrow> p_parent (the_proc (wakeup ch me st) i) = p_parent (the_proc st i)"
  by (simp add: wakeup_nth)

lemma wakeup_chan [simp]:
  "i < length (pt_procs st) \<Longrightarrow> p_chan (the_proc (wakeup ch me st) i) = p_chan (the_proc st i)"
  by (simp add: wakeup_nth)

section \<open>Handing over children\<close>

lemma length_reparent1 [simp]: "length (pt_procs (reparent1 me p i st)) = length (pt_procs st)"
  by (simp add: reparent1_def)

text \<open>
  What handing over does to a process: its parent changes when it is one of the children, and
  it may be woken on the channel of init.
\<close>

definition handed :: "nat \<Rightarrow> nat option \<Rightarrow> bool \<Rightarrow> proc \<Rightarrow> proc \<Rightarrow> bool" where
  "handed p init child q q' \<longleftrightarrow>
     p_parent q' = (if child \<and> p_parent q = Some p then init else p_parent q) \<and>
     p_chan q' = p_chan q \<and>
     (p_state q' = p_state q \<or> p_state q = SLEEPING \<and> p_chan q = proc_chan init \<and> p_state q' = RUNNABLE)"

lemma reparent1_handed:
  assumes "i < length (pt_procs st)" and "j < length (pt_procs st)"
  shows "handed p (pt_initproc st) (i = j) (the_proc st j) (the_proc (reparent1 me p i st) j)"
  using assms
  by (auto simp: handed_def reparent1_def wakeup_nth wake_state nth_upd_proc split: if_splits)

lemma reparent_prefix:
  assumes "n \<le> length (pt_procs st)" and "pt_initproc st \<noteq> Some p"
  shows "length (pt_procs (fold (reparent1 me p) [0..<n] st)) = length (pt_procs st) \<and>
    pt_initproc (fold (reparent1 me p) [0..<n] st) = pt_initproc st \<and>
    (\<forall>j<length (pt_procs st). handed p (pt_initproc st) (j < n) (the_proc st j)
       (the_proc (fold (reparent1 me p) [0..<n] st) j))"
  using assms(1)
proof (induction n)
  case (Suc n)
  let ?s = "fold (reparent1 me p) [0..<n] st"
  have IH: "length (pt_procs ?s) = length (pt_procs st)" "pt_initproc ?s = pt_initproc st"
    "\<And>j. j < length (pt_procs st) \<Longrightarrow>
      handed p (pt_initproc st) (j < n) (the_proc st j) (the_proc ?s j)"
    using Suc by auto
  have "handed p (pt_initproc st) (j < Suc n) (the_proc st j) (the_proc (reparent1 me p n ?s) j)"
    if "j < length (pt_procs st)" for j
    using IH(3) [OF that] reparent1_handed [of n ?s j p me] Suc.prems that IH(1,2) assms(2)
    by (cases "j = n") (auto simp: handed_def)
  moreover have "pt_initproc (reparent1 me p n ?s) = pt_initproc st"
    using IH(2) by (simp add: reparent1_def)
  ultimately show ?case using IH(1) by simp
qed (simp add: handed_def)

lemma reparent_handed:
  assumes "pt_initproc st \<noteq> Some p"
  shows "length (pt_procs (reparent me p st)) = length (pt_procs st)"
    and "pt_initproc (reparent me p st) = pt_initproc st"
    and "j < length (pt_procs st) \<Longrightarrow>
      handed p (pt_initproc st) True (the_proc st j) (the_proc (reparent me p st) j)"
  using reparent_prefix [OF order.refl assms, of me] by (auto simp: reparent_def)

text \<open>A scan of \<open>wait\<close> that meets an exited child does not end in sleep.\<close>

lemma wait_scan_zombie:
  assumes "i \<in> set is" and "p_parent (the_proc st i) = Some me" and "p_state (the_proc st i) = ZOMBIE"
  shows "wait_scan me addr is hk st \<noteq> Done (Inl b, st')"
  using assms(1)
proof (induction "is" arbitrary: hk)
  case (Cons j "is")
  then show ?case using assms(2,3) by (auto simp: outcome_simps Let_def)
qed simp

lemma wait_round_zombie:
  assumes "i < length (pt_procs st)" and "p_parent (the_proc st i) = Some me"
    and "p_state (the_proc st i) = ZOMBIE"
  shows "wait_round addr me st \<noteq> Done (None, st')"
  using wait_scan_zombie [of i "[0..<length (pt_procs st)]" st me addr False] assms
  by (auto simp: wait_round_def outcome_simps split: sum.splits if_splits)

section \<open>Properties\<close>

text \<open>
  Property C18: \<open>exit\<close> leaves the process a zombie with its status, gives every child to init and
  keeps the other parents. A parent that sleeps in \<open>wait\<close> is made runnable, and its next round of
  \<open>wait\<close> does not go back to sleep.
\<close>

theorem exit_hands_over:
  assumes "me < length (pt_procs st)" and "pt_initproc st = Some ini" and "ini \<noteq> me"
    and "p_parent (the_proc st me) = Some par" and "par < length (pt_procs st)" and "par \<noteq> me"
  shows "p_state (the_proc (exit_tail status me st) me) = ZOMBIE \<and>
    p_xstate (the_proc (exit_tail status me st) me) = status \<and>
    (\<forall>i<length (pt_procs st). p_parent (the_proc (exit_tail status me st) i) =
      (if p_parent (the_proc st i) = Some me then Some ini else p_parent (the_proc st i))) \<and>
    (p_state (the_proc st par) = SLEEPING \<longrightarrow> p_chan (the_proc st par) = ChanProc par \<longrightarrow>
      p_state (the_proc (exit_tail status me st) par) = RUNNABLE) \<and>
    wait_round addr par (exit_tail status me st) \<noteq> Done (None, st')"
proof -
  let ?r = "reparent (Some me) me st" and ?e = "exit_tail status me st"
  have ini: "pt_initproc st \<noteq> Some me" using assms(2,3) by simp
  note len [simp] = reparent_handed(1) [OF ini, of "Some me"]
  have h: "handed me (Some ini) True (the_proc st i) (the_proc ?r i)" if "i < length (pt_procs st)" for i
    using reparent_handed(3) [OF ini that] assms(2) by simp
  have par: "p_parent (the_proc ?r me) = Some par"
    using h [OF assms(1)] assms(4,6) by (simp add: handed_def)
  have e: "the_proc ?e i = (if i = me then (the_proc ?r me)\<lparr>p_xstate := status, p_state := ZOMBIE\<rparr>
      else wake (ChanProc par) (the_proc ?r i))" if "i < length (pt_procs st)" for i
    using that assms(1) by (simp add: exit_tail_def Let_def par proc_chan_def nth_upd_proc wakeup_nth)
  have l: "length (pt_procs ?e) = length (pt_procs st)" by (simp add: exit_tail_def Let_def)
  have st: "p_parent (the_proc ?e i) =
      (if p_parent (the_proc st i) = Some me then Some ini else p_parent (the_proc st i))"
    if "i < length (pt_procs st)" for i using h [OF that] e [OF that] by (auto simp: handed_def)
  have z: "p_state (the_proc ?e me) = ZOMBIE" using e [OF assms(1)] by simp
  moreover have "p_xstate (the_proc ?e me) = status" using e [OF assms(1)] by simp
  moreover have "p_state (the_proc ?e par) = RUNNABLE"
    if "p_state (the_proc st par) = SLEEPING" "p_chan (the_proc st par) = ChanProc par"
    using h [OF assms(5)] e [OF assms(5)] assms(6) that by (auto simp: handed_def wake_state)
  moreover have "wait_round addr par ?e \<noteq> Done (None, st')"
    by (rule wait_round_zombie [of me]) (use assms l z st [OF assms(1)] in simp_all)
  ultimately show ?thesis using st by blast
qed

section \<open>Witness\<close>

text \<open>Process 1 exits: its parent init waits, and it has a child.\<close>

definition exit_demo :: ptable where
  "exit_demo = \<lparr>pt_procs = [zero_proc\<lparr>p_state := SLEEPING, p_chan := ChanProc 0, p_pid := 1\<rparr>,
       zero_proc\<lparr>p_state := RUNNING, p_pid := 2, p_parent := Some 0\<rparr>,
       zero_proc\<lparr>p_state := RUNNABLE, p_pid := 3, p_parent := Some 1\<rparr>],
     pt_kmem = small_kmem, pt_nextpid = 4, pt_initproc = Some 0, pt_trampoline = 0x80007000,
     pt_forkret = 0x80001000\<rparr>"

theorem exit_hands_over_witness:
  "p_state (the_proc (exit_tail 7 1 exit_demo) 1) = ZOMBIE \<and>
   p_parent (the_proc (exit_tail 7 1 exit_demo) 2) = Some 0 \<and>
   p_state (the_proc (exit_tail 7 1 exit_demo) 0) = RUNNABLE \<and>
   wait_round 0 0 (exit_tail 7 1 exit_demo) \<noteq> Done (None, exit_demo)"
  using exit_hands_over [of 1 exit_demo 0 0 7 0 exit_demo]
  by (simp add: exit_demo_def zero_proc_def)

end
