(* ===== verification/Sched.thy ===== *)
theory Sched
  imports ProcOps
begin

text \<open>
  Context switching of \<^verbatim>\<open>kernel/proc.c\<close>: \<open>sched\<close>, \<open>yield\<close>, \<open>sleep\<close>, and the thread calls
  \<open>create_thread\<close>, \<open>join_thread\<close>, \<open>exit_t\<close> and \<open>exit_thread\<close> that give up the CPU. The assembly
  routine \<open>swtch\<close> is a parameter: a function from the state at the switch to the state in which
  the process runs again, whatever the scheduler and the other processes do in between.
\<close>

section \<open>The CPU and the process table\<close>

text \<open>
  The kernel as one CPU sees it: the process table, \<^verbatim>\<open>ticks\<close>, the two scheduling queues, and of
  its \<^verbatim>\<open>struct cpu\<close> the index, the interrupt state and the running process.
\<close>

record sys =
  sy_pt :: ptable
  sy_ticks :: u32
  sy_pq :: PriorityQueue
  sy_q :: "nat Queue"
  sy_cpu :: nat
  sy_hart :: hart
  sy_proc :: "nat option"

abbreviation sy_procs :: "sys \<Rightarrow> proc list" where
  "sy_procs s \<equiv> pt_procs (sy_pt s)"

abbreviation sproc :: "sys \<Rightarrow> nat \<Rightarrow> proc" where
  "sproc s i \<equiv> pt_procs (sy_pt s) ! i"

definition upd_pt :: "(ptable \<Rightarrow> ptable) \<Rightarrow> sys \<Rightarrow> sys" where
  "upd_pt f s = s\<lparr>sy_pt := f (sy_pt s)\<rparr>"

definition sy_set :: "nat \<Rightarrow> (proc \<Rightarrow> proc) \<Rightarrow> sys \<Rightarrow> sys" where
  "sy_set i f = upd_pt (set_proc i f)"

definition acquire_p :: "nat \<Rightarrow> sys \<Rightarrow> sys outcome" where
  "acquire_p i s = obind (acquire (sy_cpu s) (sy_hart s, p_lock (sproc s i))) (\<lambda>(h, lk).
     Done (sy_set i (\<lambda>p. p\<lparr>p_lock := lk\<rparr>) (s\<lparr>sy_hart := h\<rparr>)))"

definition release_p :: "nat \<Rightarrow> sys \<Rightarrow> sys outcome" where
  "release_p i s = obind (release (sy_cpu s) (sy_hart s, p_lock (sproc s i))) (\<lambda>(h, lk).
     Done (sy_set i (\<lambda>p. p\<lparr>p_lock := lk\<rparr>) (s\<lparr>sy_hart := h\<rparr>)))"

text \<open>\<^verbatim>\<open>mycpu()->proc\<close> between \<open>push_off\<close> and \<open>pop_off\<close>.\<close>

definition myproc :: "sys \<Rightarrow> (nat option \<times> sys) outcome" where
  "myproc s = obind (pop_off (push_off (sy_hart s))) (\<lambda>h. Done (sy_proc s, s\<lparr>sy_hart := h\<rparr>))"

text \<open>An assignment through \<^verbatim>\<open>p->usage_time\<close>.\<close>

definition upd_usage :: "nat \<Rightarrow> (cpu_usage \<Rightarrow> cpu_usage) \<Rightarrow> sys \<Rightarrow> sys outcome" where
  "upd_usage i f s = obind (deref (p_usage_time (sproc s i))) (\<lambda>(pa, u).
     Done (sy_set i (\<lambda>p. p\<lparr>p_usage_time := Some (pa, f u)\<rparr>) s))"

section \<open>Switching\<close>

definition sched :: "(sys \<Rightarrow> sys outcome) \<Rightarrow> sys \<Rightarrow> sys outcome" where
  "sched swtch s =
     obind (myproc s) (\<lambda>(mp, s).
     obind (deref mp) (\<lambda>i.
       if \<not> holding (sy_cpu s) (p_lock (sproc s i)) then Panic ''sched p->lock''
       else if noff (sy_hart s) \<noteq> 1 then Panic ''sched locks''
       else if p_state (sproc s i) = RUNNING then Panic ''sched running''
       else if intr_get (sy_hart s) then Panic ''sched interruptible''
       else (let ien = intena (sy_hart s) in
         obind (upd_usage i (\<lambda>u. u\<lparr>sum_of_ticks := sum_of_ticks u + (sy_ticks s - last_sched_tick u)\<rparr>) s) (\<lambda>s.
         obind (upd_usage i (\<lambda>u. u\<lparr>last_sched_tick := sy_ticks s\<rparr>) s) (\<lambda>s.
         obind (swtch s) (\<lambda>s. Done (s\<lparr>sy_hart := (sy_hart s)\<lparr>intena := ien\<rparr>\<rparr>)))))))"

definition yield :: "(sys \<Rightarrow> sys outcome) \<Rightarrow> sys \<Rightarrow> sys outcome" where
  "yield swtch s =
     obind (myproc s) (\<lambda>(mp, s).
     obind (deref mp) (\<lambda>i.
     obind (acquire_p i s) (\<lambda>s.
     obind (sched swtch (sy_set i (\<lambda>p. p\<lparr>p_state := RUNNABLE\<rparr>) s)) (\<lambda>s.
       release_p i s))))"

text \<open>
  \<open>sleep\<close> on \<open>ch\<close>; \<open>rel\<close> and \<open>acq\<close> release and take the lock that the caller passes.
\<close>

definition sleep :: "(sys \<Rightarrow> sys outcome) \<Rightarrow> chan \<Rightarrow> (sys \<Rightarrow> sys outcome) \<Rightarrow> (sys \<Rightarrow> sys outcome) \<Rightarrow>
    sys \<Rightarrow> sys outcome" where
  "sleep swtch ch rel acq s =
     obind (myproc s) (\<lambda>(mp, s).
     obind (deref mp) (\<lambda>i.
     obind (acquire_p i s) (\<lambda>s.
     obind (rel s) (\<lambda>s.
     let s = sy_set i (\<lambda>p. p\<lparr>p_chan := ch, p_state := SLEEPING\<rparr>) s in
     obind (sched swtch s) (\<lambda>s.
     let s = sy_set i (\<lambda>p. p\<lparr>p_chan := NoChan\<rparr>) s in
     obind (release_p i s) acq)))))"

section \<open>Threads\<close>

definition upd_thread :: "nat \<Rightarrow> nat \<Rightarrow> (thread \<Rightarrow> thread) \<Rightarrow> ptable \<Rightarrow> ptable" where
  "upd_thread i j f = set_proc i (\<lambda>p. p\<lparr>p_threads := (p_threads p)[j := f (p_threads p ! j)]\<rparr>)"

abbreviation pthread :: "ptable \<Rightarrow> nat \<Rightarrow> nat \<Rightarrow> thread" where
  "pthread st i j \<equiv> p_threads (pt_procs st ! i) ! j"

text \<open>
  The trap frame of a new thread: \<open>memset\<close> followed by the copy of the process's trap frame onto
  the page \<open>pa\<close>.
\<close>

definition thread_frame :: "u64 \<Rightarrow> proc \<Rightarrow> trapframe owned outcome" where
  "thread_frame pa p = obind (deref (p_trapframe p)) (\<lambda>(_, tf). Done (Some (pa, tf)))"

text \<open>The first call of \<open>create_thread\<close> makes the running code thread 1.\<close>

definition first_thread :: "nat \<Rightarrow> ptable \<Rightarrow> (bool option \<times> ptable) outcome" where
  "first_thread i st =
     (if p_current_thread (the_proc st i) = None then
        (case kalloc (pt_kmem st) of (pa, k) \<Rightarrow>
           if pa = 0 then Done (None, upd_thread i 0 (\<lambda>t. t\<lparr>t_trapframe := None\<rparr>) (set_kmem k st))
           else obind (thread_frame pa (the_proc st i)) (\<lambda>tf.
             Done (Some True, set_proc i (\<lambda>p. p\<lparr>p_current_thread := Some 0\<rparr>)
               (upd_thread i 0 (\<lambda>t. t\<lparr>t_trapframe := tf, t_id := 1, t_join := 0, t_state := THREAD_RUNNABLE\<rparr>)
                 (set_kmem k st)))))
      else Done (Some False, st))"

definition free_thread_slot :: "thread list \<Rightarrow> nat option" where
  "free_thread_slot ts = find (\<lambda>j. t_state (ts ! j) = THREAD_FREE) [0..<MAX_THREAD]"

definition free_thread :: "nat \<Rightarrow> nat \<Rightarrow> ptable \<Rightarrow> ptable outcome" where
  "free_thread i j st = obind (freethread (pthread st i j) (pt_kmem st)) (\<lambda>(t, k).
     Done (upd_thread i j (\<lambda>_. t) (set_kmem k st)))"

definition create_thread :: "u64 \<Rightarrow> u64 \<Rightarrow> u64 \<Rightarrow> nat \<Rightarrow> ptable \<Rightarrow> (u32 \<times> ptable) outcome" where
  "create_thread start_routine arg pstack i st =
     obind (first_thread i st) (\<lambda>(flag, st).
       case flag of
         None \<Rightarrow> Done (-1, st)
       | Some flag \<Rightarrow>
         (case free_thread_slot (p_threads (the_proc st i)) of
            None \<Rightarrow> Done (-1, st)
          | Some j \<Rightarrow>
            (case kalloc (pt_kmem st) of (pa, k) \<Rightarrow>
               let st = set_kmem k st in
               if pa = 0 then
                 (let st = upd_thread i j (\<lambda>t. t\<lparr>t_trapframe := None\<rparr>) st in
                  if flag then
                    obind (deref (p_current_thread (the_proc st i))) (\<lambda>c.
                    obind (free_thread i c st) (\<lambda>st. Done (-1, st)))
                  else Done (-1, st))
               else obind (thread_frame pa (the_proc st i)) (\<lambda>tf.
                 Done (of_nat (j + 1), upd_thread i j (\<lambda>t. t\<lparr>
                   t_trapframe := map_option (\<lambda>(pa, tf). (pa, tf\<lparr>tf_epc := start_routine, tf_sp := pstack,
                     tf_a0 := arg, tf_ra := -1\<rparr>)) tf,
                   t_id := of_nat (j + 1), t_state := THREAD_RUNNABLE\<rparr>) st)))))"

text \<open>\<open>join_thread\<close> searches for the target, blocks the calling thread and yields.\<close>

definition find_thread :: "u32 \<Rightarrow> thread list \<Rightarrow> nat option" where
  "find_thread tid ts = find (\<lambda>j. t_id (ts ! j) = tid \<and> t_state (ts ! j) \<noteq> THREAD_FREE) [0..<MAX_THREAD]"

definition join_thread :: "(sys \<Rightarrow> sys outcome) \<Rightarrow> u32 \<Rightarrow> nat \<Rightarrow> sys \<Rightarrow> (int \<times> sys) outcome" where
  "join_thread swtch tid i s =
     (let caller = p_current_thread (sproc s i) in
      if find_thread tid (p_threads (sproc s i)) = None then Done (-1, s)
      else obind (deref caller) (\<lambda>c.
        let s = upd_pt (upd_thread i c (\<lambda>t. t\<lparr>t_join := tid, t_state := THREAD_JOINED\<rparr>)) s in
        obind (yield swtch s) (\<lambda>s. Done (0, s))))"

text \<open>The loop of \<open>exit_t\<close>: it wakes the joiners and remembers the last slot with the identifier.\<close>

fun exit_scan :: "u32 \<Rightarrow> nat \<Rightarrow> nat list \<Rightarrow> nat option \<Rightarrow> ptable \<Rightarrow> nat option \<times> ptable" where
  "exit_scan tid i [] target st = (target, st)"
| "exit_scan tid i (j # js) target st =
     (let st = (if t_join (pthread st i j) = tid
                then upd_thread i j (\<lambda>t. t\<lparr>t_state := THREAD_RUNNABLE, t_join := 0\<rparr>) st else st);
          target = (if t_id (pthread st i j) = tid then Some j else target)
      in exit_scan tid i js target st)"

definition exit_t :: "(sys \<Rightarrow> sys outcome) \<Rightarrow> u32 \<Rightarrow> nat \<Rightarrow> sys \<Rightarrow> (int \<times> sys) outcome" where
  "exit_t swtch tid i s =
     (case exit_scan tid i [0..<MAX_THREAD] None (sy_pt s) of (target, st) \<Rightarrow>
        let s = s\<lparr>sy_pt := st\<rparr> in
        case target of
          None \<Rightarrow> Done (-1, s)
        | Some j \<Rightarrow>
          if t_state (pthread st i j) = THREAD_FREE then Done (-1, s)
          else obind (free_thread i j st) (\<lambda>st.
               obind (yield swtch (s\<lparr>sy_pt := st\<rparr>)) (\<lambda>s. Done (0, s))))"

definition exit_thread :: "(sys \<Rightarrow> sys outcome) \<Rightarrow> u32 \<Rightarrow> nat \<Rightarrow> sys \<Rightarrow> (int \<times> sys) outcome" where
  "exit_thread swtch tid i s =
     (if tid = -1
      then obind (deref (p_current_thread (sproc s i))) (\<lambda>t. exit_t swtch (t_id (pthread (sy_pt s) i t)) i s)
      else exit_t swtch tid i s)"

section \<open>Basic facts\<close>

lemma upd_thread_simps [simp]:
  "pt_procs (upd_thread i j f st) =
     upd_proc i (\<lambda>p. p\<lparr>p_threads := (p_threads p)[j := f (p_threads p ! j)]\<rparr>) (pt_procs st)"
  "pt_kmem (upd_thread i j f st) = pt_kmem st"
  by (simp_all add: upd_thread_def)

lemma four_threads: "[0..<MAX_THREAD] = [0, 1, 2, 3]"
  by (simp add: upt_rec)

lemma all_threads: "(\<forall>j<MAX_THREAD. P j) \<longleftrightarrow> P 0 \<and> P 1 \<and> P 2 \<and> P (3 :: nat)"
  by (auto simp: less_Suc_eq numeral_eq_Suc)

lemma upd_pt_simps [simp]:
  "sy_pt (upd_pt f s) = f (sy_pt s)" "sy_ticks (upd_pt f s) = sy_ticks s" "sy_q (upd_pt f s) = sy_q s"
  "sy_hart (upd_pt f s) = sy_hart s" "sy_cpu (upd_pt f s) = sy_cpu s" "sy_proc (upd_pt f s) = sy_proc s"
  by (simp_all add: upd_pt_def)

lemma sy_set_simps [simp]:
  "sy_procs (sy_set i f s) = upd_proc i f (sy_procs s)" "sy_pq (sy_set i f s) = sy_pq s"
  "sy_q (sy_set i f s) = sy_q s" "sy_ticks (sy_set i f s) = sy_ticks s"
  "sy_cpu (sy_set i f s) = sy_cpu s" "sy_hart (sy_set i f s) = sy_hart s"
  "sy_proc (sy_set i f s) = sy_proc s"
  by (simp_all add: sy_set_def upd_pt_def)

section \<open>The table of threads\<close>

text \<open>
  A free slot holds no trap frame, identifier or join; every other slot holds a trap frame and
  the identifier of its position, and a joined thread waits for some thread.
\<close>

definition thread_ok :: "nat \<Rightarrow> thread \<Rightarrow> bool" where
  "thread_ok j t \<longleftrightarrow>
     (if t_state t = THREAD_FREE then t_trapframe t = None \<and> t_id t = 0 \<and> t_join t = 0
      else t_trapframe t \<noteq> None \<and> t_id t = of_nat (j + 1)) \<and>
     (t_state t = THREAD_JOINED \<longrightarrow> t_join t \<noteq> 0)"

definition threads_ok :: "thread list \<Rightarrow> bool" where
  "threads_ok ts \<longleftrightarrow> length ts = MAX_THREAD \<and> (\<forall>j<MAX_THREAD. thread_ok j (ts ! j))"

lemma threads_ok_update:
  "threads_ok ts \<Longrightarrow> (j < MAX_THREAD \<Longrightarrow> thread_ok j t) \<Longrightarrow> threads_ok (ts[j := t])"
  unfolding threads_ok_def by (cases "j < MAX_THREAD") (simp_all add: nth_list_update list_update_beyond)

lemma thread_ok_nth: "threads_ok ts \<Longrightarrow> j < MAX_THREAD \<Longrightarrow> thread_ok j (ts ! j)"
  by (simp add: threads_ok_def)

lemma find_upt_less: "find P [0..<n] = Some j \<Longrightarrow> j < n \<and> P j"
  by (auto simp: find_Some_iff)

lemma exit_scan_ok:
  assumes "tid \<noteq> 0" and "i < length (pt_procs st)" and "threads_ok (p_threads (the_proc st i))"
    and "\<forall>j\<in>set js. j < MAX_THREAD" and "exit_scan tid i js target st = (target', st')"
  shows "threads_ok (p_threads (the_proc st' i)) \<and> length (pt_procs st') = length (pt_procs st)"
  using assms(2-5)
proof (induction js arbitrary: target st)
  case (Cons j js)
  let ?st = "if t_join (pthread st i j) = tid
      then upd_thread i j (\<lambda>t. t\<lparr>t_state := THREAD_RUNNABLE, t_join := 0\<rparr>) st else st"
  have "thread_ok j (pthread st i j)" using Cons.prems(2,3) by (simp add: thread_ok_nth)
  then have "t_join (pthread st i j) = tid \<Longrightarrow>
      thread_ok j ((pthread st i j)\<lparr>t_state := THREAD_RUNNABLE, t_join := 0\<rparr>)"
    using assms(1) by (auto simp: thread_ok_def split: if_splits)
  then have "threads_ok (p_threads (the_proc ?st i))"
    using Cons.prems(1,2) by (auto intro: threads_ok_update)
  moreover have "length (pt_procs ?st) = length (pt_procs st)" by simp
  ultimately show ?case
    using Cons.IH [of ?st] Cons.prems(1,3,4) by (auto simp: Let_def)
qed simp

lemma free_thread_ok:
  assumes "i < length (pt_procs st)" and "threads_ok (p_threads (the_proc st i))"
    and "free_thread i j st = Done st'"
  shows "threads_ok (p_threads (the_proc st' i))"
  using assms by (auto simp: free_thread_def freethread_def outcome_simps thread_ok_def
      intro!: threads_ok_update)

lemma upd_thread_ok:
  assumes "i < length (pt_procs st)" and "threads_ok (p_threads (the_proc st i))"
    and "j < MAX_THREAD \<Longrightarrow> thread_ok j (f (pthread st i j))"
  shows "threads_ok (p_threads (the_proc (upd_thread i j f st) i))"
  using assms by (auto intro: threads_ok_update)

lemma first_thread_ok:
  assumes "i < length (pt_procs st)" and "threads_ok (p_threads (the_proc st i))"
    and "p_current_thread (the_proc st i) = None \<Longrightarrow> t_state (pthread st i 0) = THREAD_FREE"
    and "first_thread i st = Done (flag, st')"
  shows "i < length (pt_procs st')" and "threads_ok (p_threads (the_proc st' i))"
proof -
  have t0: "thread_ok 0 (pthread st i 0)" by (rule thread_ok_nth [OF assms(2)]) simp
  have "i < length (pt_procs st') \<and> threads_ok (p_threads (the_proc st' i))"
    using assms t0 by (cases "kalloc (pt_kmem st)")
      (auto simp: first_thread_def thread_frame_def outcome_simps thread_ok_def split: if_splits
        intro!: threads_ok_update)
  then show "i < length (pt_procs st')" "threads_ok (p_threads (the_proc st' i))" by simp_all
qed

lemma create_thread_ok:
  assumes "i < length (pt_procs st)" and "threads_ok (p_threads (the_proc st i))"
    and "p_current_thread (the_proc st i) = None \<Longrightarrow> t_state (pthread st i 0) = THREAD_FREE"
    and "create_thread fn arg sp i st = Done (r, st')"
  shows "threads_ok (p_threads (the_proc st' i))"
proof -
  from assms(4) obtain flag st1 where f: "first_thread i st = Done (flag, st1)"
    by (auto simp: create_thread_def outcome_simps)
  note ok = first_thread_ok [OF assms(1-3) f]
  show ?thesis
  proof (cases "flag = None \<or> free_thread_slot (p_threads (the_proc st1 i)) = None")
    case True
    then have "st' = st1" using assms(4) f by (auto simp: create_thread_def split: option.splits)
    then show ?thesis using ok(2) by simp
  next
    case False
    then obtain fl j where j: "flag = Some fl" "free_thread_slot (p_threads (the_proc st1 i)) = Some j" by auto
    have jt: "thread_ok j (pthread st1 i j)" "t_state (pthread st1 i j) = THREAD_FREE"
      using find_upt_less [OF j(2) [unfolded free_thread_slot_def]] thread_ok_nth [OF ok(2)] by simp_all
    obtain pa k where k: "kalloc (pt_kmem st1) = (pa, k)" by (cases "kalloc (pt_kmem st1)")
    have drop: "threads_ok (p_threads (the_proc (upd_thread i j (\<lambda>t. t\<lparr>t_trapframe := None\<rparr>) (set_kmem k st1)) i))"
      by (rule upd_thread_ok) (use ok jt in \<open>auto simp: thread_ok_def\<close>)
    show ?thesis
      using assms(4) f j k drop ok jt
      by (auto simp: create_thread_def thread_frame_def outcome_simps Let_def thread_ok_def split: if_splits
          intro!: threads_ok_update dest!: free_thread_ok [rotated 2])
  qed
qed

lemma exit_scan_threads:
  assumes "i < length (pt_procs st)" and "length (p_threads (the_proc st i)) = MAX_THREAD" and "n \<le> MAX_THREAD"
    and "exit_scan tid i [n..<MAX_THREAD] target st = (target', st')" and "j < MAX_THREAD"
  shows "pthread st' i j = (if n \<le> j \<and> t_join (pthread st i j) = tid
    then (pthread st i j)\<lparr>t_state := THREAD_RUNNABLE, t_join := 0\<rparr> else pthread st i j)"
  using assms
proof (induction "MAX_THREAD - n" arbitrary: n st target)
  case 0
  then show ?case by simp
next
  case (Suc d)
  let ?st = "if t_join (pthread st i n) = tid
      then upd_thread i n (\<lambda>t. t\<lparr>t_state := THREAD_RUNNABLE, t_join := 0\<rparr>) st else st"
  have n: "n < MAX_THREAD" "[n..<MAX_THREAD] = n # [Suc n..<MAX_THREAD]"
    using Suc.hyps(2) by (simp_all add: upt_conv_Cons)
  have "pthread st' i j = (if Suc n \<le> j \<and> t_join (pthread ?st i j) = tid
    then (pthread ?st i j)\<lparr>t_state := THREAD_RUNNABLE, t_join := 0\<rparr> else pthread ?st i j)"
    by (rule Suc.hyps(1)) (use Suc.hyps(2) Suc.prems n in \<open>auto simp: Let_def simp del: upt_Suc\<close>)
  then show ?case using Suc.prems(1,2) n(1) by (cases "j = n") (auto split: if_splits)
qed

section \<open>Properties\<close>


section \<open>Giving up the CPU\<close>

lemma push_pop_hart:
  assumes "0 \<le> noff h" and "noff h = 0 \<or> \<not> intr_get h"
  shows "\<exists>h'. pop_off (push_off h) = Done h' \<and> noff h' = noff h \<and> (intr_get h' \<longleftrightarrow> intr_get h) \<and>
    (noff h \<noteq> 0 \<longrightarrow> intena h' = intena h)"
  using assms by (auto simp: pop_off_def Let_def intr_get_bit intr_on_def SSTATUS_SIE_def bit_simps
      push_off_def intr_off_def)

lemma acquire_p_free:
  assumes "lk_locked (p_lock (sproc s i)) = 0"
  shows "\<exists>lk. acquire_p i s = Done (sy_set i (\<lambda>p. p\<lparr>p_lock := lk\<rparr>) (s\<lparr>sy_hart := push_off (sy_hart s)\<rparr>)) \<and>
    holding (sy_cpu s) lk"
  using assms by (intro exI [of _ "(p_lock (sproc s i))\<lparr>lk_locked := 1, lk_cpu := Some (sy_cpu s)\<rparr>"])
    (simp add: acquire_p_def acquire_def test_and_set_def holding_def Let_def)

lemma release_p_last:
  assumes "holding (sy_cpu s) (p_lock (sproc s i))" and "noff (sy_hart s) = 1" and "\<not> intr_get (sy_hart s)"
  shows "\<exists>s'. release_p i s = Done s' \<and> noff (sy_hart s') = 0 \<and>
    (intr_get (sy_hart s') \<longleftrightarrow> intena (sy_hart s)) \<and> sy_cpu s' = sy_cpu s \<and> sy_proc s' = sy_proc s"
proof -
  have "intr_get (h\<lparr>noff := n\<rparr>) = intr_get h" for h n by (simp add: intr_get_def)
  then show ?thesis using assms by (simp add: release_p_def release_def pop_off_def Let_def)
qed

text \<open>What \<open>swtch\<close> returns to: the scheduler of some CPU holds the process's lock and no other.\<close>

definition resumes :: "nat \<Rightarrow> sys \<Rightarrow> bool" where
  "resumes i s \<longleftrightarrow> holding (sy_cpu s) (p_lock (sproc s i)) \<and> noff (sy_hart s) = 1 \<and>
     \<not> intr_get (sy_hart s)"

lemma sched_switches:
  assumes "sy_proc s = Some i" and "i < length (sy_procs s)" and "holding (sy_cpu s) (p_lock (sproc s i))"
    and "noff (sy_hart s) = 1" and "\<not> intr_get (sy_hart s)" and "p_state (sproc s i) \<noteq> RUNNING"
    and "p_usage_time (sproc s i) = Some (pa, u)"
    and "\<And>s1. \<exists>s2. swtch s1 = Done s2 \<and> resumes i s2"
  shows "\<exists>s2. sched swtch s = Done (s2\<lparr>sy_hart := (sy_hart s2)\<lparr>intena := intena (sy_hart s)\<rparr>\<rparr>) \<and> resumes i s2"
proof -
  obtain h where h: "pop_off (push_off (sy_hart s)) = Done h" "noff h = 1" "\<not> intr_get h"
    "intena h = intena (sy_hart s)"
    using push_pop_hart [of "sy_hart s"] assms(4,5) by auto
  let ?s = "sy_set i (\<lambda>p. p\<lparr>p_usage_time := Some (pa, u\<lparr>sum_of_ticks := sum_of_ticks u +
      (sy_ticks s - last_sched_tick u), last_sched_tick := sy_ticks s\<rparr>)\<rparr>)
    (sy_set i (\<lambda>p. p\<lparr>p_usage_time := Some (pa, u\<lparr>sum_of_ticks := sum_of_ticks u +
      (sy_ticks s - last_sched_tick u)\<rparr>)\<rparr>) (s\<lparr>sy_hart := h\<rparr>))"
  obtain s2 where s2: "swtch ?s = Done s2" "resumes i s2" using assms(8) by blast
  then have "sched swtch s = Done (s2\<lparr>sy_hart := (sy_hart s2)\<lparr>intena := intena (sy_hart s)\<rparr>\<rparr>)"
    using assms(1-7) h by (simp add: sched_def myproc_def upd_usage_def Let_def)
  then show ?thesis using s2(2) by blast
qed


section \<open>Witnesses\<close>

definition demo_frame :: "u64 \<Rightarrow> trapframe owned" where
  "demo_frame pa = Some (pa, junk_trapframe)"

text \<open>A process with two threads, the first of which waits for the second.\<close>

definition demo_threads :: "thread list" where
  "demo_threads = [\<lparr>t_state = THREAD_JOINED, t_trapframe = demo_frame 0x87ffe000, t_id = 1, t_join = 2\<rparr>,
     \<lparr>t_state = THREAD_RUNNING, t_trapframe = demo_frame 0x87fff000, t_id = 2, t_join = 0\<rparr>,
     zero_thread, zero_thread]"

definition demo_proc :: proc where
  "demo_proc = zero_proc\<lparr>p_state := RUNNING, p_pid := 1, p_trapframe := demo_frame 0x87ffd000,
     p_usage_time := Some (0x87ffc000, \<lparr>sum_of_ticks = 3, start_tick = 1, quota = 50, last_sched_tick = 9,
       deadline = 100\<rparr>), p_threads := demo_threads, p_current_thread := Some 1\<rparr>"

definition demo_table :: ptable where
  "demo_table = \<lparr>pt_procs = [demo_proc], pt_kmem = small_kmem, pt_nextpid = 2, pt_initproc = Some 0,
     pt_trampoline = 0x80007000, pt_forkret = 0x80001000\<rparr>"

definition demo_sys :: sys where
  "demo_sys = \<lparr>sy_pt = demo_table, sy_ticks = 10,
     sy_pq = \<lparr>pq_heap = replicate NPROC 0, pq_size = 0, pq_lock = initlock ''pq_lock''\<rparr>,
     sy_q = \<lparr>q_procs = replicate NPROC 0, q_front = 0, q_rear = 0, q_size = 0, q_lock = initlock ''queue_lock''\<rparr>,
     sy_cpu = 0, sy_hart = \<lparr>sstatus = 2, noff = 0, intena = False\<rparr>, sy_proc = Some 0\<rparr>"

text \<open>A switch after which CPU 3 resumes the process.\<close>

definition demo_swtch :: "sys \<Rightarrow> sys outcome" where
  "demo_swtch s = Done (demo_sys\<lparr>sy_cpu := 3, sy_hart := \<lparr>sstatus = 0, noff = 1, intena = False\<rparr>,
     sy_pt := demo_table\<lparr>pt_procs := [demo_proc\<lparr>p_lock := \<lparr>lk_locked = 1, lk_name = ''proc'', lk_cpu = Some 3\<rparr>\<rparr>]\<rparr>\<rparr>)"



end
