(* ===== verification/Scheduler.thy ===== *)
theory Scheduler
  imports Sched
begin

text \<open>
  The loop \<open>scheduler\<close> of \<^verbatim>\<open>kernel/proc.c\<close>: fill the heap with the runnable processes, take the
  first one whose deadline has not passed, fall back on the queue of processes over their
  quota, and switch to the threads of the chosen process. \<open>swtch\<close> is the parameter that stands
  for running the process until it switches back.
\<close>

section \<open>Choosing a process\<close>

definition fill1 :: "nat \<Rightarrow> sys \<Rightarrow> sys outcome" where
  "fill1 i s = obind (pq_check_and_push (sy_procs s) (sy_pq s) i) (\<lambda>(_, pq). Done (s\<lparr>sy_pq := pq\<rparr>))"

definition fill_pq :: "sys \<Rightarrow> sys outcome" where
  "fill_pq s = ofold fill1 [0..<length (sy_procs s)] s"

definition set_procs :: "proc list \<Rightarrow> sys \<Rightarrow> sys" where
  "set_procs ps = upd_pt (\<lambda>st. st\<lparr>pt_procs := ps\<rparr>)"

lemma pq_pop_shrinks:
  "pq_pop ps pq = Done (Some c, ps', pq') \<Longrightarrow> pq_size pq' < pq_size pq"
  by (auto simp: pq_pop_def Let_def outcome_simps split: if_splits)

text \<open>The \<^verbatim>\<open>while (flag == 0)\<close> loop: processes past their deadline are dropped.\<close>

function choose_runnable :: "sys \<Rightarrow> (nat option \<times> sys) outcome" where
  "choose_runnable s =
     obind (pq_pop (sy_procs s) (sy_pq s)) (\<lambda>(chosen, ps, pq).
       let s = set_procs ps (s\<lparr>sy_pq := pq\<rparr>) in
       case chosen of
         None \<Rightarrow> Done (None, s)
       | Some c \<Rightarrow> obind (usage_of (sy_procs s) c) (\<lambda>u.
           if deadline u \<le> sy_ticks s then choose_runnable (sy_set c (\<lambda>p. p\<lparr>p_state := DROPPED\<rparr>) s)
           else Done (Some c, s)))"
  by pat_completeness auto
termination
  by (relation "measure (\<lambda>s. pq_size (sy_pq s))")
    (auto dest: pq_pop_shrinks simp: set_procs_def sy_set_def upd_pt_def)

declare choose_runnable.simps [simp del]

definition choose_queued :: "nat option \<times> sys \<Rightarrow> nat option \<times> sys" where
  "choose_queued = (\<lambda>(chosen, s).
     case chosen of
       None \<Rightarrow> (case pop (sy_q s) of (c, q) \<Rightarrow> (c, s\<lparr>sy_q := q\<rparr>))
     | Some c \<Rightarrow> (Some c, s))"

definition pick_next :: "sys \<Rightarrow> (nat option \<times> sys) outcome" where
  "pick_next s = obind (fill_pq s) (\<lambda>s. obind (choose_runnable s) (\<lambda>r. Done (choose_queued r)))"

section \<open>Running it\<close>

definition start_run :: "nat \<Rightarrow> sys \<Rightarrow> sys outcome" where
  "start_run i s = upd_usage i (\<lambda>u.
     let u = (if start_tick u = 0 then u\<lparr>start_tick := sy_ticks s\<rparr> else u)
     in u\<lparr>last_sched_tick := sy_ticks s\<rparr>) s"

text \<open>What the scheduler does when the process has switched back.\<close>

definition account :: "nat \<Rightarrow> sys \<Rightarrow> sys outcome" where
  "account i s =
     obind (upd_usage i (\<lambda>u. u\<lparr>sum_of_ticks := sum_of_ticks u + (sy_ticks s - last_sched_tick u)\<rparr>) s) (\<lambda>s.
     obind (usage_of (sy_procs s) i) (\<lambda>u.
       if deadline u \<le> sy_ticks s \<and> p_state (sproc s i) = RUNNABLE
       then Done (sy_set i (\<lambda>p. p\<lparr>p_state := DROPPED\<rparr>) s)
       else if quota u \<le> sum_of_ticks u \<and> p_state (sproc s i) = RUNNABLE
       then Done ((sy_set i (\<lambda>p. p\<lparr>p_state := PASSED_QUOTA\<rparr>) s)\<lparr>sy_q := snd (enqueue (sy_q s) i)\<rparr>)
       else Done s))"

text \<open>The assignments between the trap frames of the process and of thread \<open>j\<close>.\<close>

definition save_frame :: "nat \<Rightarrow> nat \<Rightarrow> sys \<Rightarrow> sys outcome" where
  "save_frame i j s =
     obind (deref (t_trapframe (pthread (sy_pt s) i j))) (\<lambda>(pa, _).
     obind (deref (p_trapframe (sproc s i))) (\<lambda>(_, tf).
       Done (upd_pt (upd_thread i j (\<lambda>t. t\<lparr>t_trapframe := Some (pa, tf)\<rparr>)) s)))"

definition load_frame :: "nat \<Rightarrow> nat \<Rightarrow> sys \<Rightarrow> sys outcome" where
  "load_frame i j s =
     obind (deref (p_trapframe (sproc s i))) (\<lambda>(pa, _).
     obind (deref (t_trapframe (pthread (sy_pt s) i j))) (\<lambda>(_, tf).
       Done (sy_set i (\<lambda>p. p\<lparr>p_trapframe := Some (pa, tf)\<rparr>) s)))"

fun thread_loop :: "(sys \<Rightarrow> sys outcome) \<Rightarrow> nat \<Rightarrow> nat list \<Rightarrow> sys \<Rightarrow> sys outcome" where
  "thread_loop swtch i [] s = Done s"
| "thread_loop swtch i (j # js) s =
     (if t_state (pthread (sy_pt s) i j) = THREAD_RUNNABLE then
        obind (load_frame i j (upd_pt (upd_thread i j (\<lambda>t. t\<lparr>t_state := THREAD_RUNNING\<rparr>)) s)) (\<lambda>s.
        obind (start_run i (sy_set i (\<lambda>p. p\<lparr>p_current_thread := Some j\<rparr>) s)) (\<lambda>s.
        obind (swtch s) (\<lambda>s.
        obind (account i s) (\<lambda>s.
          if p_state (sproc s i) = ZOMBIE \<or> p_state (sproc s i) = UNUSED then Done s
          else
            (let s = (if t_state (pthread (sy_pt s) i j) = THREAD_RUNNING
                      then upd_pt (upd_thread i j (\<lambda>t. t\<lparr>t_state := THREAD_RUNNABLE\<rparr>)) s else s) in
             obind (if t_state (pthread (sy_pt s) i j) \<noteq> THREAD_FREE then save_frame i j s else Done s)
               (thread_loop swtch i js))))))
      else thread_loop swtch i js s)"

definition run_process :: "(sys \<Rightarrow> sys outcome) \<Rightarrow> nat \<Rightarrow> sys \<Rightarrow> sys outcome" where
  "run_process swtch i s =
     (case p_current_thread (sproc s i) of
        Some c \<Rightarrow>
          obind (if t_state (pthread (sy_pt s) i c) \<noteq> THREAD_FREE then save_frame i c s else Done s)
            (thread_loop swtch i [0..<MAX_THREAD])
      | None \<Rightarrow>
          obind (start_run i s) (\<lambda>s. obind (swtch s) (account i)))"

definition dispatch :: "(sys \<Rightarrow> sys outcome) \<Rightarrow> nat \<Rightarrow> sys \<Rightarrow> sys outcome" where
  "dispatch swtch i s =
     obind (acquire_p i s) (\<lambda>s.
     let s = (sy_set i (\<lambda>p. p\<lparr>p_state := RUNNING\<rparr>) s)\<lparr>sy_proc := Some i\<rparr> in
     obind (run_process swtch i s) (\<lambda>s.
     let s = (if p_state (sproc s i) = RUNNING then sy_set i (\<lambda>p. p\<lparr>p_state := RUNNABLE\<rparr>) s else s);
         s = s\<lparr>sy_proc := None\<rparr> in
     release_p i s))"

text \<open>
  One round of the loop; the result says whether a process was found, otherwise the CPU waits
  for an interrupt.
\<close>

definition scheduler_round :: "(sys \<Rightarrow> sys outcome) \<Rightarrow> sys \<Rightarrow> (bool \<times> sys) outcome" where
  "scheduler_round swtch s =
     (let s = s\<lparr>sy_hart := intr_on (sy_hart s)\<rparr> in
      obind (pick_next s) (\<lambda>(chosen, s).
        case chosen of
          Some c \<Rightarrow> obind (dispatch swtch c s) (\<lambda>s. Done (True, s))
        | None \<Rightarrow> Done (False, s\<lparr>sy_hart := intr_on (sy_hart s)\<rparr>)))"

text \<open>\<open>scheduler\<close> never returns; its state after \<open>n\<close> rounds.\<close>

fun scheduler_rounds :: "(sys \<Rightarrow> sys outcome) \<Rightarrow> nat \<Rightarrow> sys \<Rightarrow> sys outcome" where
  "scheduler_rounds swtch 0 s = Done s"
| "scheduler_rounds swtch (Suc n) s =
     obind (scheduler_round swtch s) (\<lambda>(_, s). scheduler_rounds swtch n s)"

definition scheduler :: "(sys \<Rightarrow> sys outcome) \<Rightarrow> nat \<Rightarrow> sys \<Rightarrow> sys outcome" where
  "scheduler swtch n s = scheduler_rounds swtch n (s\<lparr>sy_proc := None\<rparr>)"

section \<open>The choice\<close>

text \<open>
  What the scheduler relies on: a heap without duplicates over a table of \<^verbatim>\<open>NPROC\<close> slots, and a
  usage record for every runnable process.
\<close>

definition sched_ok :: "sys \<Rightarrow> bool" where
  "sched_ok s \<longleftrightarrow> length (sy_procs s) = NPROC \<and> pq_wf (sy_procs s) (sy_pq s) \<and>
     distinct (take (pq_size (sy_pq s)) (pq_heap (sy_pq s))) \<and>
     (\<forall>i<NPROC. p_state (sproc s i) = RUNNABLE \<longrightarrow> has_usage (sy_procs s) i)"

abbreviation heap_set :: "sys \<Rightarrow> nat set" where
  "heap_set s \<equiv> set (take (pq_size (sy_pq s)) (pq_heap (sy_pq s)))"

abbreviation runnable :: "sys \<Rightarrow> nat \<Rightarrow> bool" where
  "runnable s i \<equiv> p_state (sproc s i) = RUNNABLE"

lemma fill1_ok:
  assumes "sched_ok s" and "i < NPROC"
  shows "\<exists>pq. fill1 i s = Done (s\<lparr>sy_pq := pq\<rparr>) \<and> sched_ok (s\<lparr>sy_pq := pq\<rparr>) \<and>
    heap_set (s\<lparr>sy_pq := pq\<rparr>) = heap_set s \<union> {j. j = i \<and> runnable s j}"
proof -
  have "\<exists>r pq'. pq_check_and_push (sy_procs s) (sy_pq s) i = Done (r, pq') \<and> pq_wf (sy_procs s) pq' \<and>
    distinct (take (pq_size pq') (pq_heap pq')) \<and>
    (r = 1 \<longleftrightarrow> runnable s i \<and> i \<notin># pq_elems (sy_pq s)) \<and>
    pq_elems pq' = pq_elems (sy_pq s) + (if r = 1 then {#i#} else {#})"
    by (rule check_and_push_result) (use assms in \<open>simp_all add: sched_ok_def\<close>)
  then obtain r pq where r: "pq_check_and_push (sy_procs s) (sy_pq s) i = Done (r, pq)"
    "pq_wf (sy_procs s) pq" "distinct (take (pq_size pq) (pq_heap pq))"
    "r = 1 \<longleftrightarrow> runnable s i \<and> i \<notin># pq_elems (sy_pq s)"
    "pq_elems pq = pq_elems (sy_pq s) + (if r = 1 then {#i#} else {#})"
    by blast
  have "set_mset (pq_elems pq) = set_mset (pq_elems (sy_pq s)) \<union> {j. j = i \<and> runnable s j}"
    using r(4,5) by auto
  then show ?thesis using r(1-3) assms(1)
    by (intro exI [of _ pq]) (simp add: fill1_def sched_ok_def pq_elems_def)
qed

lemma fill_prefix:
  assumes "sched_ok s" and "n \<le> NPROC"
  shows "\<exists>pq. ofold fill1 [0..<n] s = Done (s\<lparr>sy_pq := pq\<rparr>) \<and> sched_ok (s\<lparr>sy_pq := pq\<rparr>) \<and>
    heap_set (s\<lparr>sy_pq := pq\<rparr>) = heap_set s \<union> {j. j < n \<and> runnable s j}"
  using assms(2)
proof (induction n)
  case 0
  then show ?case using assms(1) by (intro exI [of _ "sy_pq s"]) simp
next
  case (Suc n)
  then obtain pq where pq: "ofold fill1 [0..<n] s = Done (s\<lparr>sy_pq := pq\<rparr>)" "sched_ok (s\<lparr>sy_pq := pq\<rparr>)"
    "heap_set (s\<lparr>sy_pq := pq\<rparr>) = heap_set s \<union> {j. j < n \<and> runnable s j}"
    by auto
  then show ?case using fill1_ok [OF pq(2), of n] Suc.prems by (auto simp: ofold_append less_Suc_eq)
qed

lemma fill_pq_ok:
  assumes "sched_ok s"
  obtains pq where "fill_pq s = Done (s\<lparr>sy_pq := pq\<rparr>)" and "sched_ok (s\<lparr>sy_pq := pq\<rparr>)"
    and "heap_set (s\<lparr>sy_pq := pq\<rparr>) = heap_set s \<union> {j. j < NPROC \<and> runnable s j}"
proof -
  have "length (sy_procs s) = NPROC" using assms by (simp add: sched_ok_def)
  then show thesis using fill_prefix [OF assms order.refl] that unfolding fill_pq_def by auto
qed

text \<open>
  The loop that pops: \<open>D\<close> are the processes that it drops.
\<close>

abbreviation expired :: "sys \<Rightarrow> nat \<Rightarrow> bool" where
  "expired s i \<equiv> deadline (the_usage (sy_procs s) i) \<le> sy_ticks s"

definition chosen :: "sys \<Rightarrow> nat option \<Rightarrow> sys \<Rightarrow> nat set \<Rightarrow> bool" where
  "chosen s c s' D \<longleftrightarrow> D \<subseteq> heap_set s \<and> (\<forall>i\<in>D. expired s i) \<and> sched_ok s' \<and>
     sy_q s' = sy_q s \<and> sy_ticks s' = sy_ticks s \<and>
     (\<forall>i<NPROC. p_state (sproc s' i) =
        (if i \<in> D then DROPPED else if c = Some i then CHOSEN_TO_RUN else p_state (sproc s i))) \<and>
     (case c of None \<Rightarrow> heap_set s' = {} \<and> D = heap_set s
      | Some x \<Rightarrow> x \<in> heap_set s - D \<and> \<not> expired s x \<and> heap_set s' = heap_set s - D - {x})"

lemma set_procs_simps [simp]:
  "sy_procs (set_procs ps s) = ps" "sy_pq (set_procs ps s) = sy_pq s" "sy_q (set_procs ps s) = sy_q s"
  "sy_ticks (set_procs ps s) = sy_ticks s"
  by (simp_all add: set_procs_def upd_pt_def)

lemma pop_distinct:
  assumes "sched_ok s" and "0 < pq_size (sy_pq s)"
  obtains pq' x where "x \<in> heap_set s" and "pq_wf (sy_procs s) pq'"
    and "pq_pop (sy_procs s) (sy_pq s) =
      Done (Some x, upd_proc x (\<lambda>p. p\<lparr>p_state := CHOSEN_TO_RUN\<rparr>) (sy_procs s), pq')"
    and "distinct (take (pq_size pq') (pq_heap pq'))"
    and "set (take (pq_size pq') (pq_heap pq')) = heap_set s - {x}" and "x < NPROC"
    and "has_usage (sy_procs s) x"
proof -
  let ?x = "pq_heap (sy_pq s) ! 0" and ?l = "take (pq_size (sy_pq s)) (pq_heap (sy_pq s))"
  have ok: "pq_wf (sy_procs s) (sy_pq s)" "distinct ?l" "length (sy_procs s) = NPROC"
    using assms(1) by (simp_all add: sched_ok_def)
  obtain pq' where p: "pq_pop (sy_procs s) (sy_pq s) =
      Done (Some ?x, upd_proc ?x (\<lambda>p. p\<lparr>p_state := CHOSEN_TO_RUN\<rparr>) (sy_procs s), pq')"
    "pq_wf (sy_procs s) pq'" "pq_elems pq' = pq_elems (sy_pq s) - {#?x#}"
    using pq_pop_root [OF ok(1) assms(2)] by blast
  have x: "?x \<in> heap_set s" using ok(1) assms(2) by (intro nth_mem_take) (simp_all add: pq_wf_def)
  let ?l' = "take (pq_size pq') (pq_heap pq')"
  have m: "mset ?l' = mset ?l - {#?x#}" using p(3) by (simp add: pq_elems_def)
  then have "mset (?x # ?l') = mset ?l" using x by simp
  then have "distinct (?x # ?l')" "set (?x # ?l') = set ?l"
    using ok(2) by (metis mset_eq_imp_distinct_iff, metis set_mset_mset)
  then have "distinct ?l'" "set ?l' = heap_set s - {?x}" by auto
  moreover have "?x < NPROC" "has_usage (sy_procs s) ?x" using ok x by (auto simp: pq_wf_def)
  ultimately show thesis using that x p(1,2) by blast
qed

lemma choose_runnable_chosen:
  "sched_ok s \<Longrightarrow> \<exists>c s' D. choose_runnable s = Done (c, s') \<and> chosen s c s' D"
proof (induction s rule: measure_induct_rule [where f = "\<lambda>s. pq_size (sy_pq s)"])
  case (less s)
  show ?case
  proof (cases "pq_size (sy_pq s) = 0")
    case True
    have "set_procs (sy_procs s) (s\<lparr>sy_pq := sy_pq s\<rparr>) = s" by (simp add: set_procs_def upd_pt_def)
    then have "choose_runnable s = Done (None, s)"
      using pq_pop_empty [OF True] by (subst choose_runnable.simps) (simp add: Let_def)
    then show ?thesis using less.prems True by (auto simp: chosen_def)
  next
    case False
    then have pos: "0 < pq_size (sy_pq s)" by simp
    obtain pq' x where x: "x \<in> heap_set s" "pq_wf (sy_procs s) pq'"
      "pq_pop (sy_procs s) (sy_pq s) =
        Done (Some x, upd_proc x (\<lambda>p. p\<lparr>p_state := CHOSEN_TO_RUN\<rparr>) (sy_procs s), pq')"
      "distinct (take (pq_size pq') (pq_heap pq'))"
      "set (take (pq_size pq') (pq_heap pq')) = heap_set s - {x}" "x < NPROC" "has_usage (sy_procs s) x"
      by (rule pop_distinct [OF less.prems pos])
    have len: "length (sy_procs s) = NPROC" using less.prems by (simp add: sched_ok_def)
    define s1 where "s1 = set_procs (upd_proc x (\<lambda>p. p\<lparr>p_state := CHOSEN_TO_RUN\<rparr>) (sy_procs s)) (s\<lparr>sy_pq := pq'\<rparr>)"
    define s2 where "s2 = sy_set x (\<lambda>p. p\<lparr>p_state := DROPPED\<rparr>) s1"
    have ok: "sched_ok s1" "sched_ok s2"
      using less.prems x unfolding s1_def s2_def sched_ok_def by (auto simp: nth_upd_proc)
    have ch: "choose_runnable s = (if expired s x then choose_runnable s2 else Done (Some x, s1))"
      using x(3) usage_of_Done [OF x(7)]
      by (subst choose_runnable.simps) (simp add: s1_def s2_def Let_def)
    show ?thesis
    proof (cases "expired s x")
      case True
      have "pq_size (sy_pq s2) < pq_size (sy_pq s)"
        using pq_pop_shrinks [OF x(3)] by (simp add: s1_def s2_def)
      from less.IH [OF this ok(2)] obtain c s' D where
        c: "choose_runnable s2 = Done (c, s')" "chosen s2 c s' D" by blast
      have h: "heap_set s2 = heap_set s - {x}" using x(5) by (simp add: s1_def s2_def)
      have u: "expired s2 i = expired s i" for i by (simp add: s1_def s2_def)
      have st: "p_state (sproc s2 i) = (if i = x then DROPPED else p_state (sproc s i))" if "i < NPROC" for i
        using that len x(6) by (auto simp: s1_def s2_def nth_upd_proc)
      have "chosen s c s' (insert x D)"
        using c(2) x(1) True st unfolding chosen_def h u
        by (auto simp: s1_def s2_def split: option.splits)
      then show ?thesis using ch True c(1) by auto
    next
      case False
      have "chosen s (Some x) s1 {}"
        using x ok(1) False len unfolding chosen_def by (auto simp: s1_def nth_upd_proc)
      then show ?thesis using ch False by auto
    qed
  qed
qed

section \<open>The choice of the scheduler\<close>

text \<open>
  Property C13: the scheduling policy. The candidates are the processes in the heap and all
  runnable ones. Choosing never panics. If a candidate's deadline lies ahead, the scheduler
  picks such a candidate and leaves the queue alone. Otherwise it drops every candidate and
  takes the oldest process over its quota, if there is one. Only processes past their
  deadline are dropped, and no other process but the chosen one changes state.
\<close>

theorem scheduler_deadline_policy:
  assumes "sched_ok s"
  shows "\<exists>c s' D. pick_next s = Done (c, s') \<and>
    D \<subseteq> heap_set s \<union> {j. j < NPROC \<and> runnable s j} \<and>
    (\<forall>i\<in>D. expired s i \<and> p_state (sproc s' i) = DROPPED) \<and>
    (\<forall>i<NPROC. i \<notin> D \<and> c \<noteq> Some i \<longrightarrow> p_state (sproc s' i) = p_state (sproc s i)) \<and>
    ((\<exists>i\<in>heap_set s \<union> {j. j < NPROC \<and> runnable s j}. \<not> expired s i) \<longrightarrow>
      (\<exists>x\<in>heap_set s \<union> {j. j < NPROC \<and> runnable s j}. c = Some x \<and> \<not> expired s x \<and>
         p_state (sproc s' x) = CHOSEN_TO_RUN \<and> sy_q s' = sy_q s)) \<and>
    ((\<forall>i\<in>heap_set s \<union> {j. j < NPROC \<and> runnable s j}. expired s i) \<longrightarrow>
      D = heap_set s \<union> {j. j < NPROC \<and> runnable s j} \<and> (c, sy_q s') = pop (sy_q s))"
proof -
  obtain pq where pq: "fill_pq s = Done (s\<lparr>sy_pq := pq\<rparr>)" "sched_ok (s\<lparr>sy_pq := pq\<rparr>)"
    "heap_set (s\<lparr>sy_pq := pq\<rparr>) = heap_set s \<union> {j. j < NPROC \<and> runnable s j}"
    by (rule fill_pq_ok [OF assms])
  obtain c s' D where c: "choose_runnable (s\<lparr>sy_pq := pq\<rparr>) = Done (c, s')" "chosen (s\<lparr>sy_pq := pq\<rparr>) c s' D"
    using choose_runnable_chosen [OF pq(2)] by blast
  define C where "C = heap_set s \<union> {j. j < NPROC \<and> runnable s j}"
  have C: "i < NPROC" if "i \<in> C" for i
    using that assms unfolding C_def by (auto simp: sched_ok_def pq_wf_def)
  have r: "D \<subseteq> C" "\<And>i. i \<in> D \<Longrightarrow> expired s i" "sy_q s' = sy_q s"
    "\<And>i. i < NPROC \<Longrightarrow> p_state (sproc s' i) =
       (if i \<in> D then DROPPED else if c = Some i then CHOSEN_TO_RUN else p_state (sproc s i))"
    "c = None \<Longrightarrow> D = C" "\<And>x. c = Some x \<Longrightarrow> x \<in> C - D \<and> \<not> expired s x"
    using c(2) unfolding chosen_def pq(3) C_def [symmetric] by simp_all
  show ?thesis unfolding C_def [symmetric]
  proof (cases c)
    case None
    obtain c' q' where q: "pop (sy_q s) = (c', q')" by (cases "pop (sy_q s)")
    have "pick_next s = Done (c', s'\<lparr>sy_q := q'\<rparr>)"
      using pq(1) c(1) None q r(3) by (simp add: pick_next_def choose_queued_def)
    moreover have "D = C" by (rule r(5) [OF None])
    moreover have "p_state (sproc s' i) = (if i \<in> C then DROPPED else p_state (sproc s i))" if "i < NPROC" for i
      using r(4) [OF that] None \<open>D = C\<close> by simp
    ultimately show "\<exists>c s' D. pick_next s = Done (c, s') \<and> D \<subseteq> C \<and>
      (\<forall>i\<in>D. expired s i \<and> p_state (sproc s' i) = DROPPED) \<and>
      (\<forall>i<NPROC. i \<notin> D \<and> c \<noteq> Some i \<longrightarrow> p_state (sproc s' i) = p_state (sproc s i)) \<and>
      ((\<exists>i\<in>C. \<not> expired s i) \<longrightarrow> (\<exists>x\<in>C. c = Some x \<and> \<not> expired s x \<and>
         p_state (sproc s' x) = CHOSEN_TO_RUN \<and> sy_q s' = sy_q s)) \<and>
      ((\<forall>i\<in>C. expired s i) \<longrightarrow> D = C \<and> (c, sy_q s') = pop (sy_q s))"
      using r(2) C q by (intro exI [of _ c'] exI [of _ "s'\<lparr>sy_q := q'\<rparr>"] exI [of _ C]) simp
  next
    case (Some x)
    have "pick_next s = Done (Some x, s')"
      using pq(1) c(1) Some by (simp add: pick_next_def choose_queued_def)
    moreover have x: "x \<in> C" "x \<notin> D" "\<not> expired s x" using r(6) [OF Some] by simp_all
    moreover have "p_state (sproc s' x) = CHOSEN_TO_RUN" using r(4) [OF C [OF x(1)]] x(2) Some by simp
    moreover have "p_state (sproc s' i) = DROPPED" if "i \<in> D" for i using r(4) C r(1) that by auto
    moreover have "p_state (sproc s' i) = p_state (sproc s i)" if "i < NPROC" "i \<notin> D" "i \<noteq> x" for i
      using r(4) [OF that(1)] that Some by simp
    ultimately show "\<exists>c s' D. pick_next s = Done (c, s') \<and> D \<subseteq> C \<and>
      (\<forall>i\<in>D. expired s i \<and> p_state (sproc s' i) = DROPPED) \<and>
      (\<forall>i<NPROC. i \<notin> D \<and> c \<noteq> Some i \<longrightarrow> p_state (sproc s' i) = p_state (sproc s i)) \<and>
      ((\<exists>i\<in>C. \<not> expired s i) \<longrightarrow> (\<exists>x\<in>C. c = Some x \<and> \<not> expired s x \<and>
         p_state (sproc s' x) = CHOSEN_TO_RUN \<and> sy_q s' = sy_q s)) \<and>
      ((\<forall>i\<in>C. expired s i) \<longrightarrow> D = C \<and> (c, sy_q s') = pop (sy_q s))"
      using r(1,2,3) by (intro exI [of _ "Some x"] exI [of _ s'] exI [of _ D]) blast
  qed
qed

section \<open>Threads and the scheduler\<close>

text \<open>A loop over threads none of which is runnable switches to nothing.\<close>

lemma thread_loop_idle:
  "\<forall>j\<in>set js. t_state (pthread (sy_pt s) i j) \<noteq> THREAD_RUNNABLE \<Longrightarrow> thread_loop swtch i js s = Done s"
  by (induction js) auto

text \<open>
  A process that yields whenever it runs. The monitor panics when it is switched to while the
  process table shows the process as runnable, that is free for another CPU to run.
\<close>

definition yields :: "nat \<Rightarrow> sys \<Rightarrow> sys outcome" where
  "yields i s =
     (if p_state (sproc s i) = RUNNABLE then Panic ''switched while runnable''
      else Done (sy_set i (\<lambda>p. p\<lparr>p_state := RUNNABLE\<rparr>) s))"

text \<open>
  Property C37: when a process has two runnable threads and the first one yields, the scheduler
  switches to the second one while the process is marked runnable, so that another CPU may run
  the same process at the same time: the state is set to \<^verbatim>\<open>RUNNING\<close> only before the loop.
\<close>

theorem second_thread_runs_while_runnable:
  assumes "i < length (sy_procs s)" and "lk_locked (p_lock (sproc s i)) = 0"
    and "p_threads (sproc s i) = t0 # t1 # ts" and "t_state t0 = THREAD_RUNNABLE"
    and "t_state t1 = THREAD_RUNNABLE" and "t_trapframe t0 = Some f0" and "t_trapframe t1 = Some f1"
    and "p_trapframe (sproc s i) = Some f" and "p_current_thread (sproc s i) = Some 0"
    and "p_usage_time (sproc s i) = Some (ua, u)" and "sy_ticks s < deadline u"
    and "sum_of_ticks u < quota u"
  shows "dispatch (yields i) i s = Panic ''switched while runnable''"
proof -
  obtain lk where lk: "acquire_p i s =
      Done (sy_set i (\<lambda>p. p\<lparr>p_lock := lk\<rparr>) (s\<lparr>sy_hart := push_off (sy_hart s)\<rparr>))"
    using acquire_p_free [OF assms(2)] by blast
  have nle: "\<not> deadline u \<le> sy_ticks s" "\<not> quota u \<le> sum_of_ticks u"
    using assms(11,12) by (simp_all add: not_le)
  show ?thesis
    unfolding dispatch_def lk using assms nle
    by (simp add: run_process_def save_frame_def load_frame_def start_run_def account_def
        upd_usage_def yields_def usage_of_def four_threads Let_def split_beta)
qed

lemma pop_push_done: "0 \<le> noff h \<Longrightarrow> \<exists>h'. pop_off (push_off h) = Done h'"
  by (simp add: pop_off_def Let_def)

text \<open>
  A process whose current thread is free and that has no runnable thread: the scheduler picks
  it, switches to nothing and leaves it runnable, whatever \<open>swtch\<close> would do.
\<close>

lemma dispatch_idle:
  assumes "i < length (sy_procs s)" and "lk_locked (p_lock (sproc s i)) = 0" and "0 \<le> noff (sy_hart s)"
    and "p_current_thread (sproc s i) = Some c" and "t_state (pthread (sy_pt s) i c) = THREAD_FREE"
    and "\<forall>j<MAX_THREAD. t_state (pthread (sy_pt s) i j) \<noteq> THREAD_RUNNABLE"
  shows "\<exists>s'. (\<forall>swtch. dispatch swtch i s = Done s') \<and> p_state (sproc s' i) = RUNNABLE \<and>
    p_threads (sproc s' i) = p_threads (sproc s i) \<and> p_current_thread (sproc s' i) = Some c"
proof -
  obtain lk where lk: "acquire_p i s =
      Done (sy_set i (\<lambda>p. p\<lparr>p_lock := lk\<rparr>) (s\<lparr>sy_hart := push_off (sy_hart s)\<rparr>))" "holding (sy_cpu s) lk"
    using acquire_p_free [OF assms(2)] by blast
  obtain h where h: "pop_off (push_off (sy_hart s)) = Done h" using pop_push_done [OF assms(3)] by blast
  let ?s = "(sy_set i (\<lambda>p. p\<lparr>p_state := RUNNING\<rparr>)
      (sy_set i (\<lambda>p. p\<lparr>p_lock := lk\<rparr>) (s\<lparr>sy_hart := push_off (sy_hart s)\<rparr>)))\<lparr>sy_proc := Some i\<rparr>"
  have "thread_loop swtch i [0..<MAX_THREAD] ?s = Done ?s" for swtch
    by (rule thread_loop_idle) (use assms(1,6) in simp)
  then have "run_process swtch i ?s = Done ?s" for swtch
    using assms(1,4,5) by (simp add: run_process_def)
  then have "\<exists>s'. (\<forall>swtch. dispatch swtch i s = Done s') \<and> s' = sy_set i (\<lambda>p. p\<lparr>p_lock :=
        lk\<lparr>lk_cpu := None, lk_locked := 0\<rparr>\<rparr>) (sy_set i (\<lambda>p. p\<lparr>p_state := RUNNABLE\<rparr>) ?s\<lparr>sy_proc := None, sy_hart := h\<rparr>)"
    using lk h assms(1) by (simp add: dispatch_def release_p_def release_def Let_def)
  then show ?thesis using assms(1,4) by auto
qed


text \<open>A process that yields each time it is switched to.\<close>

definition yield_back :: "nat \<Rightarrow> sys \<Rightarrow> sys outcome" where
  "yield_back i s = Done (sy_set i (\<lambda>p. p\<lparr>p_state := RUNNABLE\<rparr>) s)"


section \<open>Witnesses\<close>

text \<open>Two runnable processes at tick 10: the deadline of the first has passed.\<close>

definition due :: "u32 \<Rightarrow> proc" where
  "due d = zero_proc\<lparr>p_state := RUNNABLE, p_usage_time := Some (0x87ffc000,
     \<lparr>sum_of_ticks = 0, start_tick = 1, quota = 50, last_sched_tick = 9, deadline = d\<rparr>)\<rparr>"

definition due_procs :: "proc list" where
  "due_procs = due 5 # due 50 # replicate 62 zero_proc"

definition due_sys :: sys where
  "due_sys = demo_sys\<lparr>sy_pt := demo_table\<lparr>pt_procs := due_procs\<rparr>\<rparr>"

lemma due_nth: "i < NPROC \<Longrightarrow> due_procs ! i = (if i = 0 then due 5 else if i = 1 then due 50 else zero_proc)"
  by (auto simp: due_procs_def nth_Cons split: nat.split)

lemma due_state: "i < NPROC \<Longrightarrow> p_state (due_procs ! i) = RUNNABLE \<longleftrightarrow> i = 0 \<or> i = 1"
  by (simp add: due_nth due_def zero_proc_def)

theorem scheduler_deadline_policy_witness:
  "\<exists>s'. pick_next due_sys = Done (Some 1, s') \<and> p_state (sproc s' 1) = CHOSEN_TO_RUN"
proof -
  have p: "sy_procs due_sys = due_procs" "sy_ticks due_sys = 10" "pq_size (sy_pq due_sys) = 0"
    "length (pq_heap (sy_pq due_sys)) = NPROC"
    by (simp_all add: due_sys_def demo_sys_def)
  have u: "p_usage_time (due_procs ! i) \<noteq> None" if "i = 0 \<or> i = 1" for i
    using that by (auto simp: due_nth due_def)
  have ok: "sched_ok due_sys"
    unfolding sched_ok_def pq_wf_def p has_usage_def using u due_state p(4) by (auto simp: due_procs_def)
  have d: "deadline (the_usage due_procs 0) = 5" "deadline (the_usage due_procs 1) = 50"
    by (simp_all add: the_usage_def due_nth due_def)
  define C where "C = heap_set due_sys \<union> {j. j < NPROC \<and> runnable due_sys j}"
  have C: "C = {0, 1}" unfolding C_def p using due_state by auto
  have "\<exists>c s' D. pick_next due_sys = Done (c, s') \<and> ((\<exists>i\<in>C. \<not> expired due_sys i) \<longrightarrow>
      (\<exists>x\<in>C. c = Some x \<and> \<not> expired due_sys x \<and> p_state (sproc s' x) = CHOSEN_TO_RUN))"
    using scheduler_deadline_policy [OF ok] unfolding C_def by blast
  then show ?thesis unfolding C p using d by auto
qed

definition two_threads :: sys where
  "two_threads = demo_sys\<lparr>sy_pt := demo_table\<lparr>pt_procs := [demo_proc\<lparr>p_state := RUNNABLE,
     p_threads := [\<lparr>t_state = THREAD_RUNNABLE, t_trapframe = demo_frame 0x87ffe000, t_id = 1, t_join = 0\<rparr>,
       \<lparr>t_state = THREAD_RUNNABLE, t_trapframe = demo_frame 0x87fff000, t_id = 2, t_join = 0\<rparr>,
       zero_thread, zero_thread], p_current_thread := Some 0\<rparr>]\<rparr>\<rparr>"

theorem second_thread_runs_while_runnable_witness:
  "dispatch (yields 0) 0 two_threads = Panic ''switched while runnable''"
  by (rule second_thread_runs_while_runnable, simp_all add: two_threads_def demo_sys_def demo_table_def
      demo_proc_def demo_frame_def zero_proc_def, simp_all)

definition one_page :: kmem where
  "one_page = \<lparr>k_mem = (\<lambda>_. 0), k_freelist = 0x87ffe000, k_end = 0x80100000\<rparr>"

definition oom_table :: ptable where
  "oom_table = demo_table\<lparr>pt_kmem := one_page, pt_procs := [demo_proc\<lparr>p_current_thread := None,
     p_threads := [zero_thread, zero_thread, zero_thread, zero_thread]\<rparr>]\<rparr>"


definition lone_thread :: thread where
  "lone_thread = \<lparr>t_state = THREAD_RUNNING, t_trapframe = demo_frame 0x87ffe000, t_id = 1, t_join = 0\<rparr>"

definition lone_table :: ptable where
  "lone_table = demo_table\<lparr>pt_procs := [demo_proc\<lparr>p_threads := [lone_thread, zero_thread, zero_thread, zero_thread],
     p_current_thread := Some 0\<rparr>]\<rparr>"


end
