(* ===== verification/ProcAlloc.thy ===== *)
theory ProcAlloc
  imports ProcOps
begin

text \<open>
  What \<open>allocproc\<close> returns: a fresh process with its own trap frame, usage record and page table.
\<close>

section \<open>A page table for a process\<close>

lemma map_page:
  assumes inv: "kmem_inv k xs" and ok: "tree_ok k root xs" and va: "page_aligned va"
    and bound: "unat va + PGBYTES \<le> 0x4000000000"
    and free: "pte_of (k_mem k) root va AND PTE_V = 0" and room: "3 \<le> length xs"
  obtains k' xs' where "mappages k root va PGSIZE pa perm = Done (0, k')"
    and "maps_pages root k xs va pa perm 1 k' xs'" and "length xs \<le> length xs' + 2"
proof -
  have lt: "va < MAXVA" using bound by (simp add: word_less_nat_alt)
  have m: "mappages k root va PGSIZE pa perm = mappages_loop k root va va pa perm"
    using va by (simp add: mappages_def page_aligned_def)
  from inv ok lt show thesis
  proof (cases rule: walk_alloc)
    case 1
    then show thesis using room by simp
  next
    case (2 k' xs' x)
    have "pte_of (k_mem k') root va AND PTE_V = 0" using 2(1) free by (simp add: grows_def)
    then show thesis
      using that 2 m map_one [OF 2(1) lt va 2(2) refl, of pa perm]
      by (subst (asm) mappages_loop.simps) (auto simp: pte_of_def Let_def)
  qed
qed

text \<open>The entries of a page table that maps the trampoline and the trap frame and nothing else.\<close>

definition base_pte :: "u64 \<Rightarrow> u64 \<Rightarrow> u64 \<Rightarrow> u64" where
  "base_pte trampoline tf va =
     (if in_range TRAPFRAME PGBYTES va
      then PA2PTE (tf + (PGROUNDDOWN va - TRAPFRAME)) OR (PTE_R OR PTE_W) OR PTE_V
      else if in_range TRAMPOLINE PGBYTES va
      then PA2PTE (trampoline + (PGROUNDDOWN va - TRAMPOLINE)) OR (PTE_R OR PTE_X) OR PTE_V
      else 0)"

lemma trap_pages:
  "page_aligned TRAMPOLINE" "page_aligned TRAPFRAME" "TRAPFRAME < MAXVA" "TRAMPOLINE < MAXVA"
  "\<not> in_range TRAMPOLINE PGBYTES TRAPFRAME"
  by (simp_all add: page_aligned_def in_range_def)

lemma proc_pagetable_maps:
  assumes inv: "kmem_inv k xs" and room: "6 \<le> length xs"
  obtains root k' xs' where "proc_pagetable trampoline tf k = Done (root, k')" and "root \<noteq> 0"
    and "kmem_inv k' xs'" and "tree_ok k' root xs'" and "set xs' \<subseteq> set xs" and "k_end k' = k_end k"
    and "\<And>va. va < MAXVA \<Longrightarrow> pte_of (k_mem k') root va = base_pte trampoline tf va"
    and "\<And>b. (\<And>x. x \<in> set xs \<Longrightarrow> \<not> in_range x PGBYTES b) \<Longrightarrow> k_mem k' b = k_mem k b"
proof -
  obtain root ys where xs: "xs = root # ys" "5 \<le> length ys" using room by (cases xs) auto
  obtain k1 where k1: "uvmcreate k = (root, k1)" "kmem_inv k1 ys" "tree_ok k1 root ys"
    "\<And>va. pte_of (k_mem k1) root va = 0" "root \<noteq> 0" "k_end k1 = k_end k"
    "\<And>p x. path p \<Longrightarrow> node (k_mem k1) root p = Some x \<Longrightarrow> x = root"
    "\<And>b. \<not> in_range root PGBYTES b \<Longrightarrow> k_mem k1 b = k_mem k b"
    using uvmcreate_table [OF inv [unfolded xs(1)]] by metis
  have pte1: "pte_of (k_mem k1) root TRAMPOLINE AND PTE_V = 0" by (simp add: k1(4))
  have "unat TRAMPOLINE + PGBYTES \<le> 0x4000000000" "3 \<le> length ys" using xs(2) by simp_all
  with k1(2,3) trap_pages(1) pte1 obtain k2 ys2 where
    k2: "mappages k1 root TRAMPOLINE PGSIZE trampoline (PTE_R OR PTE_X) = Done (0, k2)"
    "maps_pages root k1 ys TRAMPOLINE trampoline (PTE_R OR PTE_X) 1 k2 ys2" "length ys \<le> length ys2 + 2"
    by (metis map_page)
  have "pte_of (k_mem k2) root TRAPFRAME = 0"
    using k2(2) trap_pages(3,5) k1(4) unfolding maps_pages_def by simp
  then have pte2: "pte_of (k_mem k2) root TRAPFRAME AND PTE_V = 0" by simp
  have "kmem_inv k2 ys2" "tree_ok k2 root ys2" "unat TRAPFRAME + PGBYTES \<le> 0x4000000000" "3 \<le> length ys2"
    using k2 xs(2) unfolding maps_pages_def by simp_all
  with trap_pages(2) pte2 obtain k3 ys3 where
    k3: "mappages k2 root TRAPFRAME PGSIZE tf (PTE_R OR PTE_W) = Done (0, k3)"
    "maps_pages root k2 ys2 TRAPFRAME tf (PTE_R OR PTE_W) 1 k3 ys3"
    by (metis map_page)
  show thesis
  proof (rule that [of root k3 ys3])
    show "proc_pagetable trampoline tf k = Done (root, k3)"
      using k1(1,5) k2(1) k3(1) by (simp add: proc_pagetable_def)
    show "root \<noteq> 0" by (rule k1(5))
    show "kmem_inv k3 ys3" "tree_ok k3 root ys3" using k3(2) by (simp_all add: maps_pages_def)
    show "set ys3 \<subseteq> set xs" "k_end k3 = k_end k"
      using k3(2) k2(2) k1(6) xs(1) by (auto simp: maps_pages_def)
    show "pte_of (k_mem k3) root va = base_pte trampoline tf va" if "va < MAXVA" for va
      using k3(2) k2(2) k1(4) that unfolding maps_pages_def base_pte_def mapped_pte_def by simp
    show "k_mem k3 b = k_mem k b" if b: "\<And>x. x \<in> set xs \<Longrightarrow> \<not> in_range x PGBYTES b" for b
    proof -
      have e1: "elsewhere k1 root ys b" using b xs(1) k1(7) unfolding elsewhere_def by auto
      have "k_mem k3 b = k_mem k2 b"
        using k3(2) elsewhere_maps [OF k2(2) e1] unfolding maps_pages_def by blast
      also have "\<dots> = k_mem k1 b" using k2(2) e1 unfolding maps_pages_def by blast
      also have "\<dots> = k_mem k b" using k1(8) b xs(1) by simp
      finally show ?thesis .
    qed
  qed
qed

section \<open>A fresh process\<close>

definition fresh_usage :: cpu_usage where
  "fresh_usage = \<lparr>sum_of_ticks = 0, start_tick = 0, quota = MAX_UINT, last_sched_tick = 0,
     deadline = MAX_UINT\<rparr>"

text \<open>The slot that \<open>allocproc\<close> fills: the fields that it does not assign keep their values.\<close>

definition fresh_proc :: "ptable \<Rightarrow> u64 \<Rightarrow> u64 \<Rightarrow> u64 \<Rightarrow> proc \<Rightarrow> proc" where
  "fresh_proc st tf ut root p = p\<lparr>p_pid := pt_nextpid st, p_state := USED,
     p_trapframe := Some (tf, junk_trapframe), p_usage_time := Some (ut, fresh_usage),
     p_pagetable := root, p_context := zero_context\<lparr>ctx_ra := pt_forkret st, ctx_sp := p_kstack p + PGSIZE\<rparr>,
     p_current_thread := None\<rparr>"

lemma find_unused_Some:
  "find_unused ps = Some i \<Longrightarrow> i < length ps \<and> p_state (ps ! i) = UNUSED"
  by (auto simp: find_unused_def find_Some_iff)

lemma set_proc_compose:
  "set_proc i f (set_proc i g st) = set_proc i (f \<circ> g) st"
  by (cases "i < length (pt_procs st)")
    (auto simp: set_proc_def upd_proc_def list_update_beyond)

lemma set_proc_kmem: "set_proc i f (set_kmem k st) = set_kmem k (set_proc i f st)"
  "set_kmem k (set_kmem k' st) = set_kmem k st"
  by (simp_all add: set_proc_def set_kmem_def)

lemma set_proc_cong: "(\<And>p. f p = g p) \<Longrightarrow> set_proc i f st = set_proc i g st"
  by (simp add: set_proc_def upd_proc_def)

lemma allocproc_success:
  assumes inv: "kmem_inv (pt_kmem st) xs" and room: "8 \<le> length xs"
    and i: "find_unused (pt_procs st) = Some i"
  obtains root k xs' where
    "allocproc st = Done (Some i, set_kmem k (set_proc i (fresh_proc st (xs ! 0) (xs ! 1) root)
       (st\<lparr>pt_nextpid := pt_nextpid st + 1\<rparr>)))"
    and "kmem_inv k xs'" and "tree_ok k root xs'" and "set xs' \<subseteq> set (drop 2 xs)"
    and "\<And>va. va < MAXVA \<Longrightarrow> pte_of (k_mem k) root va = base_pte (pt_trampoline st) (xs ! 0) va"
    and "\<And>b. (\<And>x. x \<in> set xs \<Longrightarrow> \<not> in_range x PGBYTES b) \<Longrightarrow> k_mem k b = k_mem (pt_kmem st) b"
proof -
  obtain tf ut ys where xs: "xs = tf # ut # ys" "6 \<le> length ys"
    using room by (cases xs; cases "tl xs") auto
  obtain k1 where k1: "kalloc (pt_kmem st) = (tf, k1)" "kmem_inv k1 (ut # ys)" "tf \<noteq> 0"
    "same_outside tf (k_mem (pt_kmem st)) (k_mem k1)"
    using kalloc_some [OF inv [unfolded xs(1)]] by metis
  obtain k2 where k2: "kalloc k1 = (ut, k2)" "kmem_inv k2 ys" "ut \<noteq> 0"
    "same_outside ut (k_mem k1) (k_mem k2)"
    using kalloc_some [OF k1(2)] by metis
  obtain root k3 zs where k3: "proc_pagetable (pt_trampoline st) tf k2 = Done (root, k3)" "root \<noteq> 0"
    "kmem_inv k3 zs" "tree_ok k3 root zs" "set zs \<subseteq> set ys"
    "\<And>va. va < MAXVA \<Longrightarrow> pte_of (k_mem k3) root va = base_pte (pt_trampoline st) tf va"
    "\<And>b. (\<And>x. x \<in> set ys \<Longrightarrow> \<not> in_range x PGBYTES b) \<Longrightarrow> k_mem k3 b = k_mem k2 b"
    using proc_pagetable_maps [OF k2(2) xs(2), of "pt_trampoline st" tf] by metis
  show thesis
  proof (rule that [of k3 root zs])
    show "allocproc st = Done (Some i, set_kmem k3 (set_proc i (fresh_proc st (xs ! 0) (xs ! 1) root)
       (st\<lparr>pt_nextpid := pt_nextpid st + 1\<rparr>)))"
      using k1(1,3) k2(1,3) k3(1,2) i xs(1)
      by (simp add: allocproc_def allocpid_def Let_def set_proc_compose set_proc_kmem)
        (intro arg_cong [where f = "set_kmem k3"] set_proc_cong, simp add: fresh_proc_def fresh_usage_def)
    show "kmem_inv k3 zs" "tree_ok k3 root zs" "set zs \<subseteq> set (drop 2 xs)" using k3 xs(1) by simp_all
    show "pte_of (k_mem k3) root va = base_pte (pt_trampoline st) (xs ! 0) va" if "va < MAXVA" for va
      using k3(6) [OF that] xs(1) by simp
    show "k_mem k3 b = k_mem (pt_kmem st) b" if "\<And>x. x \<in> set xs \<Longrightarrow> \<not> in_range x PGBYTES b" for b
      using k3(7) k2(4) k1(4) that xs(1) by (simp add: same_outside_def)
  qed
qed

section \<open>Properties\<close>

text \<open>
  Property C14: with a free slot and at least eight free pages, \<open>allocproc\<close> does not fail. It takes
  the first free slot, gives it the next process identifier, a trap frame and a usage record on
  two different pages that were free, and a page table whose only entries map the trampoline
  and that trap frame. No other process changes, no byte outside the free pages changes, and
  the pages it took are no longer free.
\<close>

theorem allocproc_fresh:
  assumes "kmem_inv (pt_kmem st) xs" and "8 \<le> length xs" and "find_unused (pt_procs st) = Some i"
  shows "\<exists>root k xs' st'. allocproc st = Done (Some i, st') \<and> st' = set_kmem k (set_proc i
      (fresh_proc st (xs ! 0) (xs ! 1) root) (st\<lparr>pt_nextpid := pt_nextpid st + 1\<rparr>)) \<and>
    p_state (the_proc st i) = UNUSED \<and> (\<forall>j. j \<noteq> i \<longrightarrow> the_proc st' j = the_proc st j) \<and>
    xs ! 0 \<noteq> xs ! 1 \<and> kmem_inv k xs' \<and> tree_ok k root xs' \<and> set xs' \<subseteq> set xs - {xs ! 0, xs ! 1} \<and>
    (\<forall>va<MAXVA. pte_of (k_mem k) root va = base_pte (pt_trampoline st) (xs ! 0) va) \<and>
    (\<forall>b. (\<forall>x\<in>set xs. \<not> in_range x PGBYTES b) \<longrightarrow> k_mem k b = k_mem (pt_kmem st) b)"
proof -
  obtain root k xs' where r: "allocproc st = Done (Some i, set_kmem k (set_proc i
      (fresh_proc st (xs ! 0) (xs ! 1) root) (st\<lparr>pt_nextpid := pt_nextpid st + 1\<rparr>)))"
    "kmem_inv k xs'" "tree_ok k root xs'" "set xs' \<subseteq> set (drop 2 xs)"
    "\<And>va. va < MAXVA \<Longrightarrow> pte_of (k_mem k) root va = base_pte (pt_trampoline st) (xs ! 0) va"
    "\<And>b. (\<And>x. x \<in> set xs \<Longrightarrow> \<not> in_range x PGBYTES b) \<Longrightarrow> k_mem k b = k_mem (pt_kmem st) b"
    using allocproc_success [OF assms] by metis
  have d: "distinct xs" using assms(1) by (simp add: kmem_inv_def)
  obtain a b ys where xs: "xs = a # b # ys" using assms(2) by (cases xs; cases "tl xs") auto
  have "set xs' \<subseteq> set xs - {xs ! 0, xs ! 1}" "xs ! 0 \<noteq> xs ! 1" using r(4) d xs by auto
  then show ?thesis using r find_unused_Some [OF assms(3)]
    by (intro exI [of _ root] exI [of _ k] exI [of _ xs'] exI conjI) auto
qed

text \<open>
  Property C36: the call \<open>kill(0)\<close> finds the first free slot, whose identifier is 0, returns
  success and sets its \<open>killed\<close> flag. \<open>allocproc\<close> does not clear the flag: the next process is
  created killed.
\<close>

theorem kill_zero_hits_next_process:
  assumes "kmem_inv (pt_kmem st) xs" and "8 \<le> length xs" and "find_unused (pt_procs st) = Some i"
    and "\<forall>j<length (pt_procs st). p_pid (the_proc st j) = 0 \<longleftrightarrow> p_state (the_proc st j) = UNUSED"
  shows "\<exists>st1 st2. kill 0 st = (0, st1) \<and> allocproc st1 = Done (Some i, st2) \<and> killed i st2"
proof -
  let ?st = "set_proc i (\<lambda>p. p\<lparr>p_killed := True\<rparr>) st"
  note i = find_unused_Some [OF assms(3)]
  have "find (\<lambda>j. p_pid (the_proc st j) = 0) [0..<length (pt_procs st)] = find_unused (pt_procs st)"
    unfolding find_unused_def using assms(4) by (intro find_cong) auto
  then have k: "kill 0 st = (0, ?st)"
    using i assms(3) by (auto simp: kill_def set_proc_def upd_proc_def)
  have st: "p_state (the_proc ?st j) = p_state (the_proc st j)" for j
    by (simp add: upd_proc_proj)
  then have "find_unused (pt_procs ?st) = Some i" and "kmem_inv (pt_kmem ?st) xs"
    using assms(1,3) by (simp_all add: find_unused_def)
  then obtain root k' where a: "allocproc ?st = Done (Some i, set_kmem k' (set_proc i
      (fresh_proc ?st (xs ! 0) (xs ! 1) root) (?st\<lparr>pt_nextpid := pt_nextpid ?st + 1\<rparr>)))"
    using allocproc_success [OF _ assms(2), of ?st i] by metis
  show ?thesis using k a i by (intro exI conjI) (auto simp: killed_def fresh_proc_def)
qed

section \<open>Witnesses\<close>

text \<open>A machine with eight free pages and a table of two processes, the first one in use.\<close>

definition boot_pages :: "u64 list" where
  "boot_pages = map (\<lambda>i. 0x87ff8000 + of_nat i * PGSIZE) [0..<8]"

definition boot_kmem :: kmem where
  "boot_kmem = \<lparr>k_mem = fold (\<lambda>i m. store64 m (boot_pages ! i)
       (if i < 7 then boot_pages ! Suc i else 0)) [0..<8] (\<lambda>_. 0),
     k_freelist = 0x87ff8000, k_end = 0x80100000\<rparr>"

definition demo_pt :: ptable where
  "demo_pt = \<lparr>pt_procs = [zero_proc\<lparr>p_state := RUNNING, p_pid := 1\<rparr>, zero_proc], pt_kmem = boot_kmem,
     pt_nextpid = 2, pt_initproc = Some 0, pt_trampoline = 0x80007000, pt_forkret = 0x80001000\<rparr>"

lemma boot_pages_list: "boot_pages = [0x87ff8000, 0x87ff9000, 0x87ffa000, 0x87ffb000, 0x87ffc000,
    0x87ffd000, 0x87ffe000, 0x87fff000]"
  by code_simp

lemma boot_inv: "kmem_inv (pt_kmem demo_pt) boot_pages" and boot_room: "8 \<le> length boot_pages"
proof -
  have "load64 (k_mem boot_kmem) 0x87ff8000 = 0x87ff9000" "load64 (k_mem boot_kmem) 0x87ff9000 = 0x87ffa000"
    "load64 (k_mem boot_kmem) 0x87ffa000 = 0x87ffb000" "load64 (k_mem boot_kmem) 0x87ffb000 = 0x87ffc000"
    "load64 (k_mem boot_kmem) 0x87ffc000 = 0x87ffd000" "load64 (k_mem boot_kmem) 0x87ffd000 = 0x87ffe000"
    "load64 (k_mem boot_kmem) 0x87ffe000 = 0x87fff000" "load64 (k_mem boot_kmem) 0x87fff000 = 0"
    by (simp_all add: boot_kmem_def boot_pages_list upt_rec load_store_page page_aligned_def load_zero)
  moreover have "k_freelist boot_kmem = 0x87ff8000" "k_end boot_kmem = 0x80100000"
    by (simp_all add: boot_kmem_def)
  ultimately show "kmem_inv (pt_kmem demo_pt) boot_pages"
    by (simp add: kmem_inv_def demo_pt_def boot_pages_list is_page_def page_aligned_def)
  show "8 \<le> length boot_pages" by (simp add: boot_pages_def)
qed

lemma demo_unused: "find_unused (pt_procs demo_pt) = Some 1"
  by (simp add: find_unused_def demo_pt_def zero_proc_def)

theorem allocproc_fresh_witness:
  "\<exists>st' root. allocproc demo_pt = Done (Some 1, st') \<and> p_pid (the_proc st' 1) = 2 \<and>
     p_pagetable (the_proc st' 1) = root \<and>
     pte_of (k_mem (pt_kmem st')) root TRAPFRAME = PA2PTE 0x87ff8000 OR (PTE_R OR PTE_W) OR PTE_V"
proof -
  obtain root k where "allocproc demo_pt = Done (Some 1, set_kmem k (set_proc 1
      (fresh_proc demo_pt (boot_pages ! 0) (boot_pages ! 1) root) (demo_pt\<lparr>pt_nextpid := pt_nextpid demo_pt + 1\<rparr>)))"
    "\<forall>va<MAXVA. pte_of (k_mem k) root va = base_pte (pt_trampoline demo_pt) (boot_pages ! 0) va"
    using allocproc_fresh [OF boot_inv boot_room demo_unused] by blast
  moreover have "base_pte (pt_trampoline demo_pt) (boot_pages ! 0) TRAPFRAME =
      PA2PTE 0x87ff8000 OR (PTE_R OR PTE_W) OR PTE_V"
    by code_simp
  ultimately show ?thesis
    using trap_pages(3) by (simp add: fresh_proc_def demo_pt_def upd_proc_def)
qed

theorem kill_zero_hits_next_process_witness:
  "\<exists>st1 st2. kill 0 demo_pt = (0, st1) \<and> allocproc st1 = Done (Some 1, st2) \<and> killed 1 st2"
proof -
  have "\<forall>j<length (pt_procs demo_pt). p_pid (the_proc demo_pt j) = 0 \<longleftrightarrow> p_state (the_proc demo_pt j) = UNUSED"
    by (simp add: demo_pt_def zero_proc_def less_Suc_eq)
  then show ?thesis by (rule kill_zero_hits_next_process [OF boot_inv boot_room demo_unused])
qed

end
