(* ===== verification/Pipe.thy ===== *)
theory Pipe
  imports ProcAlloc
begin

text \<open>
  \<^verbatim>\<open>kernel/pipe.c\<close>: the ring buffer with its 32-bit counters, \<open>pipewrite\<close>, \<open>piperead\<close> and
  \<open>pipeclose\<close>. A call that sleeps is modelled up to the sleep; it continues from there with the
  same function once it has been woken, in whatever state the pipe then is. The buffer
  interprets the interface of a bounded FIFO queue.
\<close>

section \<open>The buffer\<close>

abbreviation PIPESIZE :: nat where
  "PIPESIZE \<equiv> 512"

record pipe =
  pi_data :: "u8 list"
  pi_nread :: u32
  pi_nwrite :: u32
  pi_readopen :: bool
  pi_writeopen :: bool

definition pipe_full :: "pipe \<Rightarrow> bool" where
  "pipe_full p \<longleftrightarrow> pi_nwrite p = pi_nread p + 512"

definition pipe_empty :: "pipe \<Rightarrow> bool" where
  "pipe_empty p \<longleftrightarrow> pi_nread p = pi_nwrite p"

text \<open>\<^verbatim>\<open>pi->data[pi->nwrite++ % PIPESIZE] = ch\<close> and \<^verbatim>\<open>ch = pi->data[pi->nread++ % PIPESIZE]\<close>.\<close>

definition pipe_put :: "u8 \<Rightarrow> pipe \<Rightarrow> pipe" where
  "pipe_put ch p = p\<lparr>pi_data := (pi_data p)[unat (pi_nwrite p mod 512) := ch], pi_nwrite := pi_nwrite p + 1\<rparr>"

definition pipe_get :: "pipe \<Rightarrow> u8 \<times> pipe" where
  "pipe_get p = (pi_data p ! unat (pi_nread p mod 512), p\<lparr>pi_nread := pi_nread p + 1\<rparr>)"

section \<open>Reading and writing\<close>

text \<open>A system call has returned a value or sleeps, having transferred so many bytes.\<close>

datatype progress = Returned int | Asleep nat

text \<open>The body of \<open>pipewrite\<close> from the point where \<open>i\<close> bytes have been written.\<close>

function pipewrite_from :: "u64 \<Rightarrow> u64 \<Rightarrow> int \<Rightarrow> nat \<Rightarrow> nat \<Rightarrow> pipe \<Rightarrow> ptable \<Rightarrow>
    (progress \<times> pipe \<times> ptable) outcome" where
  "pipewrite_from pi addr n me i p st =
     (if int i < n then
        (if \<not> pi_readopen p \<or> killed me st then Done (Returned (-1), p, st)
         else if pipe_full p then Done (Asleep i, p, wakeup (ChanPipeRead pi) (Some me) st)
         else obind (copyin (pt_kmem st) (p_pagetable (the_proc st me)) (addr + of_nat i) 1) (\<lambda>(r, bs).
           if r = -1 then Done (Returned (int i), p, wakeup (ChanPipeRead pi) (Some me) st)
           else pipewrite_from pi addr n me (Suc i) (pipe_put (bs ! 0) p) st))
      else Done (Returned (int i), p, wakeup (ChanPipeRead pi) (Some me) st))"
  by pat_completeness auto
termination
  by (relation "measure (\<lambda>(pi, addr, n, me, i, p, st). nat (n - int i))") auto

declare pipewrite_from.simps [simp del]

definition pipewrite :: "u64 \<Rightarrow> u64 \<Rightarrow> int \<Rightarrow> nat \<Rightarrow> pipe \<Rightarrow> ptable \<Rightarrow> (progress \<times> pipe \<times> ptable) outcome" where
  "pipewrite pi addr n me p st = pipewrite_from pi addr n me 0 p st"

text \<open>The copying loop of \<open>piperead\<close>.\<close>

function piperead_copy :: "u64 \<Rightarrow> int \<Rightarrow> nat \<Rightarrow> nat \<Rightarrow> pipe \<Rightarrow> ptable \<Rightarrow> (nat \<times> pipe \<times> ptable) outcome" where
  "piperead_copy addr n me i p st =
     (if int i < n then
        (if pipe_empty p then Done (i, p, st)
         else (case pipe_get p of (ch, p) \<Rightarrow>
           obind (copyout (pt_kmem st) (p_pagetable (the_proc st me)) (addr + of_nat i) [ch]) (\<lambda>(r, k).
             if r = -1 then Done (i, p, set_kmem k st)
             else piperead_copy addr n me (Suc i) p (set_kmem k st))))
      else Done (i, p, st))"
  by pat_completeness auto
termination
  by (relation "measure (\<lambda>(addr, n, me, i, p, st). nat (n - int i))") auto

declare piperead_copy.simps [simp del]

definition piperead :: "u64 \<Rightarrow> u64 \<Rightarrow> int \<Rightarrow> nat \<Rightarrow> pipe \<Rightarrow> ptable \<Rightarrow> (progress \<times> pipe \<times> ptable) outcome" where
  "piperead pi addr n me p st =
     (if pipe_empty p \<and> pi_writeopen p then
        (if killed me st then Done (Returned (-1), p, st) else Done (Asleep 0, p, st))
      else obind (piperead_copy addr n me 0 p st) (\<lambda>(i, p, st).
        Done (Returned (int i), p, wakeup (ChanPipeWrite pi) (Some me) st)))"

text \<open>\<open>pipeclose\<close> frees the page of the pipe with the last end.\<close>

definition pipeclose :: "u64 \<Rightarrow> bool \<Rightarrow> nat option \<Rightarrow> pipe \<Rightarrow> ptable \<Rightarrow> (pipe option \<times> ptable) outcome" where
  "pipeclose pi writable me p st =
     (let (p, st) = (if writable then (p\<lparr>pi_writeopen := False\<rparr>, wakeup (ChanPipeRead pi) me st)
                     else (p\<lparr>pi_readopen := False\<rparr>, wakeup (ChanPipeWrite pi) me st))
      in if \<not> pi_readopen p \<and> \<not> pi_writeopen p
         then obind (kfree (pt_kmem st) pi) (\<lambda>k. Done (None, set_kmem k st))
         else Done (Some p, st))"

section \<open>The buffer as a queue\<close>

definition pipe_inv :: "pipe \<Rightarrow> bool" where
  "pipe_inv p \<longleftrightarrow> length (pi_data p) = PIPESIZE \<and> unat (pi_nwrite p - pi_nread p) \<le> PIPESIZE"

text \<open>The bytes in transit, oldest first.\<close>

definition pipe_bytes :: "pipe \<Rightarrow> u8 list" where
  "pipe_bytes p = map (\<lambda>i. pi_data p ! unat ((pi_nread p + of_nat i) mod 512)) [0..<unat (pi_nwrite p - pi_nread p)]"

lemma length_pipe_bytes [simp]: "length (pipe_bytes p) = unat (pi_nwrite p - pi_nread p)"
  by (simp add: pipe_bytes_def)

lemma pipe_empty_bytes: "pipe_empty p \<longleftrightarrow> pipe_bytes p = []"
  by (auto simp: pipe_empty_def pipe_bytes_def unat_eq_0)

lemma pipe_full_bytes: "pipe_full p \<longleftrightarrow> length (pipe_bytes p) = PIPESIZE"
proof -
  have "pipe_full p \<longleftrightarrow> pi_nwrite p - pi_nread p = 512" by (auto simp: pipe_full_def algebra_simps)
  also have "\<dots> \<longleftrightarrow> unat (pi_nwrite p - pi_nread p) = 512"
    by (simp add: word_unat_eq_iff)
  finally show ?thesis by simp
qed

lemma ring_slot: "unat ((a + of_nat i :: u32) mod 512) = (unat a + i) mod 512"
proof -
  have "unat ((a + of_nat i) mod 512) = (unat a + i) mod 2 ^ 32 mod 512"
    by (simp add: unat_mod_distrib unat_word_ariths unat_of_nat mod_add_right_eq)
  also have "\<dots> = (unat a + i) mod 512" by (rule mod_mod_cancel) simp
  finally show ?thesis .
qed

lemma ring_slot_distinct:
  assumes "i < d" and "d < (512 :: nat)"
  shows "(n + i) mod 512 \<noteq> (n + d) mod 512"
proof
  assume "(n + i) mod 512 = (n + d) mod 512"
  then have "512 dvd d - i" using assms(1) by (metis add_diff_cancel_left less_imp_le mod_eq_dvd_iff_nat nat_add_left_cancel_le)
  with assms show False by (auto dest: dvd_imp_le)
qed

lemma pipe_bytes_nth:
  "i < unat (pi_nwrite p - pi_nread p) \<Longrightarrow> pipe_bytes p ! i = pi_data p ! ((unat (pi_nread p) + i) mod 512)"
  by (simp add: pipe_bytes_def ring_slot)

lemma pipe_put_bytes:
  assumes "pipe_inv p" and "\<not> pipe_full p"
  shows "pipe_inv (pipe_put ch p)" and "pipe_bytes (pipe_put ch p) = pipe_bytes p @ [ch]"
proof -
  let ?d = "unat (pi_nwrite p - pi_nread p)"
  have d: "?d < 512" using assms pipe_full_bytes [of p] by (simp add: pipe_inv_def)
  have "unat ((pi_nwrite p - pi_nread p) + 1) = Suc ?d"
    unfolding unat_plus_if' using d by simp
  then have one: "unat (pi_nwrite p + 1 - pi_nread p) = Suc ?d" by (simp add: algebra_simps)
  have w: "unat (pi_nwrite p mod 512) = (unat (pi_nread p) + ?d) mod 512"
    using ring_slot [of "pi_nread p" ?d] by simp
  show "pipe_inv (pipe_put ch p)" using assms(1) d one by (simp add: pipe_inv_def pipe_put_def)
  show "pipe_bytes (pipe_put ch p) = pipe_bytes p @ [ch]"
  proof (rule nth_equalityI)
    show "length (pipe_bytes (pipe_put ch p)) = length (pipe_bytes p @ [ch])" by (simp add: pipe_put_def one)
    fix i assume "i < length (pipe_bytes (pipe_put ch p))"
    then have i: "i < Suc ?d" by (simp add: pipe_put_def one)
    have l: "length (pi_data p) = 512" using assms(1) by (simp add: pipe_inv_def)
    have "pipe_bytes (pipe_put ch p) ! i = (pi_data p)[(unat (pi_nread p) + ?d) mod 512 := ch] !
        ((unat (pi_nread p) + i) mod 512)"
      using i pipe_bytes_nth [of i "pipe_put ch p"] by (simp add: pipe_put_def one w)
    then show "pipe_bytes (pipe_put ch p) ! i = (pipe_bytes p @ [ch]) ! i"
      using i l ring_slot_distinct [of i ?d "unat (pi_nread p)"] d
      by (auto simp: nth_append pipe_bytes_nth less_Suc_eq)
  qed
qed

lemma pipe_get_bytes:
  assumes "pipe_inv p" and "\<not> pipe_empty p"
  shows "fst (pipe_get p) = hd (pipe_bytes p)" and "pipe_inv (snd (pipe_get p))"
    and "pipe_bytes (snd (pipe_get p)) = tl (pipe_bytes p)"
proof -
  let ?d = "unat (pi_nwrite p - pi_nread p)"
  have nz: "pi_nwrite p - pi_nread p \<noteq> 0" using assms(2) by (simp add: pipe_empty_def)
  then have pos: "0 < ?d" by (simp add: unat_gt_0)
  have "pi_nwrite p - (pi_nread p + 1) = (pi_nwrite p - pi_nread p) - 1" by simp
  then have one: "unat (pi_nwrite p - (pi_nread p + 1)) = ?d - 1" using nz unat_minus_one by metis
  have ne: "pipe_bytes p \<noteq> []" using pos by (metis length_pipe_bytes list.size(3) less_irrefl)
  show "fst (pipe_get p) = hd (pipe_bytes p)"
    using ne pipe_bytes_nth [OF pos] ring_slot [of "pi_nread p" 0] by (simp add: pipe_get_def hd_conv_nth)
  show "pipe_inv (snd (pipe_get p))" using assms(1) one by (auto simp: pipe_inv_def pipe_get_def)
  show "pipe_bytes (snd (pipe_get p)) = tl (pipe_bytes p)"
  proof (rule nth_equalityI)
    show "length (pipe_bytes (snd (pipe_get p))) = length (tl (pipe_bytes p))" by (simp add: pipe_get_def one)
    fix i assume "i < length (pipe_bytes (snd (pipe_get p)))"
    then have i: "i < ?d - 1" by (simp add: pipe_get_def one)
    have "(unat (pi_nread p + 1) + i) mod 512 = (unat (pi_nread p) + Suc i) mod 512"
      using ring_slot [of "pi_nread p + 1" i] ring_slot [of "pi_nread p" "Suc i"] by (simp add: add.assoc)
    then show "pipe_bytes (snd (pipe_get p)) ! i = tl (pipe_bytes p) ! i"
      using i pipe_bytes_nth [of i "snd (pipe_get p)"] pipe_bytes_nth [of "Suc i" p]
      by (simp add: pipe_get_def one nth_tl)
  qed
qed

text \<open>With the tests of the loops in front, the buffer is a FIFO queue of \<^verbatim>\<open>PIPESIZE\<close> bytes.\<close>

definition pipe_enq :: "pipe \<Rightarrow> u8 \<Rightarrow> nat \<times> pipe" where
  "pipe_enq p ch = (if pipe_full p then (0, p) else (1, pipe_put ch p))"

definition pipe_deq :: "pipe \<Rightarrow> u8 option \<times> pipe" where
  "pipe_deq p = (if pipe_empty p then (None, p) else (case pipe_get p of (ch, p) \<Rightarrow> (Some ch, p)))"

interpretation pipe_fifo: bounded_fifo PIPESIZE pipe_enq pipe_deq pipe_bytes pipe_inv
proof (unfold_locales, goal_cases)
  case (1 p)
  then show ?case by (simp add: pipe_inv_def)
next
  case (2 p ch)
  then show ?case by (simp add: pipe_enq_def pipe_full_bytes)
next
  case (3 p ch)
  then show ?case using pipe_put_bytes [of p ch] by (simp add: pipe_enq_def pipe_full_bytes)
next
  case (4 p)
  then show ?case by (simp add: pipe_deq_def pipe_empty_bytes)
next
  case (5 p)
  then show ?case using pipe_get_bytes [of p] by (simp add: pipe_deq_def pipe_empty_bytes split_beta)
qed

section \<open>What the calls transfer\<close>

lemma copyin_one:
  "copyin k pt va 1 = (case ubyte k pt va of None \<Rightarrow> Done (-1, []) | Some b \<Rightarrow> Done (0, [b]))"
proof -
  obtain r bs where c: "copyin k pt va 1 = Done (r, bs)" "matches k pt va bs"
    "r = 0 \<and> length bs = 1 \<or> r = -1 \<and> length bs < 1 \<and> ubyte k pt (va + of_nat (length bs)) = None"
    using copyin_spec [of k pt va 1] by auto
  from c(3) show ?thesis
  proof
    assume "r = 0 \<and> length bs = 1"
    then show ?thesis using c(1,2) by (cases bs) (auto simp: matches_def)
  qed (use c(1) in auto)
qed

text \<open>
  A stretch of \<open>pipewrite\<close> from byte \<open>i\<close>: \<open>bs\<close> are the bytes that it has appended.
\<close>

definition wrote :: "u64 \<Rightarrow> int \<Rightarrow> nat \<Rightarrow> nat \<Rightarrow> pipe \<Rightarrow> ptable \<Rightarrow> progress \<Rightarrow> pipe \<Rightarrow> ptable \<Rightarrow> u8 list \<Rightarrow> bool" where
  "wrote addr n me i p st res p' st' bs \<longleftrightarrow>
     pipe_inv p' \<and> pipe_bytes p' = pipe_bytes p @ bs \<and> pi_readopen p' = pi_readopen p \<and>
     pi_writeopen p' = pi_writeopen p \<and> pt_kmem st' = pt_kmem st \<and>
     (\<forall>j<length (pt_procs st). p_pagetable (the_proc st' j) = p_pagetable (the_proc st j)) \<and>
     (bs \<noteq> [] \<longrightarrow> int (i + length bs) \<le> n) \<and>
     matches (pt_kmem st) (p_pagetable (the_proc st me)) (addr + of_nat i) bs \<and>
     (case res of
        Returned r \<Rightarrow> r = -1 \<and> (\<not> pi_readopen p \<or> killed me st) \<and> bs = [] \<or>
          r = int (i + length bs) \<and> (n \<le> r \<or>
            ubyte (pt_kmem st) (p_pagetable (the_proc st me)) (addr + of_nat (i + length bs)) = None)
      | Asleep j \<Rightarrow> j = i + length bs \<and> int j < n \<and> pipe_full p')"

lemma pipewrite_wrote:
  assumes "pipe_inv p"
  shows "\<exists>res p' st' bs. pipewrite_from pi addr n me i p st = Done (res, p', st') \<and>
    wrote addr n me i p st res p' st' bs"
  using assms
proof (induction pi addr n me i p st rule: pipewrite_from.induct)
  case (1 pi addr n me i p st)
  let ?pt = "p_pagetable (the_proc st me)" and ?w = "wakeup (ChanPipeRead pi) (Some me) st"
  note unfold = pipewrite_from.simps [of pi addr n me i p st]
  show ?case
  proof (cases "int i < n \<and> pi_readopen p \<and> \<not> killed me st \<and> \<not> pipe_full p \<and>
      ubyte (pt_kmem st) ?pt (addr + of_nat i) \<noteq> None")
    case False
    then show ?thesis using 1(2) unfolding unfold copyin_one
      by (auto simp: wrote_def matches_def wakeup_nth split: option.splits)
  next
    case True
    then obtain b where b: "ubyte (pt_kmem st) ?pt (addr + of_nat i) = Some b" by auto
    note put = pipe_put_bytes [OF 1(2), of b]
    have step: "pipewrite_from pi addr n me i p st = pipewrite_from pi addr n me (Suc i) (pipe_put b p) st"
      using True b unfolding unfold copyin_one by simp
    obtain res p' st' bs where r: "pipewrite_from pi addr n me (Suc i) (pipe_put b p) st = Done (res, p', st')"
      "wrote addr n me (Suc i) (pipe_put b p) st res p' st' bs"
      using 1(1) [of "(0, [b])" 0 "[b]"] True b put(1) copyin_one by auto
    have "matches (pt_kmem st) ?pt (addr + of_nat i) (b # bs)"
      using b r(2) by (auto simp: wrote_def matches_def nth_Cons algebra_simps split: nat.splits)
    then have "wrote addr n me i p st res p' st' (b # bs)"
      using r(2) put(2) True by (auto simp: wrote_def pipe_put_def split: progress.splits)
    then show ?thesis using step r(1) by auto
  qed
qed

definition space_ok :: "kmem \<Rightarrow> u64 \<Rightarrow> u64 list \<Rightarrow> bool" where
  "space_ok k root xs \<longleftrightarrow> kmem_inv k xs \<and> tree_ok k root xs \<and> data_ok (k_mem k) root xs"

lemma copyout_one:
  assumes "space_ok k root xs"
  shows "\<exists>r k'. copyout k root va [ch] = Done (r, k') \<and> space_ok k' root xs \<and>
    (\<forall>vb. waddr (k_mem k') root vb = waddr (k_mem k) root vb) \<and>
    (if waddr (k_mem k) root va = None then r = -1 \<and> k_mem k' = k_mem k
     else r = 0 \<and> k_mem k' = user_store (k_mem k) root va [ch])"
proof -
  obtain r k' n where c: "copyout k root va [ch] = Done (r, k')" "copied k root xs va [ch] r k' n"
    using copyout_spec assms unfolding space_ok_def by blast
  then have "waddr (k_mem k') root vb = waddr (k_mem k) root vb" for vb
    unfolding copied_def by (intro waddr_cong) blast
  then show ?thesis using c by (auto simp: copied_def space_ok_def user_store_def)
qed

lemma user_store_Cons:
  assumes "\<And>vb. waddr (user_store m root va [b]) root vb = waddr m root vb"
  shows "user_store (user_store m root va [b]) root (va + 1) bs = user_store m root va (b # bs)"
  using user_store_append [of m root va "[b]" bs] assms by (simp add: user_store_def [of _ _ "va + 1"])

text \<open>
  The copying loop from byte \<open>i\<close>: it has stored \<open>bs\<close>; \<open>lost\<close> is the byte that it has taken from
  the buffer when the store fails.
\<close>

definition got :: "u64 \<Rightarrow> int \<Rightarrow> nat \<Rightarrow> nat \<Rightarrow> pipe \<Rightarrow> ptable \<Rightarrow> u64 list \<Rightarrow> nat \<Rightarrow> pipe \<Rightarrow> ptable \<Rightarrow>
    u8 list \<Rightarrow> u8 list \<Rightarrow> bool" where
  "got addr n me i p st xs j p' st' bs lost \<longleftrightarrow> (let root = p_pagetable (the_proc st me); m = k_mem (pt_kmem st) in
     pipe_inv p' \<and> pipe_bytes p = bs @ lost @ pipe_bytes p' \<and> j = i + length bs \<and>
     space_ok (pt_kmem st') root xs \<and> pt_procs st' = pt_procs st \<and>
     k_mem (pt_kmem st') = user_store m root (addr + of_nat i) bs \<and>
     (lost = [] \<and> (n \<le> int j \<or> pipe_bytes p' = []) \<or>
      length lost = 1 \<and> int j < n \<and> waddr m root (addr + of_nat j) = None))"

lemma piperead_got:
  assumes "pipe_inv p" and "space_ok (pt_kmem st) (p_pagetable (the_proc st me)) xs"
  shows "\<exists>j p' st' bs lost. piperead_copy addr n me i p st = Done (j, p', st') \<and>
    got addr n me i p st xs j p' st' bs lost"
  using assms
proof (induction addr n me i p st rule: piperead_copy.induct)
  case (1 addr n me i p st)
  let ?root = "p_pagetable (the_proc st me)" and ?m = "k_mem (pt_kmem st)"
  note unfold = piperead_copy.simps [of addr n me i p st]
  show ?case
  proof (cases "int i < n \<and> \<not> pipe_empty p")
    case False
    then show ?thesis using 1(2,3) unfolding unfold
      by (auto simp: got_def Let_def user_store_def pipe_empty_bytes)
  next
    case True
    obtain ch p1 where get: "pipe_get p = (ch, p1)" by (cases "pipe_get p")
    have ne: "pipe_bytes p \<noteq> []" using True by (simp add: pipe_empty_bytes)
    have g: "pipe_inv p1" "pipe_bytes p = ch # pipe_bytes p1"
      using pipe_get_bytes [OF 1(2)] True get ne by simp_all
    obtain r k' where c: "copyout (pt_kmem st) ?root (addr + of_nat i) [ch] = Done (r, k')" "space_ok k' ?root xs"
      "\<And>vb. waddr (k_mem k') ?root vb = waddr ?m ?root vb"
      "if waddr ?m ?root (addr + of_nat i) = None then r = -1 \<and> k_mem k' = ?m
       else r = 0 \<and> k_mem k' = user_store ?m ?root (addr + of_nat i) [ch]"
      using copyout_one [OF 1(3)] by metis
    show ?thesis
    proof (cases "waddr ?m ?root (addr + of_nat i) = None")
      case none: True
      then have "piperead_copy addr n me i p st = Done (i, p1, set_kmem k' st)"
        using True get c(1,4) unfolding unfold by simp
      moreover have "got addr n me i p st xs i p1 (set_kmem k' st) [] [ch]"
        using True none g c by (simp add: got_def Let_def user_store_def)
      ultimately show ?thesis by blast
    next
      case False
      then have k': "r = 0" "k_mem k' = user_store ?m ?root (addr + of_nat i) [ch]" using c(4) by simp_all
      have step: "piperead_copy addr n me i p st = piperead_copy addr n me (Suc i) p1 (set_kmem k' st)"
        using True get c(1) k'(1) unfolding unfold by simp
      obtain j p' st' bs lost where r: "piperead_copy addr n me (Suc i) p1 (set_kmem k' st) = Done (j, p', st')"
        "got addr n me (Suc i) p1 (set_kmem k' st) xs j p' st' bs lost"
        using 1(1) [OF _ _ get [symmetric] c(1) refl] True k'(1) g(1) c(2) by auto
      have "user_store (k_mem k') ?root (addr + of_nat (Suc i)) bs =
          user_store ?m ?root (addr + of_nat i) (ch # bs)"
        using user_store_Cons [of ?m ?root "addr + of_nat i" ch bs] c(3) k'(2) by (simp add: algebra_simps)
      then have "got addr n me i p st xs j p' st' (ch # bs) lost"
        using r(2) g(2) c(3) by (auto simp: got_def Let_def)
      then show ?thesis using step r(1) by auto
    qed
  qed
qed

section \<open>Properties\<close>

text \<open>
  Property C16: a stretch of \<open>pipewrite\<close>, from any byte on, never panics and appends to the
  bytes in transit exactly a prefix of what user memory holds, across the wrap-around of the
  counters. It returns -1 only for a closed read end or a killed caller, having written
  nothing in this stretch; it returns the number of bytes when all are written or user memory
  ends; and it sleeps only when the buffer is full and bytes remain.
\<close>

theorem pipewrite_appends:
  assumes "pipe_inv p"
  shows "\<exists>res p' st' bs. pipewrite_from pi addr n me i p st = Done (res, p', st') \<and>
    pipe_inv p' \<and> pipe_bytes p' = pipe_bytes p @ bs \<and> (bs \<noteq> [] \<longrightarrow> int (i + length bs) \<le> n) \<and>
    (\<forall>j<length bs. ubyte (pt_kmem st) (p_pagetable (the_proc st me)) (addr + of_nat i + of_nat j) = Some (bs ! j)) \<and>
    (case res of
       Returned r \<Rightarrow> r = -1 \<and> (\<not> pi_readopen p \<or> killed me st) \<and> bs = [] \<or>
         r = int (i + length bs) \<and> (n \<le> r \<or>
           ubyte (pt_kmem st) (p_pagetable (the_proc st me)) (addr + of_nat (i + length bs)) = None)
     | Asleep j \<Rightarrow> j = i + length bs \<and> int j < n \<and> length (pipe_bytes p') = PIPESIZE)"
proof -
  obtain res p' st' bs where "pipewrite_from pi addr n me i p st = Done (res, p', st')"
    "wrote addr n me i p st res p' st' bs"
    using pipewrite_wrote [OF assms] by blast
  then show ?thesis unfolding wrote_def matches_def pipe_full_bytes by blast
qed

text \<open>
  Property C11: bytes go through a pipe unchanged and in order. When a process writes up to
  \<^verbatim>\<open>PIPESIZE\<close> mapped bytes to an empty pipe and another reads as many into writable memory, both
  calls return the count, the pipe is empty again, and the memory of the machine is what byte
  stores of the written bytes at the reader's addresses make of it.
\<close>

theorem pipe_transfers_bytes:
  assumes "pipe_inv p" and "pipe_bytes p = []" and "pi_readopen p" and "\<not> killed w st"
    and "0 < length bs" and "length bs \<le> PIPESIZE" and "r < length (pt_procs st)"
    and "\<forall>j<length bs. ubyte (pt_kmem st) (p_pagetable (the_proc st w)) (a + of_nat j) = Some (bs ! j)"
    and "space_ok (pt_kmem st) (p_pagetable (the_proc st r)) xs"
    and "\<forall>j<length bs. waddr (k_mem (pt_kmem st)) (p_pagetable (the_proc st r)) (b + of_nat j) \<noteq> None"
  shows "\<exists>p1 st1 p2 st2. pipewrite pi a (int (length bs)) w p st = Done (Returned (int (length bs)), p1, st1) \<and>
    piperead pi b (int (length bs)) r p1 st1 = Done (Returned (int (length bs)), p2, st2) \<and>
    pipe_bytes p1 = bs \<and> pipe_bytes p2 = [] \<and>
    k_mem (pt_kmem st2) = user_store (k_mem (pt_kmem st)) (p_pagetable (the_proc st r)) b bs"
proof -
  let ?n = "int (length bs)"
  obtain res p1 st1 cs where w: "pipewrite_from pi a ?n w 0 p st = Done (res, p1, st1)"
    "wrote a ?n w 0 p st res p1 st1 cs"
    using pipewrite_wrote [OF assms(1)] by blast
  have len: "length cs \<le> length bs" using w(2) by (cases "cs = []") (simp_all add: wrote_def)
  have fits: "res = Asleep j \<Longrightarrow> False" for j
    using w(2) assms(2,6) by (auto simp: wrote_def pipe_full_bytes simp del: length_pipe_bytes)
  then obtain v where v: "res = Returned v" by (cases res) auto
  have "length cs = length bs \<and> v = ?n"
    using w(2) v len assms(3,4,8) by (auto simp: wrote_def le_less)
  moreover have "cs ! j = bs ! j" if "j < length cs" for j
    using w(2) assms(8) that len by (auto simp: wrote_def matches_def)
  ultimately have cs: "cs = bs" "res = Returned ?n" using v by (auto intro: nth_equalityI)
  have p1: "pipe_inv p1" "pipe_bytes p1 = bs" "pt_kmem st1 = pt_kmem st"
    "p_pagetable (the_proc st1 r) = p_pagetable (the_proc st r)"
    using w(2) cs(1) assms(2,7) by (auto simp: wrote_def)
  obtain j p2 st2 ds lost where g: "piperead_copy b ?n r 0 p1 st1 = Done (j, p2, st2)"
    "got b ?n r 0 p1 st1 xs j p2 st2 ds lost"
    using piperead_got [OF p1(1), of st1 r xs b ?n 0] assms(9) p1(3,4) by auto
  have bytes: "bs = ds @ lost @ pipe_bytes p2" "j = length ds"
    "lost = [] \<and> (?n \<le> int j \<or> pipe_bytes p2 = []) \<or> length lost = 1 \<and> int j < ?n \<and>
       waddr (k_mem (pt_kmem st)) (p_pagetable (the_proc st r)) (b + of_nat j) = None"
    "k_mem (pt_kmem st2) = user_store (k_mem (pt_kmem st)) (p_pagetable (the_proc st r)) b ds"
    using g(2) [unfolded got_def Let_def p1(2,3,4) add_0_left] by (blast, blast, blast, simp)
  have "lost = []" using bytes(2,3) assms(10) by auto
  moreover have "pipe_bytes p2 = []"
  proof -
    have "length bs \<le> length ds \<or> pipe_bytes p2 = []" using bytes(2,3) \<open>lost = []\<close> by auto
    moreover have "length bs = length ds + length (lost @ pipe_bytes p2)"
      by (subst bytes(1)) (simp only: length_append)
    ultimately show ?thesis by (metis add_le_same_cancel1 append_is_Nil_conv le_zero_eq length_0_conv)
  qed
  ultimately have ds: "ds = bs" using bytes(1) by simp
  have "\<not> pipe_empty p1" using p1(2) assms(5) by (auto simp: pipe_empty_bytes)
  then have "piperead pi b ?n r p1 st1 = Done (Returned ?n, p2, wakeup (ChanPipeWrite pi) (Some r) st2)"
    using g(1) bytes(2) ds by (simp add: piperead_def)
  then show ?thesis using w(1) cs p1(2) \<open>pipe_bytes p2 = []\<close> bytes(4) ds
    unfolding pipewrite_def
    by (intro exI [of _ p1] exI [of _ st1] exI [of _ p2] exI [of _ "wakeup (ChanPipeWrite pi) (Some r) st2"]
        conjI) simp_all
qed

section \<open>Witnesses\<close>

text \<open>A pipe whose counters are about to wrap, and two processes that share the page at 0.\<close>

definition wrap_pipe :: pipe where
  "wrap_pipe = \<lparr>pi_data = replicate PIPESIZE 0, pi_nread = 0xffffffff, pi_nwrite = 0xffffffff,
     pi_readopen = True, pi_writeopen = True\<rparr>"

definition pipe_pt :: ptable where
  "pipe_pt = demo_pt\<lparr>pt_kmem := demo_kmem, pt_procs := [zero_proc\<lparr>p_pagetable := demo_root\<rparr>,
     zero_proc\<lparr>p_pagetable := demo_root\<rparr>]\<rparr>"

lemma wrap_pipe_inv: "pipe_inv wrap_pipe" "pipe_bytes wrap_pipe = []"
  by (simp_all add: pipe_inv_def pipe_bytes_def wrap_pipe_def)

theorem pipewrite_appends_witness:
  "\<exists>res p' st' bs. pipewrite_from 0x87ff9000 0xffe 3 0 0 wrap_pipe pipe_pt = Done (res, p', st') \<and>
     pipe_bytes p' = bs \<and> pipe_inv p'"
  using pipewrite_appends [OF wrap_pipe_inv(1), of "0x87ff9000" "0xffe" 3 0 0 pipe_pt] wrap_pipe_inv(2)
  by auto

theorem pipe_transfers_bytes_witness:
  "\<exists>p1 st1 p2 st2. pipewrite 0x87ff9000 0 2 0 wrap_pipe pipe_pt = Done (Returned 2, p1, st1) \<and>
     piperead 0x87ff9000 0x100 2 1 p1 st1 = Done (Returned 2, p2, st2) \<and> pipe_bytes p1 = [0, 0] \<and> pipe_bytes p2 = []"
proof -
  have pt: "pt_kmem pipe_pt = demo_kmem" "p_pagetable (the_proc pipe_pt 0) = demo_root"
    "p_pagetable (the_proc pipe_pt 1) = demo_root" "\<not> killed 0 pipe_pt" "1 < length (pt_procs pipe_pt)"
    by (simp_all add: pipe_pt_def killed_def zero_proc_def)
  have b: "ubyte demo_kmem demo_root 0 = Some 0" "ubyte demo_kmem demo_root 1 = Some 0"
    by (simp_all add: demo_user)
      (simp_all add: demo_mem_def store_le_other in_range_def del: store_le.simps)
  have w: "waddr demo_mem demo_root 0x100 \<noteq> None" "waddr demo_mem demo_root 0x101 \<noteq> None"
    by (simp_all add: demo_user)
  have sp: "space_ok demo_kmem demo_root [0x87ffb000, 0x87ffa000]"
    using demo_inv demo_tree demo_data by (simp add: space_ok_def demo_kmem_def)
  have "\<exists>p1 st1 p2 st2. pipewrite 0x87ff9000 0 (int (length [0 :: u8, 0])) 0 wrap_pipe pipe_pt
      = Done (Returned (int (length [0 :: u8, 0])), p1, st1) \<and>
    piperead 0x87ff9000 0x100 (int (length [0 :: u8, 0])) 1 p1 st1 = Done (Returned (int (length [0 :: u8, 0])), p2, st2) \<and>
    pipe_bytes p1 = [0, 0] \<and> pipe_bytes p2 = [] \<and>
    k_mem (pt_kmem st2) = user_store (k_mem (pt_kmem pipe_pt)) (p_pagetable (the_proc pipe_pt 1)) 0x100 [0, 0]"
    by (rule pipe_transfers_bytes [OF wrap_pipe_inv _ pt(4) _ _ pt(5)])
      (use pt b w sp in \<open>auto simp: wrap_pipe_def less_Suc_eq demo_kmem_def\<close>)
  then show ?thesis by simp blast
qed

end
