(* ===== verification/KState.thy ===== *)
theory KState
  imports Scheduler Pipe Bytes
begin

text \<open>
  The state of the kernel that the file system and the system calls work on: the data
  structures of \<^verbatim>\<open>kernel/sleeplock.h\<close>, \<^verbatim>\<open>kernel/buf.h\<close>, \<^verbatim>\<open>kernel/log.c\<close>, \<^verbatim>\<open>kernel/fs.h\<close> and
  \<^verbatim>\<open>kernel/file.h\<close>, the disk, and one record that holds them together with the process table.
  Tables are lists and pointers into them are indices.
\<close>

section \<open>Data\<close>

abbreviation BSIZE :: nat where
  "BSIZE \<equiv> 1024"

abbreviation LOGSIZE :: nat where
  "LOGSIZE \<equiv> 30"

abbreviation NBUF :: nat where
  "NBUF \<equiv> 30"

abbreviation MAXOPBLOCKS :: nat where
  "MAXOPBLOCKS \<equiv> 10"

abbreviation NDIRECT :: nat where
  "NDIRECT \<equiv> 12"

abbreviation NINDIRECT :: nat where
  "NINDIRECT \<equiv> 256"

abbreviation NINODE :: nat where
  "NINODE \<equiv> 50"

abbreviation NFILE :: nat where
  "NFILE \<equiv> 100"

record sleeplock =
  sl_locked :: bool
  sl_lk :: spinlock
  sl_name :: string
  sl_pid :: u32

text \<open>A buffer; \<open>b_prev\<close> and \<open>b_next\<close> are indices of buffers, \<^verbatim>\<open>NBUF\<close> is the list head.\<close>

record buf =
  b_valid :: bool
  b_disk :: bool
  b_dev :: u32
  b_blockno :: u32
  b_lock :: sleeplock
  b_refcnt :: u32
  b_prev :: nat
  b_next :: nat
  b_data :: "u8 list"

text \<open>
  The disk: its blocks, and the writes that it has completed, oldest first. The history is
  what a power failure at some point leaves of it.
\<close>

record disk =
  dk_blocks :: "u32 \<Rightarrow> u8 list"
  dk_hist :: "(u32 \<times> u8 list) list"

record log =
  lg_start :: u32
  lg_size :: int
  lg_outstanding :: int
  lg_committing :: bool
  lg_dev :: u32
  lg_n :: int
  lg_block :: "u32 list"

record superblock =
  sb_magic :: u32
  sb_size :: u32
  sb_nblocks :: u32
  sb_ninodes :: u32
  sb_nlog :: u32
  sb_logstart :: u32
  sb_inodestart :: u32
  sb_bmapstart :: u32

record dinode =
  di_type :: u16
  di_major :: u16
  di_minor :: u16
  di_nlink :: u16
  di_size :: u32
  di_addrs :: "u32 list"

text \<open>The in-memory inode; the fields that copy the disk inode are one component.\<close>

record inode =
  i_dev :: u32
  i_inum :: u32
  i_ref :: int
  i_lock :: sleeplock
  i_valid :: bool
  i_d :: dinode

datatype filetype = FD_NONE | FD_PIPE | FD_INODE | FD_DEVICE

record kfile =
  f_type :: filetype
  f_ref :: int
  f_readable :: bool
  f_writable :: bool
  f_pipe :: "u64 option"
  f_ip :: "nat option"
  f_off :: u32
  f_major :: u16

text \<open>The console's input buffer with its three counters.\<close>

record cons =
  cn_buf :: "u8 list"
  cn_r :: u32
  cn_w :: u32
  cn_e :: u32

text \<open>
  The serial port: the transmit buffer with its two counters; what the next reads of the line status
  say about the transmit register, \<open>False\<close> once the list is used up; and the bytes that wait in the
  receive register.
\<close>

record uart =
  ua_tx_buf :: "u8 list"
  ua_tx_w :: u64
  ua_tx_r :: u64
  ua_idle :: "bool list"
  ua_rx :: "u8 list"

section \<open>The kernel\<close>

text \<open>
  \<open>ks_pipes\<close> gives the pipe on a page, \<open>ks_out\<close> is what has been written to the transmit register of
  the serial port, \<open>ks_reports\<close> the buffer of trap reports.
\<close>

record kst =
  ks_sys :: sys
  ks_bufs :: "buf list"
  ks_disk :: disk
  ks_log :: log
  ks_sb :: superblock
  ks_inodes :: "inode list"
  ks_files :: "kfile list"
  ks_pipes :: "u64 \<Rightarrow> pipe option"
  ks_cons :: cons
  ks_uart :: uart
  ks_out :: "u8 list"
  ks_reports :: report_list

abbreviation kpt :: "kst \<Rightarrow> ptable" where
  "kpt st \<equiv> sy_pt (ks_sys st)"

definition set_pt :: "ptable \<Rightarrow> kst \<Rightarrow> kst" where
  "set_pt pt st = st\<lparr>ks_sys := (ks_sys st)\<lparr>sy_pt := pt\<rparr>\<rparr>"

text \<open>\<^verbatim>\<open>myproc()\<close> in code that always runs for a process: a null pointer would fault.\<close>

definition current :: "kst \<Rightarrow> nat outcome" where
  "current st = deref (sy_proc (ks_sys st))"

definition kwakeup :: "chan \<Rightarrow> kst \<Rightarrow> kst" where
  "kwakeup ch st = set_pt (wakeup ch (sy_proc (ks_sys st)) (kpt st)) st"

lemma set_pt_simps [simp]:
  "kpt (set_pt pt st) = pt" "sy_proc (ks_sys (set_pt pt st)) = sy_proc (ks_sys st)"
  "ks_bufs (set_pt pt st) = ks_bufs st" "ks_disk (set_pt pt st) = ks_disk st" "ks_log (set_pt pt st) = ks_log st"
  "ks_sb (set_pt pt st) = ks_sb st" "ks_inodes (set_pt pt st) = ks_inodes st" "ks_files (set_pt pt st) = ks_files st"
  "ks_pipes (set_pt pt st) = ks_pipes st" "ks_cons (set_pt pt st) = ks_cons st" "ks_out (set_pt pt st) = ks_out st"
  "ks_uart (set_pt pt st) = ks_uart st" "ks_reports (set_pt pt st) = ks_reports st"
  by (simp_all add: set_pt_def)

lemma kwakeup_simps [simp]:
  "sy_proc (ks_sys (kwakeup ch st)) = sy_proc (ks_sys st)"
  "ks_bufs (kwakeup ch st) = ks_bufs st" "ks_disk (kwakeup ch st) = ks_disk st" "ks_log (kwakeup ch st) = ks_log st"
  "ks_sb (kwakeup ch st) = ks_sb st" "ks_inodes (kwakeup ch st) = ks_inodes st" "ks_files (kwakeup ch st) = ks_files st"
  "ks_pipes (kwakeup ch st) = ks_pipes st" "ks_cons (kwakeup ch st) = ks_cons st" "ks_out (kwakeup ch st) = ks_out st"
  "ks_uart (kwakeup ch st) = ks_uart st" "ks_reports (kwakeup ch st) = ks_reports st"
  "pt_kmem (kpt (kwakeup ch st)) = pt_kmem (kpt st)"
  "length (pt_procs (kpt (kwakeup ch st))) = length (pt_procs (kpt st))"
  by (simp_all add: kwakeup_def)

lemma kwakeup_pid [simp]:
  "i < length (pt_procs (kpt st)) \<Longrightarrow> p_pid (the_proc (kpt (kwakeup ch st)) i) = p_pid (the_proc (kpt st) i)"
  by (simp add: kwakeup_def wakeup_nth)

section \<open>Sleep locks\<close>

definition initsleeplock :: "string \<Rightarrow> sleeplock" where
  "initsleeplock nm = \<lparr>sl_locked = False, sl_lk = initlock ''sleep lock'', sl_name = nm, sl_pid = 0\<rparr>"

text \<open>
  \<open>acquiresleep\<close>: when the lock is held the caller sleeps until its holder releases it, which is
  \<open>Hang\<close> for a run of this process alone.
\<close>

definition acquiresleep :: "u32 \<Rightarrow> sleeplock \<Rightarrow> sleeplock outcome" where
  "acquiresleep pid lk = (if sl_locked lk then Hang else Done (lk\<lparr>sl_locked := True, sl_pid := pid\<rparr>))"

definition releasesleep :: "sleeplock \<Rightarrow> sleeplock" where
  "releasesleep lk = lk\<lparr>sl_locked := False, sl_pid := 0\<rparr>"

definition holdingsleep :: "u32 \<Rightarrow> sleeplock \<Rightarrow> bool" where
  "holdingsleep pid lk \<longleftrightarrow> sl_locked lk \<and> sl_pid lk = pid"

definition mypid :: "kst \<Rightarrow> u32 outcome" where
  "mypid st = obind (current st) (\<lambda>i. Done (p_pid (the_proc (kpt st) i)))"

lemma nth_beyond: "length xs = length ys \<Longrightarrow> length xs \<le> i \<Longrightarrow> xs ! i = ys ! i"
  by (induction xs ys arbitrary: i rule: list_induct2) (auto simp: nth_Cons split: nat.split)

lemma mypid_kwakeup [simp]: "mypid (kwakeup ch st) = mypid st"
proof -
  have "p_pid (the_proc (kpt (kwakeup ch st)) i) = p_pid (the_proc (kpt st) i)" for i
    using nth_beyond [of "pt_procs (kpt (kwakeup ch st))" "pt_procs (kpt st)" i] by (cases "i < length (pt_procs (kpt st))") auto
  then show ?thesis by (simp add: mypid_def current_def)
qed

end
