(* ===== verification/Bio.thy ===== *)
theory Bio
  imports KState
begin

text \<open>
  \<^verbatim>\<open>kernel/bio.c\<close>: the buffer cache. The buffers are a list with the list head of the LRU chain as
  entry \<^verbatim>\<open>NBUF\<close>; a pointer to a buffer is its index. The loops along the chain have fuel
  \<^verbatim>\<open>NBUF + 1\<close>, enough for a chain of all buffers. Clients see the cache through three
  functions: the contents of every block, the number of references to it and the process that
  has it locked. The lemmas at the end give each operation as an update of these functions.
\<close>

section \<open>Operations\<close>

definition upd_buf :: "nat \<Rightarrow> (buf \<Rightarrow> buf) \<Rightarrow> buf list \<Rightarrow> buf list" where
  "upd_buf i f bs = bs[i := f (bs ! i)]"

text \<open>Putting a buffer right after the head of the chain.\<close>

definition link_first :: "nat \<Rightarrow> buf list \<Rightarrow> buf list" where
  "link_first i bs =
     (let bs = upd_buf i (\<lambda>b. b\<lparr>b_next := b_next (bs ! NBUF), b_prev := NBUF\<rparr>) bs;
          bs = upd_buf (b_next (bs ! NBUF)) (\<lambda>b. b\<lparr>b_prev := i\<rparr>) bs
      in upd_buf NBUF (\<lambda>b. b\<lparr>b_next := i\<rparr>) bs)"

definition unlink_buf :: "nat \<Rightarrow> buf list \<Rightarrow> buf list" where
  "unlink_buf i bs =
     (let bs = upd_buf (b_next (bs ! i)) (\<lambda>b. b\<lparr>b_prev := b_prev (bs ! i)\<rparr>) bs
      in upd_buf (b_prev (bs ! i)) (\<lambda>b. b\<lparr>b_next := b_next (bs ! i)\<rparr>) bs)"

definition binit :: "buf list \<Rightarrow> buf list" where
  "binit bs =
     (let bs = upd_buf NBUF (\<lambda>b. b\<lparr>b_prev := NBUF, b_next := NBUF\<rparr>) bs
      in fold (\<lambda>i bs. link_first i (upd_buf i (\<lambda>b. b\<lparr>b_lock := initsleeplock ''buffer''\<rparr>) bs)) [0..<NBUF] bs)"

text \<open>The two loops of \<open>bget\<close>: the search for the block, and for an unused buffer from the other end.\<close>

fun bget_cached :: "nat \<Rightarrow> u32 \<Rightarrow> u32 \<Rightarrow> buf list \<Rightarrow> nat \<Rightarrow> nat option outcome" where
  "bget_cached 0 dev blockno bs i = Hang"
| "bget_cached (Suc n) dev blockno bs i =
     (if i = NBUF then Done None
      else if b_dev (bs ! i) = dev \<and> b_blockno (bs ! i) = blockno then Done (Some i)
      else bget_cached n dev blockno bs (b_next (bs ! i)))"

fun bget_unused :: "nat \<Rightarrow> buf list \<Rightarrow> nat \<Rightarrow> nat option outcome" where
  "bget_unused 0 bs i = Hang"
| "bget_unused (Suc n) bs i =
     (if i = NBUF then Done None
      else if b_refcnt (bs ! i) = 0 then Done (Some i)
      else bget_unused n bs (b_prev (bs ! i)))"

definition lock_buf :: "nat \<Rightarrow> kst \<Rightarrow> (nat \<times> kst) outcome" where
  "lock_buf i st = obind (mypid st) (\<lambda>pid. obind (acquiresleep pid (b_lock (ks_bufs st ! i))) (\<lambda>lk.
     Done (i, st\<lparr>ks_bufs := upd_buf i (\<lambda>b. b\<lparr>b_lock := lk\<rparr>) (ks_bufs st)\<rparr>)))"

definition bget :: "u32 \<Rightarrow> u32 \<Rightarrow> kst \<Rightarrow> (nat \<times> kst) outcome" where
  "bget dev blockno st =
     obind (bget_cached (Suc NBUF) dev blockno (ks_bufs st) (b_next (ks_bufs st ! NBUF))) (\<lambda>r. case r of
       Some i \<Rightarrow> lock_buf i (st\<lparr>ks_bufs := upd_buf i (\<lambda>b. b\<lparr>b_refcnt := b_refcnt b + 1\<rparr>) (ks_bufs st)\<rparr>)
     | None \<Rightarrow> obind (bget_unused (Suc NBUF) (ks_bufs st) (b_prev (ks_bufs st ! NBUF))) (\<lambda>r. case r of
         Some i \<Rightarrow> lock_buf i (st\<lparr>ks_bufs := upd_buf i (\<lambda>b. b\<lparr>b_dev := dev, b_blockno := blockno,
           b_valid := False, b_refcnt := 1\<rparr>) (ks_bufs st)\<rparr>)
       | None \<Rightarrow> Panic ''bget: no buffers''))"

text \<open>
  The effect of \<^verbatim>\<open>virtio_disk_rw\<close>, which returns when the device has transferred the block
  between the disk and the buffer.
\<close>

definition disk_read :: "nat \<Rightarrow> kst \<Rightarrow> kst" where
  "disk_read i st = st\<lparr>ks_bufs := upd_buf i (\<lambda>b. b\<lparr>b_data := dk_blocks (ks_disk st) (b_blockno b)\<rparr>) (ks_bufs st)\<rparr>"

definition disk_put :: "u32 \<Rightarrow> u8 list \<Rightarrow> disk \<Rightarrow> disk" where
  "disk_put b v d = d\<lparr>dk_blocks := (dk_blocks d)(b := v), dk_hist := dk_hist d @ [(b, v)]\<rparr>"

definition disk_write :: "nat \<Rightarrow> kst \<Rightarrow> kst" where
  "disk_write i st =
     st\<lparr>ks_disk := disk_put (b_blockno (ks_bufs st ! i)) (b_data (ks_bufs st ! i)) (ks_disk st)\<rparr>"

definition bread :: "u32 \<Rightarrow> u32 \<Rightarrow> kst \<Rightarrow> (nat \<times> kst) outcome" where
  "bread dev blockno st = obind (bget dev blockno st) (\<lambda>(i, st).
     if \<not> b_valid (ks_bufs st ! i)
     then let st = disk_read i st
          in Done (i, st\<lparr>ks_bufs := upd_buf i (\<lambda>b. b\<lparr>b_valid := True\<rparr>) (ks_bufs st)\<rparr>)
     else Done (i, st))"

definition bwrite :: "nat \<Rightarrow> kst \<Rightarrow> kst outcome" where
  "bwrite i st = obind (mypid st) (\<lambda>pid.
     if \<not> holdingsleep pid (b_lock (ks_bufs st ! i)) then Panic ''bwrite'' else Done (disk_write i st))"

definition brelse :: "nat \<Rightarrow> kst \<Rightarrow> kst outcome" where
  "brelse i st = obind (mypid st) (\<lambda>pid.
     if \<not> holdingsleep pid (b_lock (ks_bufs st ! i)) then Panic ''brelse''
     else let st = kwakeup (ChanBuf i) (st\<lparr>ks_bufs := upd_buf i (\<lambda>b. b\<lparr>b_lock := releasesleep (b_lock b)\<rparr>) (ks_bufs st)\<rparr>);
              bs = upd_buf i (\<lambda>b. b\<lparr>b_refcnt := b_refcnt b - 1\<rparr>) (ks_bufs st);
              bs = (if b_refcnt (bs ! i) = 0 then link_first i (unlink_buf i bs) else bs)
          in Done (st\<lparr>ks_bufs := bs\<rparr>))"

definition bpin :: "nat \<Rightarrow> kst \<Rightarrow> kst" where
  "bpin i st = st\<lparr>ks_bufs := upd_buf i (\<lambda>b. b\<lparr>b_refcnt := b_refcnt b + 1\<rparr>) (ks_bufs st)\<rparr>"

definition bunpin :: "nat \<Rightarrow> kst \<Rightarrow> kst" where
  "bunpin i st = st\<lparr>ks_bufs := upd_buf i (\<lambda>b. b\<lparr>b_refcnt := b_refcnt b - 1\<rparr>) (ks_bufs st)\<rparr>"

lemma length_upd_buf [simp]: "length (upd_buf i f bs) = length bs"
  by (simp add: upd_buf_def)

lemma nth_upd_buf: "j < length bs \<Longrightarrow> upd_buf i f bs ! j = (if j = i then f (bs ! j) else bs ! j)"
  by (simp add: upd_buf_def nth_list_update)

section \<open>The LRU chain\<close>

text \<open>Consecutive elements point to each other.\<close>

fun chain :: "(nat \<Rightarrow> nat) \<Rightarrow> (nat \<Rightarrow> nat) \<Rightarrow> nat list \<Rightarrow> bool" where
  "chain nx pv (x # y # zs) \<longleftrightarrow> nx x = y \<and> pv y = x \<and> chain nx pv (y # zs)"
| "chain nx pv zs \<longleftrightarrow> True"

lemma chain_append: "chain nx pv (xs @ y # ys) \<longleftrightarrow> chain nx pv (xs @ [y]) \<and> chain nx pv (y # ys)"
  by (induction nx pv xs rule: chain.induct) (auto elim: chain.elims)

lemma chain_cong:
  "(\<And>x. x \<in> set (butlast zs) \<Longrightarrow> nx x = nx' x) \<Longrightarrow> (\<And>x. x \<in> set (tl zs) \<Longrightarrow> pv x = pv' x) \<Longrightarrow>
     chain nx pv zs \<longleftrightarrow> chain nx' pv' zs"
  by (induction nx pv zs rule: chain.induct) auto

abbreviation nx :: "buf list \<Rightarrow> nat \<Rightarrow> nat" where
  "nx bs i \<equiv> b_next (bs ! i)"

abbreviation pv :: "buf list \<Rightarrow> nat \<Rightarrow> nat" where
  "pv bs i \<equiv> b_prev (bs ! i)"

text \<open>The chain from the head back to the head holds every buffer once, most recent first.\<close>

definition lru :: "buf list \<Rightarrow> nat list \<Rightarrow> bool" where
  "lru bs xs \<longleftrightarrow> distinct xs \<and> set xs = {..<NBUF} \<and> chain (nx bs) (pv bs) (NBUF # xs @ [NBUF])"

lemma chain_insert:
  assumes "chain f g (H # ys @ [H])" and "i \<notin> set ys" and "i \<noteq> H" and "H \<notin> set ys" and "distinct ys"
  shows "chain (f(i := f H, H := i)) (g(i := H, f H := i)) (H # i # ys @ [H])"
proof -
  obtain z zs where z: "ys @ [H] = z # zs" by (cases ys) auto
  have c: "f H = z" "chain f g (z # zs)" using assms(1) z by simp_all
  have b: "butlast (z # zs) = ys" using z by (metis butlast_snoc)
  have "set (z # zs) = insert H (set ys)" "distinct (z # zs)" using assms(4,5) by (simp_all flip: z)
  then have d: "z \<noteq> i" "i \<notin> set zs" "z \<notin> set zs" using assms(2,3) by auto
  have "chain (f(i := z, H := i)) (g(i := H, z := i)) (z # zs)"
    using c(2) d assms(2,4) by (subst chain_cong [where nx' = f and pv' = g]) (auto simp: b simp del: butlast.simps)
  then show ?thesis using z c(1) d(1) assms(3) by simp
qed

lemma chain_remove:
  assumes "chain f g (H # as @ i # bs @ [H])" and "distinct (H # as @ i # bs)"
  shows "chain (f(g i := f i)) (g(f i := g i)) (H # as @ bs @ [H])"
proof -
  obtain as' p where p: "H # as = as' @ [p]" by (metis append_butlast_last_id list.distinct(1))
  obtain n bs' where n: "bs @ [H] = n # bs'" by (cases bs) auto
  have "chain f g ((H # as) @ i # (bs @ [H]))" using assms(1) by simp
  then have c: "chain f g (as' @ p # i # n # bs')" unfolding p n by simp
  have gi: "g i = p" "f i = n" and c1: "chain f g (as' @ [p])" and c2: "chain f g (n # bs')"
    using iffD1 [OF chain_append c] by auto
  have tls: "tl (as' @ [p]) = as" "butlast (as' @ [p]) = as'" "butlast (n # bs') = bs"
    using arg_cong [OF p, of tl] arg_cong [OF n, of butlast] by simp_all
  have d: "distinct (as' @ [p])" "distinct (n # bs')" "p \<notin> set bs" "n \<notin> set as"
  proof -
    have "distinct (H # as)" "distinct (bs @ [H])" using assms(2) by auto
    then show "distinct (as' @ [p])" "distinct (n # bs')" by (simp_all only: p n)
    have "p \<in> set (H # as)" "n \<in> set (bs @ [H])" unfolding p n by simp_all
    then show "p \<notin> set bs" "n \<notin> set as" using assms(2) by auto
  qed
  have "chain (f(p := n)) (g(n := p)) (as' @ [p])"
    using c1 d(1,4) by (subst chain_cong [where nx' = f and pv' = g]) (auto simp: tls)
  moreover have "chain (f(p := n)) (g(n := p)) (n # bs')"
    using c2 d(2,3) by (subst chain_cong [where nx' = f and pv' = g]) (auto simp: tls(3) simp del: butlast.simps)
  ultimately have "chain (f(p := n)) (g(n := p)) (as' @ p # n # bs')"
    by (intro iffD2 [OF chain_append]) simp
  then have "chain (f(p := n)) (g(n := p)) ((H # as) @ (bs @ [H]))" unfolding p n by simp
  then show ?thesis by (simp add: gi)
qed

lemma nx_link_first:
  assumes "length bs = Suc NBUF" and "i < NBUF" and "nx bs NBUF \<le> NBUF" and "j \<le> NBUF"
  shows "nx (link_first i bs) j = ((nx bs)(i := nx bs NBUF, NBUF := i)) j"
    and "pv (link_first i bs) j = ((pv bs)(i := NBUF, nx bs NBUF := i)) j"
  using assms by (auto simp: link_first_def Let_def nth_upd_buf)

lemma nx_unlink_buf:
  assumes "length bs = Suc NBUF" and "i < NBUF" and "nx bs i \<le> NBUF" and "nx bs i \<noteq> i" and "j \<le> NBUF"
  shows "nx (unlink_buf i bs) j = ((nx bs)(pv bs i := nx bs i)) j"
    and "pv (unlink_buf i bs) j = ((pv bs)(nx bs i := pv bs i)) j"
  using assms by (auto simp: unlink_buf_def Let_def nth_upd_buf)

lemma chain_agree:
  assumes "chain f g zs" and "set zs \<subseteq> {..NBUF}" and "\<And>j. j \<le> NBUF \<Longrightarrow> nx bs j = f j" and "\<And>j. j \<le> NBUF \<Longrightarrow> pv bs j = g j"
  shows "chain (nx bs) (pv bs) zs"
proof (rule iffD2 [OF chain_cong assms(1)])
  fix x assume "x \<in> set (butlast zs)"
  then show "nx bs x = f x" using assms(2,3) by (auto dest: in_set_butlastD)
next
  fix x assume "x \<in> set (tl zs)"
  then show "pv bs x = g x" using assms(2,4) by (cases zs) auto
qed

lemma chain_first:
  assumes "chain (nx bs) (pv bs) (NBUF # ys @ [NBUF])" and "set ys \<subseteq> {..<NBUF}"
  shows "nx bs NBUF \<le> NBUF"
  using assms by (cases ys) auto

lemma link_first_chain:
  assumes "length bs = Suc NBUF" and "chain (nx bs) (pv bs) (NBUF # ys @ [NBUF])" and "set ys \<subseteq> {..<NBUF}"
    and "distinct ys" and "i < NBUF" and "i \<notin> set ys"
  shows "chain (nx (link_first i bs)) (pv (link_first i bs)) (NBUF # i # ys @ [NBUF])"
proof (rule chain_agree)
  show "chain ((nx bs)(i := nx bs NBUF, NBUF := i)) ((pv bs)(i := NBUF, nx bs NBUF := i)) (NBUF # i # ys @ [NBUF])"
    using assms by (intro chain_insert) auto
  show "set (NBUF # i # ys @ [NBUF]) \<subseteq> {..NBUF}" using assms(3,5) by auto
qed (use nx_link_first [OF assms(1,5) chain_first [OF assms(2,3)]] in blast)+

text \<open>Releasing a buffer makes it the most recent one.\<close>

lemma lru_release:
  assumes "length bs = Suc NBUF" and "lru bs xs" and "i < NBUF"
  shows "lru (link_first i (unlink_buf i bs)) (i # remove1 i xs)"
proof -
  have xs: "distinct xs" "set xs = {..<NBUF}" "chain (nx bs) (pv bs) (NBUF # xs @ [NBUF])"
    using assms(2) by (simp_all add: lru_def)
  then obtain ys zs where s: "xs = ys @ i # zs" using assms(3) by (metis lessThan_iff split_list)
  have c: "chain (nx bs) (pv bs) (NBUF # ys @ i # zs @ [NBUF])" using xs(3) s by simp
  have c': "chain (nx bs) (pv bs) ((NBUF # ys) @ i # zs @ [NBUF])" using c by simp
  have "chain (nx bs) (pv bs) (i # zs @ [NBUF])" by (rule conjunct2 [OF iffD1 [OF chain_append c']])
  then have "nx bs i = hd (zs @ [NBUF])" by (cases zs) auto
  moreover have sub: "\<forall>x\<in>set xs. x < NBUF" using xs(2) by blast
  ultimately have i: "nx bs i \<le> NBUF" "nx bs i \<noteq> i" using xs(1) s assms(3) by (cases zs; auto)+
  have "chain (nx (unlink_buf i bs)) (pv (unlink_buf i bs)) (NBUF # (ys @ zs) @ [NBUF])"
  proof (rule chain_agree)
    show "chain ((nx bs)(pv bs i := nx bs i)) ((pv bs)(nx bs i := pv bs i)) (NBUF # (ys @ zs) @ [NBUF])"
      using chain_remove [OF c] xs(1) sub s by auto
    show "set (NBUF # (ys @ zs) @ [NBUF]) \<subseteq> {..NBUF}" using sub s by (auto intro: less_imp_le)
  qed (use nx_unlink_buf [OF assms(1,3) i] in blast)+
  moreover have "length (unlink_buf i bs) = Suc NBUF" using assms(1) by (simp add: unlink_buf_def Let_def)
  ultimately have "chain (nx (link_first i (unlink_buf i bs))) (pv (link_first i (unlink_buf i bs)))
      (NBUF # i # (ys @ zs) @ [NBUF])"
    using xs(1) sub s assms(3) by (intro link_first_chain) auto
  moreover have "remove1 i xs = ys @ zs" using xs(1) s by (simp add: remove1_append)
  moreover have "set (i # remove1 i xs) = set xs" "distinct (i # remove1 i xs)" using xs(1) s by (auto simp: remove1_append)
  ultimately show ?thesis unfolding lru_def using xs(2) by simp
qed

text \<open>The two loops walk the whole chain.\<close>

lemma bget_cached_find:
  assumes "chain (nx bs) (pv bs) (a # ys @ [NBUF])" and "NBUF \<notin> set ys" and "length ys < n"
  shows "bget_cached n dev bno bs (nx bs a) =
    Done (find (\<lambda>i. b_dev (bs ! i) = dev \<and> b_blockno (bs ! i) = bno) ys)"
  using assms
proof (induction ys arbitrary: a n)
  case Nil
  then show ?case by (cases n) auto
next
  case (Cons y ys)
  then obtain m where n: "n = Suc m" by (cases n) auto
  have "nx bs a = y" using Cons.prems(1) by simp
  then show ?case using Cons.prems Cons.IH [of y m] n by auto
qed

lemma bget_unused_find:
  assumes "chain (nx bs) (pv bs) (NBUF # ys @ [a])" and "NBUF \<notin> set ys" and "length ys < n"
  shows "bget_unused n bs (pv bs a) = Done (find (\<lambda>i. b_refcnt (bs ! i) = 0) (rev ys))"
  using assms
proof (induction ys arbitrary: a n rule: rev_induct)
  case Nil
  then show ?case by (cases n) auto
next
  case (snoc y ys)
  then obtain m where n: "n = Suc m" by (cases n) auto
  have c: "chain (nx bs) (pv bs) ((NBUF # ys) @ y # [a])" using snoc.prems(1) by simp
  have "pv bs a = y" "chain (nx bs) (pv bs) (NBUF # ys @ [y])" using iffD1 [OF chain_append c] by auto
  then show ?case using snoc.prems snoc.IH [of y m] n by auto
qed

lemma lru_bget:
  assumes "lru bs xs"
  shows "bget_cached (Suc NBUF) dev bno bs (nx bs NBUF) =
      Done (find (\<lambda>i. b_dev (bs ! i) = dev \<and> b_blockno (bs ! i) = bno) xs)"
    and "bget_unused (Suc NBUF) bs (pv bs NBUF) = Done (find (\<lambda>i. b_refcnt (bs ! i) = 0) (rev xs))"
proof -
  have xs: "distinct xs" "set xs = {..<NBUF}" "chain (nx bs) (pv bs) (NBUF # xs @ [NBUF])"
    using assms by (simp_all add: lru_def)
  have "length xs < Suc NBUF" using distinct_card [OF xs(1)] xs(2) by simp
  moreover have "NBUF \<notin> set xs" using xs(2) by simp
  ultimately show "bget_cached (Suc NBUF) dev bno bs (nx bs NBUF) =
      Done (find (\<lambda>i. b_dev (bs ! i) = dev \<and> b_blockno (bs ! i) = bno) xs)"
    and "bget_unused (Suc NBUF) bs (pv bs NBUF) = Done (find (\<lambda>i. b_refcnt (bs ! i) = 0) (rev xs))"
    using bget_cached_find bget_unused_find xs(3) by blast+
qed

section \<open>What clients see\<close>

abbreviation ROOTDEV :: u32 where
  "ROOTDEV \<equiv> 1"

text \<open>The buffer that holds a block of the root device.\<close>

definition cached :: "buf list \<Rightarrow> u32 \<Rightarrow> nat \<Rightarrow> bool" where
  "cached bs b i \<longleftrightarrow> i < NBUF \<and> b_dev (bs ! i) = ROOTDEV \<and> b_blockno (bs ! i) = b"

definition slot_of :: "buf list \<Rightarrow> u32 \<Rightarrow> nat option" where
  "slot_of bs b = find (cached bs b) [0..<NBUF]"

definition view :: "kst \<Rightarrow> u32 \<Rightarrow> u8 list" where
  "view st b = (case slot_of (ks_bufs st) b of None \<Rightarrow> dk_blocks (ks_disk st) b | Some i \<Rightarrow> b_data (ks_bufs st ! i))"

definition refs :: "kst \<Rightarrow> u32 \<Rightarrow> nat" where
  "refs st b = (case slot_of (ks_bufs st) b of None \<Rightarrow> 0 | Some i \<Rightarrow> unat (b_refcnt (ks_bufs st ! i)))"

definition owner :: "kst \<Rightarrow> u32 \<Rightarrow> u32 option" where
  "owner st b = (case slot_of (ks_bufs st) b of None \<Rightarrow> None
     | Some i \<Rightarrow> if sl_locked (b_lock (ks_bufs st ! i)) then Some (sl_pid (b_lock (ks_bufs st ! i))) else None)"

text \<open>
  The invariant: one buffer per block, buffers hold a block exactly when they are valid, locked
  buffers are referenced, and unreferenced ones agree with the disk.
\<close>

definition buf_ok :: "(u32 \<Rightarrow> u8 list) \<Rightarrow> buf \<Rightarrow> bool" where
  "buf_ok dk b \<longleftrightarrow> length (b_data b) = BSIZE \<and> (b_valid b \<longleftrightarrow> b_dev b = ROOTDEV) \<and>
     (b_dev b \<noteq> ROOTDEV \<longrightarrow> b_refcnt b = 0) \<and> (sl_locked (b_lock b) \<longrightarrow> b_refcnt b \<noteq> 0) \<and>
     (b_valid b \<longrightarrow> b_refcnt b = 0 \<longrightarrow> b_data b = dk (b_blockno b))"

definition bcache_ok :: "kst \<Rightarrow> bool" where
  "bcache_ok st \<longleftrightarrow> length (ks_bufs st) = Suc NBUF \<and> (\<exists>xs. lru (ks_bufs st) xs) \<and>
     (\<forall>b. length (dk_blocks (ks_disk st) b) = BSIZE) \<and>
     (\<forall>i<NBUF. buf_ok (dk_blocks (ks_disk st)) (ks_bufs st ! i)) \<and>
     (\<forall>i j b. cached (ks_bufs st) b i \<longrightarrow> cached (ks_bufs st) b j \<longrightarrow> i = j)"

lemma find_SomeD: "find P xs = Some x \<Longrightarrow> P x" "find P xs = Some x \<Longrightarrow> x \<in> set xs"
  by (induction xs) (auto split: if_splits)

lemma find_upt_Some: "find P [0..<n] = Some i \<Longrightarrow> i < n \<and> P i"
  by (auto simp: find_Some_iff)

lemma slot_of_eq:
  assumes "bcache_ok st"
  shows "slot_of (ks_bufs st) b = Some i \<longleftrightarrow> cached (ks_bufs st) b i"
proof
  assume "cached (ks_bufs st) b i"
  moreover from this have "find (cached (ks_bufs st) b) [0..<NBUF] \<noteq> None"
    by (auto simp: find_None_iff cached_def)
  ultimately show "slot_of (ks_bufs st) b = Some i"
    using assms find_upt_Some unfolding slot_of_def bcache_ok_def by (metis option.exhaust)
qed (auto simp: slot_of_def dest: find_upt_Some)

lemma slot_of_None: "slot_of bs b = None \<longleftrightarrow> (\<forall>i. \<not> cached bs b i)"
  by (auto simp: slot_of_def find_None_iff cached_def)

text \<open>A handle gives the three functions at its block.\<close>

lemma cached_simps:
  assumes "bcache_ok st" and "cached (ks_bufs st) b i"
  shows "view st b = b_data (ks_bufs st ! i)" and "refs st b = unat (b_refcnt (ks_bufs st ! i))"
    and "owner st b = (if sl_locked (b_lock (ks_bufs st ! i)) then Some (sl_pid (b_lock (ks_bufs st ! i))) else None)"
  using slot_of_eq [OF assms(1), of b i] assms(2) by (simp_all add: view_def refs_def owner_def)

lemma uncached_simps:
  assumes "\<forall>i. \<not> cached (ks_bufs st) b i"
  shows "view st b = dk_blocks (ks_disk st) b" and "refs st b = 0" and "owner st b = None"
  using slot_of_None [of "ks_bufs st" b] assms by (simp_all add: view_def refs_def owner_def)

text \<open>The number of blocks that are referenced; when it is below \<^verbatim>\<open>NBUF\<close> there is a buffer to recycle.\<close>

definition pins :: "(u32 \<Rightarrow> nat) \<Rightarrow> nat" where
  "pins r = card {b. 0 < r b}"

lemma referenced_blocks:
  assumes "bcache_ok st"
  shows "{b. 0 < refs st b} = (\<lambda>i. b_blockno (ks_bufs st ! i)) ` {i. i < NBUF \<and> b_refcnt (ks_bufs st ! i) \<noteq> 0}"
proof -
  have "0 < refs st b \<longleftrightarrow> (\<exists>i. cached (ks_bufs st) b i \<and> b_refcnt (ks_bufs st ! i) \<noteq> 0)" for b
    using cached_simps(2) [OF assms, of b] uncached_simps(2) [of st b]
    by (metis less_irrefl unat_eq_0 neq0_conv)
  moreover have "b_dev (ks_bufs st ! i) = ROOTDEV" if "i < NBUF" "b_refcnt (ks_bufs st ! i) \<noteq> 0" for i
    using assms that unfolding bcache_ok_def buf_ok_def by blast
  ultimately show ?thesis unfolding cached_def by auto
qed

lemma finite_referenced: "bcache_ok st \<Longrightarrow> finite {b. 0 < refs st b}"
  by (subst referenced_blocks) auto

lemma unused_buffer:
  assumes "bcache_ok st" and "pins (refs st) < NBUF"
  shows "\<exists>i<NBUF. b_refcnt (ks_bufs st ! i) = 0"
proof (rule ccontr)
  assume "\<not> ?thesis"
  then have all: "{i. i < NBUF \<and> b_refcnt (ks_bufs st ! i) \<noteq> 0} = {..<NBUF}" by auto
  have "b_dev (ks_bufs st ! i) = ROOTDEV" if "i < NBUF" for i
    using assms(1) that all unfolding bcache_ok_def buf_ok_def by blast
  then have "inj_on (\<lambda>i. b_blockno (ks_bufs st ! i)) {..<NBUF}"
    using assms(1) unfolding bcache_ok_def cached_def inj_on_def by auto
  then have "pins (refs st) = NBUF"
    unfolding pins_def referenced_blocks [OF assms(1)] all by (simp add: card_image)
  then show False using assms(2) by simp
qed

section \<open>What the operations do\<close>

text \<open>
  The operations of the file system change, besides their own data, only buffers, the disk and,
  by waking them up, the states of processes.
\<close>

definition quiet :: "kst \<Rightarrow> kst \<Rightarrow> bool" where
  "quiet st st' \<longleftrightarrow> (\<exists>bs dk ps. st' = st\<lparr>ks_bufs := bs, ks_disk := dk,
       ks_sys := (ks_sys st)\<lparr>sy_pt := (kpt st)\<lparr>pt_procs := ps\<rparr>\<rparr>\<rparr> \<and>
     (\<forall>i. ps ! i = (the_proc (kpt st) i)\<lparr>p_state := p_state (ps ! i)\<rparr>) \<and> length ps = length (pt_procs (kpt st)))"

lemma quietD:
  assumes "quiet st st'"
  shows "ks_log st' = ks_log st" "ks_sb st' = ks_sb st" "ks_inodes st' = ks_inodes st" "ks_files st' = ks_files st"
    "ks_pipes st' = ks_pipes st" "ks_cons st' = ks_cons st" "ks_out st' = ks_out st" "ks_reports st' = ks_reports st"
    "pt_kmem (kpt st') = pt_kmem (kpt st)" "sy_proc (ks_sys st') = sy_proc (ks_sys st)" "mypid st' = mypid st"
    "length (pt_procs (kpt st')) = length (pt_procs (kpt st))"
    "the_proc (kpt st') i = (the_proc (kpt st) i)\<lparr>p_state := p_state (the_proc (kpt st') i)\<rparr>"
proof -
  obtain bs dk ps where s: "st' = st\<lparr>ks_bufs := bs, ks_disk := dk,
       ks_sys := (ks_sys st)\<lparr>sy_pt := (kpt st)\<lparr>pt_procs := ps\<rparr>\<rparr>\<rparr>" "length ps = length (pt_procs (kpt st))"
    and p: "\<And>i. ps ! i = (the_proc (kpt st) i)\<lparr>p_state := p_state (ps ! i)\<rparr>"
    using assms unfolding quiet_def by blast
  show "ks_log st' = ks_log st" "ks_sb st' = ks_sb st" "ks_inodes st' = ks_inodes st" "ks_files st' = ks_files st"
    "ks_pipes st' = ks_pipes st" "ks_cons st' = ks_cons st" "ks_out st' = ks_out st" "ks_reports st' = ks_reports st"
    "pt_kmem (kpt st') = pt_kmem (kpt st)" "sy_proc (ks_sys st') = sy_proc (ks_sys st)"
    "length (pt_procs (kpt st')) = length (pt_procs (kpt st))"
    using s by simp_all
  show q: "the_proc (kpt st') i = (the_proc (kpt st) i)\<lparr>p_state := p_state (the_proc (kpt st') i)\<rparr>" for i
    using s(1) p [of i] by simp
  have "p_pid (the_proc (kpt st') i) = p_pid (the_proc (kpt st) i)" for i by (subst q) simp
  then show "mypid st' = mypid st" using s(1) by (simp add: mypid_def current_def)
qed

lemma quiet_refl [simp]: "quiet st st"
  unfolding quiet_def by (rule exI [of _ "ks_bufs st"], rule exI [of _ "ks_disk st"], rule exI [of _ "pt_procs (kpt st)"]) simp

lemma quiet_trans [trans]:
  assumes "quiet st st1" and "quiet st1 st2"
  shows "quiet st st2"
proof -
  obtain bs dk ps where s: "st1 = st\<lparr>ks_bufs := bs, ks_disk := dk,
       ks_sys := (ks_sys st)\<lparr>sy_pt := (kpt st)\<lparr>pt_procs := ps\<rparr>\<rparr>\<rparr>" "length ps = length (pt_procs (kpt st))"
    and p: "\<And>i. ps ! i = (the_proc (kpt st) i)\<lparr>p_state := p_state (ps ! i)\<rparr>"
    using assms(1) unfolding quiet_def by blast
  obtain bs' dk' ps' where s': "st2 = st1\<lparr>ks_bufs := bs', ks_disk := dk',
       ks_sys := (ks_sys st1)\<lparr>sy_pt := (kpt st1)\<lparr>pt_procs := ps'\<rparr>\<rparr>\<rparr>" "length ps' = length (pt_procs (kpt st1))"
    and p': "\<And>i. ps' ! i = (the_proc (kpt st1) i)\<lparr>p_state := p_state (ps' ! i)\<rparr>"
    using assms(2) unfolding quiet_def by blast
  have "ps' ! i = (the_proc (kpt st) i)\<lparr>p_state := p_state (ps' ! i)\<rparr>" for i
  proof -
    have "ps' ! i = (ps ! i)\<lparr>p_state := p_state (ps' ! i)\<rparr>" using p' [of i] s(1) by simp
    then show ?thesis using arg_cong [OF p [of i], of "\<lambda>x. x\<lparr>p_state := p_state (ps' ! i)\<rparr>"] by simp
  qed
  then show ?thesis unfolding quiet_def
    using s s' by (intro exI [of _ bs'] exI [of _ dk'] exI [of _ ps']) simp
qed

lemma quiet_bufs [intro]: "quiet st (st\<lparr>ks_bufs := bs\<rparr>)" "quiet st (st\<lparr>ks_disk := dk\<rparr>)"
  unfolding quiet_def
  by (rule exI [of _ bs], rule exI [of _ "ks_disk st"], rule exI [of _ "pt_procs (kpt st)"], simp,
      rule exI [of _ "ks_bufs st"], rule exI [of _ dk], rule exI [of _ "pt_procs (kpt st)"], simp)

lemma quiet_kwakeup [intro]: "quiet st (kwakeup ch st)"
proof -
  let ?ps = "pt_procs (kpt (kwakeup ch st))"
  have "?ps ! i = (the_proc (kpt st) i)\<lparr>p_state := p_state (?ps ! i)\<rparr>" for i
  proof (cases "i < length (pt_procs (kpt st))")
    case True
    then show ?thesis by (simp add: kwakeup_def wakeup_nth wake_def)
  next
    case False
    then have "?ps ! i = the_proc (kpt st) i" by (intro nth_beyond) simp_all
    then show ?thesis by simp
  qed
  moreover have "kwakeup ch st = st\<lparr>ks_bufs := ks_bufs st, ks_disk := ks_disk st,
      ks_sys := (ks_sys st)\<lparr>sy_pt := (kpt st)\<lparr>pt_procs := ?ps\<rparr>\<rparr>\<rparr>"
    by (simp add: kwakeup_def set_pt_def wakeup_def)
  ultimately show ?thesis unfolding quiet_def by (metis kwakeup_simps(14))
qed

text \<open>Two buffers that differ at most in their links.\<close>

definition same_buf :: "buf \<Rightarrow> buf \<Rightarrow> bool" where
  "same_buf b c \<longleftrightarrow> b_valid b = b_valid c \<and> b_dev b = b_dev c \<and> b_blockno b = b_blockno c \<and>
     b_lock b = b_lock c \<and> b_refcnt b = b_refcnt c \<and> b_data b = b_data c"

lemma same_buf_links:
  assumes "length bs = Suc NBUF" and "j < NBUF"
  shows "same_buf (link_first i bs ! j) (bs ! j)" and "same_buf (unlink_buf i bs ! j) (bs ! j)"
  using assms by (simp_all add: same_buf_def link_first_def unlink_buf_def Let_def nth_upd_buf)

text \<open>The general case of a change to the buffer of block \<open>b\<close> and to that block on the disk.\<close>

lemma cache_update:
  assumes ok: "bcache_ok st" and i: "cached (ks_bufs st) b i"
    and len: "length (ks_bufs st') = Suc NBUF" and lru: "lru (ks_bufs st') xs"
    and others: "\<And>j. j < NBUF \<Longrightarrow> j \<noteq> i \<Longrightarrow> same_buf (ks_bufs st' ! j) (ks_bufs st ! j)"
    and same: "b_dev (ks_bufs st' ! i) = ROOTDEV" "b_blockno (ks_bufs st' ! i) = b"
    and dk: "\<And>c. c \<noteq> b \<Longrightarrow> dk_blocks (ks_disk st') c = dk_blocks (ks_disk st) c" "length (dk_blocks (ks_disk st') b) = BSIZE"
    and new: "buf_ok (dk_blocks (ks_disk st')) (ks_bufs st' ! i)"
  shows "bcache_ok st'" and "\<And>c j. cached (ks_bufs st') c j \<longleftrightarrow> cached (ks_bufs st) c j"
    and "view st' = (view st)(b := b_data (ks_bufs st' ! i))"
    and "refs st' = (refs st)(b := unat (b_refcnt (ks_bufs st' ! i)))"
    and "owner st' = (owner st)(b := if sl_locked (b_lock (ks_bufs st' ! i)) then Some (sl_pid (b_lock (ks_bufs st' ! i))) else None)"
proof -
  have ib: "i < NBUF" "b_dev (ks_bufs st ! i) = ROOTDEV" "b_blockno (ks_bufs st ! i) = b" using i by (simp_all add: cached_def)
  show c: "cached (ks_bufs st') c j \<longleftrightarrow> cached (ks_bufs st) c j" for c j
    using others [of j] same ib by (cases "j = i") (auto simp: cached_def same_buf_def)
  have bno: "b_blockno (ks_bufs st ! j) \<noteq> b" if "j < NBUF" "j \<noteq> i" "b_dev (ks_bufs st ! j) = ROOTDEV" for j
    using ok that i unfolding bcache_ok_def cached_def by blast
  have each: "buf_ok (dk_blocks (ks_disk st')) (ks_bufs st' ! j)" if "j < NBUF" for j
  proof (cases "j = i")
    case True
    then show ?thesis using new by simp
  next
    case False
    have "buf_ok (dk_blocks (ks_disk st)) (ks_bufs st ! j)" using ok that by (simp add: bcache_ok_def)
    then show ?thesis using others [OF that False] bno [OF that False] dk(1)
      unfolding buf_ok_def same_buf_def by metis
  qed
  show ok': "bcache_ok st'"
    unfolding bcache_ok_def using len lru each c ok dk unfolding bcache_ok_def by (auto; metis)
  have at: "view st' d = (if d = b then b_data (ks_bufs st' ! i) else view st d) \<and>
      refs st' d = (if d = b then unat (b_refcnt (ks_bufs st' ! i)) else refs st d) \<and>
      owner st' d = (if d = b then if sl_locked (b_lock (ks_bufs st' ! i)) then Some (sl_pid (b_lock (ks_bufs st' ! i))) else None
        else owner st d)" for d
  proof (cases "\<exists>j. cached (ks_bufs st) d j")
    case True
    then obtain j where j: "cached (ks_bufs st) d j" by blast
    have j': "cached (ks_bufs st') d j" "j < NBUF" using c j by (blast, simp add: cached_def)
    have "j = i \<longleftrightarrow> d = b" using j i ok unfolding bcache_ok_def cached_def by metis
    then show ?thesis
      using cached_simps [OF ok j] cached_simps [OF ok' j'(1)] others [OF j'(2)] by (cases "j = i") (simp_all add: same_buf_def)
  next
    case False
    then have "d \<noteq> b" using i by blast
    then show ?thesis using uncached_simps [of st d] uncached_simps [of st' d] False c dk(1) by auto
  qed
  show "view st' = (view st)(b := b_data (ks_bufs st' ! i))" "refs st' = (refs st)(b := unat (b_refcnt (ks_bufs st' ! i)))"
    "owner st' = (owner st)(b := if sl_locked (b_lock (ks_bufs st' ! i)) then Some (sl_pid (b_lock (ks_bufs st' ! i))) else None)"
    using at by auto
qed

text \<open>Recycling an unreferenced buffer for a block that is not in the cache.\<close>

lemma cache_recycle:
  assumes ok: "bcache_ok st" and i: "i < NBUF" "b_refcnt (ks_bufs st ! i) = 0" and unc: "\<forall>j. \<not> cached (ks_bufs st) b j"
    and st': "st' = st\<lparr>ks_bufs := upd_buf i (\<lambda>_. new) (ks_bufs st)\<rparr>" and links: "b_next new = nx (ks_bufs st) i" "b_prev new = pv (ks_bufs st) i"
    and new: "b_dev new = ROOTDEV" "b_blockno new = b" "b_valid new" "b_refcnt new = 1" "b_data new = dk_blocks (ks_disk st) b"
      "sl_locked (b_lock new)" "sl_pid (b_lock new) = pid"
  shows "bcache_ok st'" and "cached (ks_bufs st') b i" and "view st' = view st" and "refs st' = (refs st)(b := 1)"
    and "owner st' = (owner st)(b := Some pid)"
    and "\<And>c j. 0 < refs st c \<Longrightarrow> cached (ks_bufs st) c j \<Longrightarrow> cached (ks_bufs st') c j"
proof -
  have len: "length (ks_bufs st) = Suc NBUF" using ok by (simp add: bcache_ok_def)
  have nth: "ks_bufs st' ! j = (if j = i then new else ks_bufs st ! j)" if "j \<le> NBUF" for j
    using that len st' by (simp add: nth_upd_buf)
  have c: "cached (ks_bufs st') d j \<longleftrightarrow> (if j = i then d = b else cached (ks_bufs st) d j)" for d j
    using nth [of j] new i(1) by (auto simp: cached_def)
  then show ci: "cached (ks_bufs st') b i" by simp
  obtain xs where xs: "lru (ks_bufs st) xs" using ok unfolding bcache_ok_def by blast
  have "lru (ks_bufs st') xs"
    unfolding lru_def
  proof (intro conjI chain_agree)
    show "chain (nx (ks_bufs st)) (pv (ks_bufs st)) (NBUF # xs @ [NBUF])" "distinct xs" and s: "set xs = {..<NBUF}"
      using xs by (simp_all add: lru_def)
    show "set (NBUF # xs @ [NBUF]) \<subseteq> {..NBUF}" by (auto simp: s)
  qed (use nth links in auto)
  moreover have "buf_ok (dk_blocks (ks_disk st')) (ks_bufs st' ! j)" if "j < NBUF" for j
    using nth [of j] ok that new st' unfolding bcache_ok_def buf_ok_def by auto
  moreover have "\<forall>j k d. cached (ks_bufs st') d j \<longrightarrow> cached (ks_bufs st') d k \<longrightarrow> j = k"
    using c unc ok unfolding bcache_ok_def by (metis (full_types))
  ultimately show ok': "bcache_ok st'"
    using ok st' unfolding bcache_ok_def by auto
  have at: "view st' d = view st d \<and> refs st' d = (if d = b then 1 else refs st d) \<and>
      owner st' d = (if d = b then Some pid else owner st d)" for d
  proof (cases "d = b")
    case True
    then show ?thesis using cached_simps [OF ok' ci] uncached_simps [OF unc] new nth [of i] i(1) by simp
  next
    case False
    consider (same) j where "cached (ks_bufs st) d j" "j \<noteq> i" | (old) "cached (ks_bufs st) d i" | (none) "\<forall>j. \<not> cached (ks_bufs st) d j"
      by blast
    then show ?thesis
    proof cases
      case same
      then have "cached (ks_bufs st') d j" "j \<le> NBUF" using c by (simp, simp add: cached_def)
      then show ?thesis using cached_simps [OF ok same(1)] cached_simps [OF ok'] nth [of j] same(2) False by simp
    next
      case old
      have b: "buf_ok (dk_blocks (ks_disk st)) (ks_bufs st ! i)" using ok i(1) by (simp add: bcache_ok_def)
      have "\<forall>j. \<not> cached (ks_bufs st') d j" using c old False ok unfolding bcache_ok_def by metis
      then show ?thesis using uncached_simps [of st' d] cached_simps [OF ok old] b i(2) old st' False
        by (auto simp: buf_ok_def cached_def)
    next
      case none
      then have "\<forall>j. \<not> cached (ks_bufs st') d j" using c False by simp
      then show ?thesis using uncached_simps [of st' d] uncached_simps [OF none] st' False by simp
    qed
  qed
  show "view st' = view st" "refs st' = (refs st)(b := 1)" "owner st' = (owner st)(b := Some pid)" using at by auto
  show "cached (ks_bufs st') d j" if "0 < refs st d" "cached (ks_bufs st) d j" for d j
  proof -
    have "j \<noteq> i" using cached_simps(2) [OF ok that(2)] that(1) i(2) by auto
    then show ?thesis using c that(2) by simp
  qed
qed

text \<open>
  The new state of the cache after a call: its contents, references and locks. The buffer of
  a referenced block stays the same.
\<close>

definition becomes :: "kst \<Rightarrow> kst \<Rightarrow> (u32 \<Rightarrow> u8 list) \<Rightarrow> (u32 \<Rightarrow> nat) \<Rightarrow> (u32 \<Rightarrow> u32 option) \<Rightarrow> bool" where
  "becomes st st' v r l \<longleftrightarrow> bcache_ok st' \<and> quiet st st' \<and> view st' = v \<and> refs st' = r \<and> owner st' = l \<and>
     (\<forall>c j. 0 < refs st c \<longrightarrow> cached (ks_bufs st) c j \<longrightarrow> cached (ks_bufs st') c j)"

lemma becomesD:
  assumes "becomes st st' v r l"
  shows "bcache_ok st'" "quiet st st'" "view st' = v" "refs st' = r" "owner st' = l" "mypid st' = mypid st"
    "0 < refs st c \<Longrightarrow> cached (ks_bufs st) c j \<Longrightarrow> cached (ks_bufs st') c j"
  using assms quietD(11) unfolding becomes_def by blast+

lemma lru_links:
  assumes "lru bs xs" and "length bs' = length bs" and "\<And>j. j \<le> NBUF \<Longrightarrow> nx bs' j = nx bs j" and "\<And>j. j \<le> NBUF \<Longrightarrow> pv bs' j = pv bs j"
  shows "lru bs' xs"
proof -
  have xs: "distinct xs" "set xs = {..<NBUF}" "chain (nx bs) (pv bs) (NBUF # xs @ [NBUF])"
    using assms(1) by (simp_all add: lru_def)
  moreover have "chain (nx bs') (pv bs') (NBUF # xs @ [NBUF])"
    by (rule chain_agree [OF xs(3)]) (use xs(2) assms(3,4) in auto)
  ultimately show ?thesis by (simp add: lru_def)
qed

text \<open>A change of the fields of a cached buffer other than its identity and links.\<close>

lemma cache_set:
  assumes ok: "bcache_ok st" and i: "cached (ks_bufs st) b i"
    and f: "b_dev (f (ks_bufs st ! i)) = ROOTDEV" "b_blockno (f (ks_bufs st ! i)) = b"
      "b_next (f (ks_bufs st ! i)) = nx (ks_bufs st) i" "b_prev (f (ks_bufs st ! i)) = pv (ks_bufs st) i"
    and new: "buf_ok (dk_blocks (ks_disk st)) (f (ks_bufs st ! i))"
  shows "becomes st (st\<lparr>ks_bufs := upd_buf i f (ks_bufs st)\<rparr>)
    ((view st)(b := b_data (f (ks_bufs st ! i)))) ((refs st)(b := unat (b_refcnt (f (ks_bufs st ! i)))))
    ((owner st)(b := if sl_locked (b_lock (f (ks_bufs st ! i))) then Some (sl_pid (b_lock (f (ks_bufs st ! i)))) else None))"
proof -
  let ?s = "st\<lparr>ks_bufs := upd_buf i f (ks_bufs st)\<rparr>"
  have len: "length (ks_bufs st) = Suc NBUF" and ib: "i < NBUF" using ok i by (simp_all add: bcache_ok_def cached_def)
  have nth: "ks_bufs ?s ! j = (if j = i then f (ks_bufs st ! i) else ks_bufs st ! j)" if "j \<le> NBUF" for j
    using that len by (simp add: nth_upd_buf)
  obtain xs where "lru (ks_bufs st) xs" using ok unfolding bcache_ok_def by blast
  then have lru: "lru (ks_bufs ?s) xs" by (rule lru_links) (use f nth in auto)
  have at: "ks_bufs ?s ! i = f (ks_bufs st ! i)" using nth ib by simp
  have dl: "length (dk_blocks (ks_disk ?s) b) = BSIZE" using ok by (simp add: bcache_ok_def)
  have "bcache_ok ?s \<and> (\<forall>c j. cached (ks_bufs ?s) c j \<longleftrightarrow> cached (ks_bufs st) c j) \<and>
    view ?s = (view st)(b := b_data (ks_bufs ?s ! i)) \<and> refs ?s = (refs st)(b := unat (b_refcnt (ks_bufs ?s ! i))) \<and>
    owner ?s = (owner st)(b := if sl_locked (b_lock (ks_bufs ?s ! i)) then Some (sl_pid (b_lock (ks_bufs ?s ! i))) else None)"
    by (intro conjI allI cache_update [OF ok i _ lru]) (use len nth ib f new dl in \<open>auto simp: same_buf_def\<close>)
  then show ?thesis unfolding becomes_def at using quiet_bufs(1) by blast
qed

lemma bget_missing:
  assumes "bcache_ok st"
  shows "bget_cached (Suc NBUF) ROOTDEV b (ks_bufs st) (nx (ks_bufs st) NBUF) = Done (slot_of (ks_bufs st) b)"
proof -
  obtain xs where xs: "lru (ks_bufs st) xs" using assms unfolding bcache_ok_def by blast
  let ?P = "\<lambda>i. b_dev (ks_bufs st ! i) = ROOTDEV \<and> b_blockno (ks_bufs st ! i) = b"
  have s: "set xs = {..<NBUF}" using xs by (simp add: lru_def)
  have "find ?P xs = slot_of (ks_bufs st) b"
  proof (cases "find ?P xs")
    case None
    then have "\<forall>i. \<not> cached (ks_bufs st) b i" using s by (auto simp: find_None_iff cached_def)
    then have "slot_of (ks_bufs st) b = None" by (simp add: slot_of_None)
    then show ?thesis using None by simp
  next
    case (Some i)
    then have "?P i" "i \<in> set xs" by (rule find_SomeD)+
    then have "cached (ks_bufs st) b i" using s by (simp add: cached_def)
    then have "slot_of (ks_bufs st) b = Some i" using slot_of_eq [OF assms] by blast
    then show ?thesis using Some by simp
  qed
  then show ?thesis by (simp only: lru_bget(1) [OF xs])
qed

lemma bread_ok:
  assumes ok: "bcache_ok st" and pid: "mypid st = Done pid" and free: "owner st b = None"
    and bound: "Suc (refs st b) < 2 ^ 32" and room: "0 < refs st b \<or> pins (refs st) < NBUF"
  obtains i st' where "bread ROOTDEV b st = Done (i, st')" and "cached (ks_bufs st') b i" and "ks_disk st' = ks_disk st"
    and "becomes st st' (view st) ((refs st)(b := Suc (refs st b))) ((owner st)(b := Some pid))"
proof (cases "slot_of (ks_bufs st) b")
  case (Some i)
  then have c: "cached (ks_bufs st) b i" using slot_of_eq [OF ok] by simp
  let ?b = "ks_bufs st ! i"
  let ?f = "\<lambda>b :: buf. b\<lparr>b_refcnt := b_refcnt b + 1, b_lock := (b_lock b)\<lparr>sl_locked := True, sl_pid := pid\<rparr>\<rparr>"
  let ?s = "st\<lparr>ks_bufs := upd_buf i ?f (ks_bufs st)\<rparr>"
  have i: "i < length (ks_bufs st)" "buf_ok (dk_blocks (ks_disk st)) ?b" "b_valid ?b" and dev: "b_dev ?b = ROOTDEV" "b_blockno ?b = b"
    using ok c unfolding bcache_ok_def cached_def buf_ok_def by auto
  have lk: "\<not> sl_locked (b_lock ?b)" using cached_simps(3) [OF ok c] free by (auto split: if_splits)
  have r: "refs st b = unat (b_refcnt ?b)" using cached_simps(2) [OF ok c] .
  have inc: "unat (b_refcnt ?b + 1) = Suc (unat (b_refcnt ?b))" using bound r by (simp add: unat_word_ariths)
  then have "b_refcnt ?b + 1 \<noteq> 0" by auto
  then have nb: "buf_ok (dk_blocks (ks_disk st)) (?f ?b)" using i(2) dev by (simp add: buf_ok_def)
  have "becomes st ?s ((view st)(b := b_data (?f ?b))) ((refs st)(b := unat (b_refcnt (?f ?b))))
      ((owner st)(b := if sl_locked (b_lock (?f ?b)) then Some (sl_pid (b_lock (?f ?b))) else None))"
    by (rule cache_set [OF ok c]) (use dev nb in simp_all)
  then have "becomes st ?s (view st) ((refs st)(b := Suc (refs st b))) ((owner st)(b := Some pid))"
    using cached_simps(1) [OF ok c] inc r by (simp add: fun_upd_idem)
  moreover have "bread ROOTDEV b st = Done (i, ?s)"
    using bget_missing [OF ok, of b] Some lk i(1,3) pid
    by (simp add: bread_def bget_def lock_buf_def acquiresleep_def mypid_def current_def upd_buf_def)
  moreover have "cached (ks_bufs ?s) b i" using c i(1) by (simp add: cached_def nth_upd_buf)
  ultimately show ?thesis using that by simp
next
  case None
  then have unc: "\<forall>j. \<not> cached (ks_bufs st) b j" by (simp add: slot_of_None)
  obtain xs where xs: "lru (ks_bufs st) xs" using ok unfolding bcache_ok_def by blast
  have s: "set xs = {..<NBUF}" using xs by (simp add: lru_def)
  have "\<exists>i<NBUF. b_refcnt (ks_bufs st ! i) = 0" using unused_buffer [OF ok] room uncached_simps(2) [OF unc] by simp
  then have "find (\<lambda>i. b_refcnt (ks_bufs st ! i) = 0) (rev xs) \<noteq> None" using s by (auto simp: find_None_iff)
  then obtain i where f: "find (\<lambda>i. b_refcnt (ks_bufs st ! i) = 0) (rev xs) = Some i" by blast
  then have "i \<in> set (rev xs)" "b_refcnt (ks_bufs st ! i) = 0" by (rule find_SomeD)+
  then have i: "i < NBUF" "b_refcnt (ks_bufs st ! i) = 0" using s by auto
  let ?b = "ks_bufs st ! i"
  have len: "length (ks_bufs st) = Suc NBUF" "buf_ok (dk_blocks (ks_disk st)) ?b" using ok i(1) by (simp_all add: bcache_ok_def)
  define new where "new = ?b\<lparr>b_dev := ROOTDEV, b_blockno := b, b_refcnt := 1,
    b_lock := (b_lock ?b)\<lparr>sl_locked := True, sl_pid := pid\<rparr>, b_data := dk_blocks (ks_disk st) b, b_valid := True\<rparr>"
  define s where "s = st\<lparr>ks_bufs := upd_buf i (\<lambda>_. new) (ks_bufs st)\<rparr>"
  have lk: "\<not> sl_locked (b_lock ?b)" using len(2) i(2) by (simp add: buf_ok_def)
  note r = cache_recycle [OF ok i unc s_def, where pid = pid]
  have rd: "bread ROOTDEV b st = Done (i, s)"
    using bget_missing [OF ok, of b] None lru_bget(2) [OF xs] f lk i(1) len(1) pid
    by (simp add: bread_def bget_def lock_buf_def acquiresleep_def mypid_def current_def upd_buf_def disk_read_def
        s_def new_def)
  have "becomes st s (view st) ((refs st)(b := Suc (refs st b))) ((owner st)(b := Some pid))"
    unfolding becomes_def using r uncached_simps(2) [OF unc] quiet_bufs(1) [of st "upd_buf i (\<lambda>_. new) (ks_bufs st)"]
    by (simp add: new_def s_def)
  moreover have "cached (ks_bufs s) b i" by (rule r(2)) (simp_all add: new_def)
  ultimately show ?thesis using that rd by (simp add: s_def)
qed

lemma bread_no_buffers:
  assumes "bcache_ok st" and "refs st b = 0" and "\<forall>i<NBUF. b_refcnt (ks_bufs st ! i) \<noteq> 0"
  shows "bread ROOTDEV b st = Panic ''bget: no buffers''"
proof -
  have unc: "\<forall>j. \<not> cached (ks_bufs st) b j"
    using cached_simps(2) [OF assms(1), of b] assms(2,3) by (auto simp: unat_eq_0 cached_def)
  obtain xs where xs: "lru (ks_bufs st) xs" using assms(1) unfolding bcache_ok_def by blast
  have "find (\<lambda>i. b_refcnt (ks_bufs st ! i) = 0) (rev xs) = None"
    using assms(3) xs by (auto simp: find_None_iff lru_def)
  then show ?thesis using bget_missing [OF assms(1), of b] lru_bget(2) [OF xs] unc
    by (simp add: bread_def bget_def slot_of_None [THEN iffD2])
qed

lemma owner_holding:
  assumes "bcache_ok st" and "cached (ks_bufs st) b i" and "owner st b = Some pid"
  shows "holdingsleep pid (b_lock (ks_bufs st ! i))"
  using cached_simps(3) [OF assms(1,2)] assms(3) by (auto simp: holdingsleep_def split: if_splits)

lemma not_owner_panics:
  assumes "bcache_ok st" and "cached (ks_bufs st) b i" and "mypid st = Done pid" and "owner st b \<noteq> Some pid"
  shows "bwrite i st = Panic ''bwrite''" and "brelse i st = Panic ''brelse''"
  using cached_simps(3) [OF assms(1,2)] assms(3,4) by (auto simp: bwrite_def brelse_def holdingsleep_def split: if_splits)

lemma bwrite_ok:
  assumes ok: "bcache_ok st" and c: "cached (ks_bufs st) b i" and pid: "mypid st = Done pid" and own: "owner st b = Some pid"
  shows "bwrite i st = Done (disk_write i st)" and "ks_disk (disk_write i st) = disk_put b (view st b) (ks_disk st)"
    and "becomes st (disk_write i st) (view st) (refs st) (owner st)"
proof -
  let ?s = "disk_write i st"
  show "bwrite i st = Done ?s" using owner_holding [OF ok c own] pid by (simp add: bwrite_def)
  have b: "b_blockno (ks_bufs st ! i) = b" "i < NBUF" "b_dev (ks_bufs st ! i) = ROOTDEV" using c by (simp_all add: cached_def)
  have v: "view st b = b_data (ks_bufs st ! i)" by (rule cached_simps(1) [OF ok c])
  show d: "ks_disk ?s = disk_put b (view st b) (ks_disk st)" by (simp add: disk_write_def v b)
  obtain xs where xs: "lru (ks_bufs ?s) xs" using ok by (auto simp: bcache_ok_def disk_write_def)
  have len: "length (ks_bufs st) = Suc NBUF" "buf_ok (dk_blocks (ks_disk st)) (ks_bufs st ! i)" using ok b(2) by (simp_all add: bcache_ok_def)
  have bs: "ks_bufs ?s = ks_bufs st" by (simp add: disk_write_def)
  have "bcache_ok ?s \<and> view ?s = (view st)(b := b_data (ks_bufs ?s ! i)) \<and> refs ?s = (refs st)(b := unat (b_refcnt (ks_bufs ?s ! i))) \<and>
    owner ?s = (owner st)(b := if sl_locked (b_lock (ks_bufs ?s ! i)) then Some (sl_pid (b_lock (ks_bufs ?s ! i))) else None)"
    by (intro conjI cache_update [OF ok c _ xs])
      (use len b in \<open>auto simp: bs d v disk_put_def same_buf_def buf_ok_def\<close>)
  moreover have "quiet st ?s" unfolding disk_write_def by (rule quiet_bufs)
  ultimately show "becomes st ?s (view st) (refs st) (owner st)"
    using cached_simps [OF ok c] by (simp add: becomes_def bs fun_upd_idem)
qed

lemma set_data_ok:
  assumes ok: "bcache_ok st" and c: "cached (ks_bufs st) b i" and r: "0 < refs st b" and len: "length d = BSIZE"
  shows "becomes st (st\<lparr>ks_bufs := upd_buf i (\<lambda>b. b\<lparr>b_data := d\<rparr>) (ks_bufs st)\<rparr>) ((view st)(b := d)) (refs st) (owner st)"
proof -
  have b: "b_blockno (ks_bufs st ! i) = b" "i < NBUF" "b_dev (ks_bufs st ! i) = ROOTDEV" using c by (simp_all add: cached_def)
  have "b_refcnt (ks_bufs st ! i) \<noteq> 0" using cached_simps(2) [OF ok c] r by auto
  moreover have "buf_ok (dk_blocks (ks_disk st)) (ks_bufs st ! i)" using ok b(2) by (simp add: bcache_ok_def)
  ultimately have "buf_ok (dk_blocks (ks_disk st)) ((ks_bufs st ! i)\<lparr>b_data := d\<rparr>)" using len by (simp add: buf_ok_def)
  then show ?thesis
    using cache_set [OF ok c, of "\<lambda>b. b\<lparr>b_data := d\<rparr>"] b cached_simps(2,3) [OF ok c] by (simp add: fun_upd_idem)
qed

lemma bpin_ok:
  assumes ok: "bcache_ok st" and c: "cached (ks_bufs st) b i" and r: "0 < refs st b" and bound: "Suc (refs st b) < 2 ^ 32"
  shows "becomes st (bpin i st) (view st) ((refs st)(b := Suc (refs st b))) (owner st)"
proof -
  let ?f = "\<lambda>b :: buf. b\<lparr>b_refcnt := b_refcnt b + 1\<rparr>"
  have b: "b_blockno (ks_bufs st ! i) = b" "i < NBUF" "b_dev (ks_bufs st ! i) = ROOTDEV" using c by (simp_all add: cached_def)
  have inc: "unat (b_refcnt (ks_bufs st ! i) + 1) = Suc (refs st b)"
    using bound cached_simps(2) [OF ok c] by (simp add: unat_word_ariths)
  then have "b_refcnt (ks_bufs st ! i) + 1 \<noteq> 0" by auto
  moreover have "buf_ok (dk_blocks (ks_disk st)) (ks_bufs st ! i)" using ok b(2) by (simp add: bcache_ok_def)
  ultimately have "buf_ok (dk_blocks (ks_disk st)) (?f (ks_bufs st ! i))" using b(3) by (simp add: buf_ok_def)
  then show ?thesis
    using cache_set [OF ok c, of ?f] b cached_simps(1,3) [OF ok c] inc by (simp add: bpin_def fun_upd_idem)
qed

lemma bunpin_ok:
  assumes ok: "bcache_ok st" and c: "cached (ks_bufs st) b i" and r: "1 < refs st b"
  shows "becomes st (bunpin i st) (view st) ((refs st)(b := refs st b - 1)) (owner st)"
proof -
  let ?f = "\<lambda>b :: buf. b\<lparr>b_refcnt := b_refcnt b - 1\<rparr>"
  have b: "b_blockno (ks_bufs st ! i) = b" "i < NBUF" "b_dev (ks_bufs st ! i) = ROOTDEV" using c by (simp_all add: cached_def)
  have "b_refcnt (ks_bufs st ! i) \<noteq> 0" using r cached_simps(2) [OF ok c] by auto
  then have dec: "unat (b_refcnt (ks_bufs st ! i) - 1) = refs st b - 1"
    using cached_simps(2) [OF ok c] by (simp add: unat_minus_one)
  then have "b_refcnt (ks_bufs st ! i) - 1 \<noteq> 0" using r by auto
  moreover have "buf_ok (dk_blocks (ks_disk st)) (ks_bufs st ! i)" using ok b(2) by (simp add: bcache_ok_def)
  ultimately have "buf_ok (dk_blocks (ks_disk st)) (?f (ks_bufs st ! i))" using b(3) by (simp add: buf_ok_def)
  then show ?thesis
    using cache_set [OF ok c, of ?f] b cached_simps(1,3) [OF ok c] dec by (simp add: bunpin_def fun_upd_idem)
qed

lemma brelse_ok:
  assumes ok: "bcache_ok st" and c: "cached (ks_bufs st) b i" and pid: "mypid st = Done pid" and own: "owner st b = Some pid"
    and clean: "refs st b = 1 \<Longrightarrow> view st b = dk_blocks (ks_disk st) b"
  obtains st' where "brelse i st = Done st'" and "ks_disk st' = ks_disk st"
    and "becomes st st' (view st) ((refs st)(b := refs st b - 1)) ((owner st)(b := None))"
proof -
  let ?b = "ks_bufs st ! i" and ?f = "\<lambda>b :: buf. b\<lparr>b_lock := releasesleep (b_lock b)\<rparr>" and ?g = "\<lambda>b :: buf. b\<lparr>b_refcnt := b_refcnt b - 1\<rparr>"
  define bs0 where "bs0 = upd_buf i ?g (upd_buf i ?f (ks_bufs st))"
  define bs where "bs = (if b_refcnt (bs0 ! i) = 0 then link_first i (unlink_buf i bs0) else bs0)"
  define st1 where "st1 = kwakeup (ChanBuf i) (st\<lparr>ks_bufs := upd_buf i ?f (ks_bufs st)\<rparr>)"
  define s where "s = st1\<lparr>ks_bufs := bs\<rparr>"
  have b: "b_blockno ?b = b" "i < NBUF" "b_dev ?b = ROOTDEV" using c by (simp_all add: cached_def)
  have len: "length (ks_bufs st) = Suc NBUF" "length bs0 = Suc NBUF" and bok: "buf_ok (dk_blocks (ks_disk st)) ?b"
    and dl: "length (dk_blocks (ks_disk st) b) = BSIZE" using ok b(2) by (simp_all add: bcache_ok_def bs0_def)
  have nth0: "bs0 ! j = (if j = i then ?g (?f ?b) else ks_bufs st ! j)" if "j \<le> NBUF" for j
    using that len(1) by (simp add: bs0_def nth_upd_buf)
  have at0: "bs0 ! i = ?g (?f ?b)" using nth0 [of i] b(2) by simp
  obtain xs where "lru (ks_bufs st) xs" using ok unfolding bcache_ok_def by blast
  then have lru0: "lru bs0 xs" by (rule lru_links) (use len nth0 in auto)
  obtain ys where lru: "lru bs ys"
    using lru0 lru_release [OF len(2) lru0 b(2)] unfolding bs_def by (cases "b_refcnt (bs0 ! i) = 0") auto
  have lenu: "length (unlink_buf i bs0) = Suc NBUF" using len(2) by (simp add: unlink_buf_def Let_def)
  have links: "same_buf (bs ! j) (bs0 ! j)" if "j < NBUF" for j
    using same_buf_links(1) [OF lenu that, of i] same_buf_links(2) [OF len(2) that, of i] unfolding bs_def
    by (auto simp: same_buf_def)
  have ati: "b_dev (bs ! i) = ROOTDEV" "b_blockno (bs ! i) = b" "b_valid (bs ! i) = b_valid ?b" "b_data (bs ! i) = b_data ?b"
    "b_lock (bs ! i) = releasesleep (b_lock ?b)" "b_refcnt (bs ! i) = b_refcnt ?b - 1"
    using links [OF b(2)] b at0 by (simp_all add: same_buf_def)
  have sd: "ks_bufs s = bs" "ks_disk s = ks_disk st" by (simp_all add: s_def st1_def)
  have r: "refs st b = unat (b_refcnt ?b)" "view st b = b_data ?b" using cached_simps [OF ok c] by simp_all
  have "holdingsleep pid (b_lock ?b)" by (rule owner_holding [OF ok c own])
  then have rel: "brelse i st = Done s"
    using pid by (simp add: brelse_def s_def st1_def bs_def bs0_def Let_def)
  have "b_refcnt ?b \<noteq> 0" using bok \<open>holdingsleep pid (b_lock ?b)\<close> by (simp add: buf_ok_def holdingsleep_def)
  then have dec: "unat (b_refcnt ?b - 1) = refs st b - 1" using r(1) by (simp add: unat_minus_one)
  have "refs st b = 1" if "b_refcnt ?b - 1 = 0" using that r(1) by simp
  then have nb: "buf_ok (dk_blocks (ks_disk s)) (ks_bufs s ! i)"
    using bok ati b sd clean r(2) by (auto simp: buf_ok_def releasesleep_def)
  have lens: "length (ks_bufs s) = Suc NBUF"
    using sd(1) len(2) by (simp add: bs_def link_first_def unlink_buf_def Let_def)
  have "bcache_ok s \<and> (\<forall>d j. cached (ks_bufs s) d j \<longleftrightarrow> cached (ks_bufs st) d j) \<and>
    view s = (view st)(b := b_data (ks_bufs s ! i)) \<and> refs s = (refs st)(b := unat (b_refcnt (ks_bufs s ! i))) \<and>
    owner s = (owner st)(b := if sl_locked (b_lock (ks_bufs s ! i)) then Some (sl_pid (b_lock (ks_bufs s ! i))) else None)"
    by (intro conjI allI cache_update [OF ok c lens lru [folded sd(1)] _ _ _ _ _ nb])
      (use links nth0 ati dl in \<open>auto simp: sd same_buf_def\<close>)
  moreover have "quiet st s" unfolding s_def st1_def using quiet_bufs(1) quiet_kwakeup quiet_trans by blast
  ultimately have "becomes st s (view st) ((refs st)(b := refs st b - 1)) ((owner st)(b := None))"
    using ati sd dec r by (simp add: becomes_def releasesleep_def fun_upd_idem)
  then show ?thesis using that rel sd(2) by blast
qed

section \<open>Initialisation\<close>

text \<open>A buffer in static storage, before and after \<open>binit\<close>.\<close>

definition unused_buf :: "buf \<Rightarrow> bool" where
  "unused_buf b \<longleftrightarrow> \<not> b_valid b \<and> b_dev b = 0 \<and> b_refcnt b = 0 \<and> length (b_data b) = BSIZE \<and> \<not> sl_locked (b_lock b)"

lemma binit_prefix:
  assumes "length bs = Suc NBUF" and "\<forall>j<NBUF. unused_buf (bs ! j)" and "nx bs NBUF = NBUF" and "pv bs NBUF = NBUF" and "n \<le> NBUF"
  shows "length (fold (\<lambda>i bs. link_first i (upd_buf i (\<lambda>b. b\<lparr>b_lock := initsleeplock ''buffer''\<rparr>) bs)) [0..<n] bs) = Suc NBUF \<and>
    (let bs' = fold (\<lambda>i bs. link_first i (upd_buf i (\<lambda>b. b\<lparr>b_lock := initsleeplock ''buffer''\<rparr>) bs)) [0..<n] bs in
      chain (nx bs') (pv bs') (NBUF # rev [0..<n] @ [NBUF]) \<and> (\<forall>j<NBUF. unused_buf (bs' ! j)))"
  using assms(5)
proof (induction n)
  case 0
  then show ?case using assms by simp
next
  case (Suc n)
  define bs1 where "bs1 = fold (\<lambda>i bs. link_first i (upd_buf i (\<lambda>b. b\<lparr>b_lock := initsleeplock ''buffer''\<rparr>) bs)) [0..<n] bs"
  define bs2 where "bs2 = upd_buf n (\<lambda>b. b\<lparr>b_lock := initsleeplock ''buffer''\<rparr>) bs1"
  have 1: "length bs1 = Suc NBUF" "chain (nx bs1) (pv bs1) (NBUF # rev [0..<n] @ [NBUF])" "\<forall>j<NBUF. unused_buf (bs1 ! j)"
    using Suc by (simp_all add: bs1_def Let_def)
  then have l2: "length bs2 = Suc NBUF" by (simp add: bs2_def)
  have nth2: "bs2 ! j = (if j = n then (bs1 ! j)\<lparr>b_lock := initsleeplock ''buffer''\<rparr> else bs1 ! j)" if "j \<le> NBUF" for j
    using that 1(1) by (simp add: bs2_def nth_upd_buf)
  have u2: "unused_buf (bs2 ! j)" if "j < NBUF" for j
    using 1(3) nth2 [of j] that by (auto simp: unused_buf_def initsleeplock_def)
  have c2: "chain (nx bs2) (pv bs2) (NBUF # rev [0..<n] @ [NBUF])"
    by (rule chain_agree [OF 1(2)]) (use nth2 Suc.prems in auto)
  have "chain (nx (link_first n bs2)) (pv (link_first n bs2)) (NBUF # n # rev [0..<n] @ [NBUF])"
    by (rule link_first_chain [OF l2 c2]) (use Suc.prems in auto)
  moreover have "unused_buf (link_first n bs2 ! j)" if "j < NBUF" for j
    using same_buf_links(1) [OF l2 that, of n] u2 [OF that] by (simp add: same_buf_def unused_buf_def)
  moreover have "length (link_first n bs2) = Suc NBUF" using l2 by (simp add: link_first_def Let_def)
  ultimately show ?case by (simp add: bs1_def bs2_def Let_def)
qed

lemma binit_ok:
  assumes "length bs = Suc NBUF" and "\<forall>j<NBUF. unused_buf (bs ! j)" and "ks_bufs st = binit bs"
    and "\<forall>b. length (dk_blocks (ks_disk st) b) = BSIZE"
  shows "bcache_ok st" and "view st = dk_blocks (ks_disk st)" and "refs st = (\<lambda>_. 0)" and "owner st = (\<lambda>_. None)"
proof -
  define bs1 where "bs1 = upd_buf NBUF (\<lambda>b. b\<lparr>b_prev := NBUF, b_next := NBUF\<rparr>) bs"
  have 1: "length bs1 = Suc NBUF" "nx bs1 NBUF = NBUF" "pv bs1 NBUF = NBUF" "\<forall>j<NBUF. unused_buf (bs1 ! j)"
    using assms(1,2) by (simp_all add: bs1_def nth_upd_buf)
  have s: "length (ks_bufs st) = Suc NBUF" "chain (nx (ks_bufs st)) (pv (ks_bufs st)) (NBUF # rev [0..<NBUF] @ [NBUF])"
    "\<forall>j<NBUF. unused_buf (ks_bufs st ! j)"
    using binit_prefix [OF 1(1,4,2,3), of NBUF] unfolding assms(3) binit_def bs1_def Let_def by simp_all
  have "lru (ks_bufs st) (rev [0..<NBUF])" unfolding lru_def using s(2) by (simp only: set_rev distinct_rev distinct_upt set_upt atLeast0LessThan)
  moreover have none: "\<not> cached (ks_bufs st) b j" for b j using s(3) by (auto simp: cached_def unused_buf_def)
  moreover have "buf_ok (dk_blocks (ks_disk st)) (ks_bufs st ! j)" if "j < NBUF" for j
    using s(3) that by (auto simp: buf_ok_def unused_buf_def)
  ultimately show "bcache_ok st" unfolding bcache_ok_def using s(1) assms(4) by blast
  show "view st = dk_blocks (ks_disk st)" "refs st = (\<lambda>_. 0)" "owner st = (\<lambda>_. None)"
    using uncached_simps [of st] none by auto
qed

section \<open>Property\<close>

text \<open>Reading a block through the cache, and writing one through to the disk.\<close>

definition read_block :: "u32 \<Rightarrow> kst \<Rightarrow> (u8 list \<times> kst) outcome" where
  "read_block b st = obind (bread ROOTDEV b st) (\<lambda>(i, st). let d = b_data (ks_bufs st ! i) in
     obind (brelse i st) (\<lambda>st. Done (d, st)))"

definition write_block :: "u32 \<Rightarrow> u8 list \<Rightarrow> kst \<Rightarrow> kst outcome" where
  "write_block b d st = obind (bread ROOTDEV b st) (\<lambda>(i, st).
     obind (bwrite i (st\<lparr>ks_bufs := upd_buf i (\<lambda>b. b\<lparr>b_data := d\<rparr>) (ks_bufs st)\<rparr>)) (brelse i))"

datatype block_op = Rd u32 | Wr u32 "u8 list"

fun run_blocks :: "block_op list \<Rightarrow> kst \<Rightarrow> (u8 list list \<times> kst) outcome" where
  "run_blocks [] st = Done ([], st)"
| "run_blocks (Rd b # ops) st = obind (read_block b st) (\<lambda>(d, st).
     obind (run_blocks ops st) (\<lambda>(ds, st). Done (d # ds, st)))"
| "run_blocks (Wr b d # ops) st = obind (write_block b d st) (run_blocks ops)"

text \<open>The same on an array of blocks.\<close>

fun array_blocks :: "block_op list \<Rightarrow> (u32 \<Rightarrow> u8 list) \<Rightarrow> u8 list list \<times> (u32 \<Rightarrow> u8 list)" where
  "array_blocks [] a = ([], a)"
| "array_blocks (Rd b # ops) a = (let (ds, a') = array_blocks ops a in (a b # ds, a'))"
| "array_blocks (Wr b d # ops) a = array_blocks ops (a(b := d))"

definition idle :: "kst \<Rightarrow> bool" where
  "idle st \<longleftrightarrow> bcache_ok st \<and> refs st = (\<lambda>_. 0) \<and> owner st = (\<lambda>_. None) \<and> view st = dk_blocks (ks_disk st) \<and> (\<exists>pid. mypid st = Done pid)"

lemma pins_zero [simp]: "pins (\<lambda>_. 0) = 0"
  by (simp add: pins_def)

lemma bread_idle:
  assumes "idle st"
  obtains i st' pid where "bread ROOTDEV b st = Done (i, st')" and "cached (ks_bufs st') b i" and "ks_disk st' = ks_disk st"
    and "bcache_ok st'" and "view st' = view st" and "refs st' = (\<lambda>_. 0)(b := 1)" and "owner st' = (\<lambda>_. None)(b := Some pid)"
    and "mypid st' = Done pid"
proof -
  obtain pid where pid: "mypid st = Done pid" and s: "bcache_ok st" "refs st = (\<lambda>_. 0)" "owner st = (\<lambda>_. None)"
    using assms unfolding idle_def by blast
  obtain i st' where "bread ROOTDEV b st = Done (i, st')" "cached (ks_bufs st') b i" "ks_disk st' = ks_disk st"
    and bc: "becomes st st' (view st) ((refs st)(b := Suc (refs st b))) ((owner st)(b := Some pid))"
    by (rule bread_ok [OF s(1) pid]) (use s in simp_all)
  then show ?thesis using that becomesD [OF bc] s pid by simp
qed

lemma brelse_idle:
  assumes "bcache_ok st" and "cached (ks_bufs st) b i" and "mypid st = Done pid" and "refs st = (\<lambda>_. 0)(b := 1)"
    and "owner st = (\<lambda>_. None)(b := Some pid)" and "view st = dk_blocks (ks_disk st)"
  obtains st' where "brelse i st = Done st'" and "idle st'" and "ks_disk st' = ks_disk st"
proof -
  obtain st' where st': "brelse i st = Done st'" "ks_disk st' = ks_disk st"
    and bc: "becomes st st' (view st) ((refs st)(b := refs st b - 1)) ((owner st)(b := None))"
    by (rule brelse_ok [OF assms(1,2,3)]) (use assms(5,6) in simp_all)
  have "idle st'" using becomesD [OF bc] assms(3-6) st'(2) by (auto simp: idle_def)
  then show ?thesis using that st' by blast
qed

lemma read_block_idle:
  assumes "idle st"
  shows "\<exists>st'. read_block b st = Done (dk_blocks (ks_disk st) b, st') \<and> idle st' \<and> ks_disk st' = ks_disk st"
proof -
  obtain i st1 pid where st1: "bread ROOTDEV b st = Done (i, st1)" "cached (ks_bufs st1) b i" "ks_disk st1 = ks_disk st"
    "bcache_ok st1" "view st1 = view st" "refs st1 = (\<lambda>_. 0)(b := 1)" "owner st1 = (\<lambda>_. None)(b := Some pid)" "mypid st1 = Done pid"
    by (rule bread_idle [OF assms])
  have v: "view st1 = dk_blocks (ks_disk st1)" using assms st1(3,5) by (simp add: idle_def)
  obtain st2 where st2: "brelse i st1 = Done st2" "idle st2" "ks_disk st2 = ks_disk st1"
    by (rule brelse_idle [OF st1(4,2,8,6,7) v])
  have "b_data (ks_bufs st1 ! i) = dk_blocks (ks_disk st) b" using cached_simps(1) [OF st1(4,2)] v st1(3) by simp
  then show ?thesis using st1(1,3) st2 by (simp add: read_block_def Let_def)
qed

lemma write_block_idle:
  assumes "idle st" and "length d = BSIZE"
  shows "\<exists>st'. write_block b d st = Done st' \<and> idle st' \<and> ks_disk st' = disk_put b d (ks_disk st)"
proof -
  obtain i st1 pid where st1: "bread ROOTDEV b st = Done (i, st1)" "cached (ks_bufs st1) b i" "ks_disk st1 = ks_disk st"
    "bcache_ok st1" "view st1 = view st" "refs st1 = (\<lambda>_. 0)(b := 1)" "owner st1 = (\<lambda>_. None)(b := Some pid)" "mypid st1 = Done pid"
    by (rule bread_idle [OF assms(1)])
  define st2 where "st2 = st1\<lparr>ks_bufs := upd_buf i (\<lambda>b. b\<lparr>b_data := d\<rparr>) (ks_bufs st1)\<rparr>"
  have bc2: "becomes st1 st2 ((view st1)(b := d)) (refs st1) (owner st1)"
    unfolding st2_def by (rule set_data_ok [OF st1(4,2)]) (use st1(6) assms(2) in simp_all)
  note b2 = becomesD [OF bc2]
  have c2: "cached (ks_bufs st2) b i" using b2(7) [of b i] st1(2,6) by simp
  have pid2: "mypid st2 = Done pid" and own2: "owner st2 b = Some pid" and v2: "view st2 b = d" using b2 st1(7,8) by simp_all
  note w = bwrite_ok [OF b2(1) c2 pid2 own2]
  note b3 = becomesD [OF w(3)]
  have d3: "ks_disk (disk_write i st2) = disk_put b d (ks_disk st)" using w(2) v2 st1(3) by (simp add: st2_def)
  have "cached (ks_bufs (disk_write i st2)) b i" using b3(7) [of b i] c2 b2(4) st1(6) by simp
  then obtain st4 where "brelse i (disk_write i st2) = Done st4" "idle st4" "ks_disk st4 = ks_disk (disk_write i st2)"
    by (rule brelse_idle [OF b3(1), of b i pid])
      (use b2 b3 pid2 st1 d3 assms(1) in \<open>auto simp: idle_def disk_put_def\<close>)
  then show ?thesis using st1(1) w(1) d3 by (simp add: write_block_def st2_def)
qed

text \<open>
  Property C7: the cache is transparent. After \<open>binit\<close> any sequence of block reads and writes
  through \<open>bread\<close>, \<open>bwrite\<close> and \<open>brelse\<close> runs without a panic, however many different blocks it
  uses; every read returns what an array of blocks would return, and the disk ends as that array.
\<close>

theorem bcache_transparent:
  assumes "length bs = Suc NBUF" and "\<forall>j<NBUF. unused_buf (bs ! j)" and "ks_bufs st = binit bs"
    and "\<forall>b. length (dk_blocks (ks_disk st) b) = BSIZE" and "mypid st = Done pid"
    and "\<forall>b d. Wr b d \<in> set ops \<longrightarrow> length d = BSIZE"
  shows "\<exists>st'. run_blocks ops st = Done (fst (array_blocks ops (dk_blocks (ks_disk st))), st') \<and>
    dk_blocks (ks_disk st') = snd (array_blocks ops (dk_blocks (ks_disk st)))"
proof -
  have "idle st" using binit_ok [OF assms(1-4)] assms(5) by (simp add: idle_def)
  then show ?thesis using assms(6)
  proof (induction ops arbitrary: st)
    case Nil
    then show ?case by simp
  next
    case (Cons op ops)
    show ?case
    proof (cases op)
      case (Rd b)
      obtain st1 where "read_block b st = Done (dk_blocks (ks_disk st) b, st1)" "idle st1" "ks_disk st1 = ks_disk st"
        using read_block_idle [OF Cons.prems(1)] by blast
      then show ?thesis using Cons.IH [of st1] Cons.prems(2) Rd by (auto simp: split_beta Let_def)
    next
      case (Wr b d)
      then have "length d = BSIZE" using Cons.prems(2) by simp
      then obtain st1 where "write_block b d st = Done st1" "idle st1" "ks_disk st1 = disk_put b d (ks_disk st)"
        using write_block_idle [OF Cons.prems(1)] by blast
      then show ?thesis using Cons.IH [of st1] Cons.prems(2) Wr by (auto simp: disk_put_def fun_upd_def)
    qed
  qed
qed

section \<open>Witness\<close>

text \<open>The kernel after \<open>binit\<close>, with a disk of zero blocks, a process running and nothing else in use.\<close>

definition zero_buf :: buf where
  "zero_buf = \<lparr>b_valid = False, b_disk = False, b_dev = 0, b_blockno = 0,
     b_lock = \<lparr>sl_locked = False, sl_lk = initlock '''', sl_name = '''', sl_pid = 0\<rparr>,
     b_refcnt = 0, b_prev = 0, b_next = 0, b_data = replicate BSIZE 0\<rparr>"

definition zero_log :: log where
  "zero_log = \<lparr>lg_start = 0, lg_size = 0, lg_outstanding = 0, lg_committing = False, lg_dev = 0, lg_n = 0,
     lg_block = replicate LOGSIZE 0\<rparr>"

definition demo_kst :: "sys \<Rightarrow> (u32 \<Rightarrow> u8 list) \<Rightarrow> kst" where
  "demo_kst s dk = \<lparr>ks_sys = s, ks_bufs = binit (replicate (Suc NBUF) zero_buf), ks_disk = \<lparr>dk_blocks = dk, dk_hist = []\<rparr>,
     ks_log = zero_log,
     ks_sb = \<lparr>sb_magic = 0, sb_size = 0, sb_nblocks = 0, sb_ninodes = 0, sb_nlog = 0, sb_logstart = 0,
       sb_inodestart = 0, sb_bmapstart = 0\<rparr>,
     ks_inodes = [], ks_files = [], ks_pipes = (\<lambda>_. None), ks_cons = \<lparr>cn_buf = replicate 128 0, cn_r = 0, cn_w = 0, cn_e = 0\<rparr>,
     ks_uart = \<lparr>ua_tx_buf = replicate 32 0, ua_tx_w = 0, ua_tx_r = 0, ua_idle = [], ua_rx = []\<rparr>, ks_out = [], ks_reports = \<lparr>rl_reports = [], rl_numberOfReports = 0, rl_writeIndex = 0\<rparr>\<rparr>"

lemma demo_kst_bufs: "ks_bufs (demo_kst s dk) = binit (replicate (Suc NBUF) zero_buf)"
  "ks_disk (demo_kst s dk) = \<lparr>dk_blocks = dk, dk_hist = []\<rparr>" "ks_log (demo_kst s dk) = zero_log" "ks_sys (demo_kst s dk) = s"
  by (simp_all add: demo_kst_def)

lemma zero_bufs: "length (replicate (Suc NBUF) zero_buf) = Suc NBUF" "\<forall>j<NBUF. unused_buf (replicate (Suc NBUF) zero_buf ! j)"
  by (simp, auto simp: unused_buf_def zero_buf_def simp del: replicate.simps)

theorem bcache_transparent_witness:
  "\<exists>st'. run_blocks [Wr 5 (replicate BSIZE 7), Rd 5, Rd 6] (demo_kst demo_sys (\<lambda>_. replicate BSIZE 0)) =
     Done ([replicate BSIZE 7, replicate BSIZE 0], st') \<and> dk_blocks (ks_disk st') 5 = replicate BSIZE 7"
proof -
  let ?st = "demo_kst demo_sys (\<lambda>_. replicate BSIZE 0)" and ?ops = "[Wr 5 (replicate BSIZE 7), Rd 5, Rd 6]"
  have len: "\<forall>b. length (dk_blocks (ks_disk ?st) b) = BSIZE" by (simp only: demo_kst_bufs) simp
  have pid: "mypid ?st = Done (p_pid (the_proc (sy_pt demo_sys) 0))"
    by (simp only: mypid_def current_def demo_kst_bufs) (simp add: demo_sys_def)
  have ops: "\<forall>b d. Wr b d \<in> set ?ops \<longrightarrow> length d = BSIZE" by (simp del: replicate.simps)
  show ?thesis
    using bcache_transparent [OF zero_bufs demo_kst_bufs(1) len pid ops]
    by (simp only: demo_kst_bufs) (auto simp del: replicate.simps)
qed

end
