(* ===== verification/Log.thy ===== *)
theory Log
  imports Bio
begin

text \<open>
  \<^verbatim>\<open>kernel/log.c\<close>: the redo log that makes file system operations atomic. The header block holds
  the number of logged blocks and their home block numbers; the copies follow it. A step of a
  transaction that would sleep is \<open>Hang\<close>. The disk keeps the history of its writes, so that the
  theorems can speak of a power failure after any of them.
\<close>

section \<open>Operations\<close>

definition upd_log :: "(log \<Rightarrow> log) \<Rightarrow> kst \<Rightarrow> kst" where
  "upd_log f st = st\<lparr>ks_log := f (ks_log st)\<rparr>"

text \<open>The entries of the header block on disk, \<^verbatim>\<open>struct logheader\<close>.\<close>

definition head_n :: "u8 list \<Rightarrow> int" where
  "head_n d = sint (get32 0 d)"

definition head_block :: "nat \<Rightarrow> u8 list \<Rightarrow> u32" where
  "head_block i d = get32 (4 + 4 * i) d"

text \<open>\<^verbatim>\<open>log.lh.block[i]\<close>.\<close>

definition log_block :: "nat \<Rightarrow> kst \<Rightarrow> u32 outcome" where
  "log_block i st = (if i < LOGSIZE then Done (lg_block (ks_log st) ! i) else Fault)"

definition buf_data :: "nat \<Rightarrow> kst \<Rightarrow> u8 list" where
  "buf_data i st = b_data (ks_bufs st ! i)"

definition set_data :: "nat \<Rightarrow> u8 list \<Rightarrow> kst \<Rightarrow> kst" where
  "set_data i d st = st\<lparr>ks_bufs := upd_buf i (\<lambda>b. b\<lparr>b_data := d\<rparr>) (ks_bufs st)\<rparr>"

text \<open>Copying a buffer over another one, writing that one and releasing both.\<close>

definition move_block :: "bool \<Rightarrow> nat \<Rightarrow> nat \<Rightarrow> kst \<Rightarrow> kst outcome" where
  "move_block unpin dst src st =
     obind (bwrite dst (set_data dst (buf_data src st) st)) (\<lambda>st.
     obind (brelse src (if unpin then bunpin dst st else st)) (brelse dst))"

definition install1 :: "bool \<Rightarrow> nat \<Rightarrow> kst \<Rightarrow> kst outcome" where
  "install1 recovering tail st =
     obind (bread (lg_dev (ks_log st)) (lg_start (ks_log st) + of_nat tail + 1) st) (\<lambda>(lbuf, st).
     obind (log_block tail st) (\<lambda>b.
     obind (bread (lg_dev (ks_log st)) b st) (\<lambda>(dbuf, st). move_block (\<not> recovering) dbuf lbuf st)))"

definition install_trans :: "bool \<Rightarrow> kst \<Rightarrow> kst outcome" where
  "install_trans recovering st = ofold (install1 recovering) [0..<nat (lg_n (ks_log st))] st"

definition read_head :: "kst \<Rightarrow> kst outcome" where
  "read_head st = obind (bread (lg_dev (ks_log st)) (lg_start (ks_log st)) st) (\<lambda>(b, st).
     let d = buf_data b st; st = upd_log (\<lambda>l. l\<lparr>lg_n := head_n d\<rparr>) st
     in obind (ofold (\<lambda>i st. if i < LOGSIZE
            then Done (upd_log (\<lambda>l. l\<lparr>lg_block := (lg_block l)[i := head_block i d]\<rparr>) st) else Fault)
          [0..<nat (head_n d)] st) (brelse b))"

definition write_head :: "kst \<Rightarrow> kst outcome" where
  "write_head st = obind (bread (lg_dev (ks_log st)) (lg_start (ks_log st)) st) (\<lambda>(b, st).
     let d = put32 0 (of_int (lg_n (ks_log st))) (buf_data b st)
     in obind (ofold (\<lambda>i d. obind (log_block i st) (\<lambda>bno. Done (put32 (4 + 4 * i) bno d)))
          [0..<nat (lg_n (ks_log st))] d) (\<lambda>d.
        obind (bwrite b (set_data b d st)) (brelse b)))"

definition recover_from_log :: "kst \<Rightarrow> kst outcome" where
  "recover_from_log st = obind (read_head st) (\<lambda>st. obind (install_trans True st) (\<lambda>st.
     write_head (upd_log (\<lambda>l. l\<lparr>lg_n := 0\<rparr>) st)))"

definition initlog :: "u32 \<Rightarrow> superblock \<Rightarrow> kst \<Rightarrow> kst outcome" where
  "initlog dev sb st =
     (if 4 + 4 * LOGSIZE \<ge> BSIZE then Panic ''initlog: too big logheader''
      else recover_from_log (upd_log (\<lambda>l. l\<lparr>lg_start := sb_logstart sb, lg_size := sint (sb_nlog sb), lg_dev := dev\<rparr>) st))"

definition begin_op :: "kst \<Rightarrow> kst outcome" where
  "begin_op st =
     (if lg_committing (ks_log st) then Hang
      else if lg_n (ks_log st) + (lg_outstanding (ks_log st) + 1) * int MAXOPBLOCKS > int LOGSIZE then Hang
      else Done (upd_log (\<lambda>l. l\<lparr>lg_outstanding := lg_outstanding l + 1\<rparr>) st))"

definition write1 :: "nat \<Rightarrow> kst \<Rightarrow> kst outcome" where
  "write1 tail st =
     obind (bread (lg_dev (ks_log st)) (lg_start (ks_log st) + of_nat tail + 1) st) (\<lambda>(dst, st).
     obind (log_block tail st) (\<lambda>b.
     obind (bread (lg_dev (ks_log st)) b st) (\<lambda>(src, st). move_block False dst src st)))"

definition write_log :: "kst \<Rightarrow> kst outcome" where
  "write_log st = ofold write1 [0..<nat (lg_n (ks_log st))] st"

definition commit :: "kst \<Rightarrow> kst outcome" where
  "commit st =
     (if lg_n (ks_log st) > 0
      then obind (write_log st) (\<lambda>st. obind (write_head st) (\<lambda>st. obind (install_trans False st) (\<lambda>st.
        write_head (upd_log (\<lambda>l. l\<lparr>lg_n := 0\<rparr>) st))))
      else Done st)"

definition end_op :: "kst \<Rightarrow> kst outcome" where
  "end_op st =
     (let st = upd_log (\<lambda>l. l\<lparr>lg_outstanding := lg_outstanding l - 1\<rparr>) st in
      if lg_committing (ks_log st) then Panic ''log.committing''
      else if lg_outstanding (ks_log st) = 0
      then obind (commit (upd_log (\<lambda>l. l\<lparr>lg_committing := True\<rparr>) st)) (\<lambda>st.
        Done (kwakeup ChanLog (upd_log (\<lambda>l. l\<lparr>lg_committing := False\<rparr>) st)))
      else Done (kwakeup ChanLog st))"

definition log_write :: "nat \<Rightarrow> kst \<Rightarrow> kst outcome" where
  "log_write b st =
     (let l = ks_log st; bno = b_blockno (ks_bufs st ! b) in
      if lg_n l \<ge> int LOGSIZE \<or> lg_n l \<ge> lg_size l - 1 then Panic ''too big a transaction''
      else if lg_outstanding l < 1 then Panic ''log_write outside of trans''
      else (let i = (case find (\<lambda>i. lg_block l ! i = bno) [0..<nat (lg_n l)] of Some i \<Rightarrow> i | None \<Rightarrow> nat (lg_n l));
                st = upd_log (\<lambda>l. l\<lparr>lg_block := (lg_block l)[i := bno]\<rparr>) st
            in if int i = lg_n l then Done (upd_log (\<lambda>l. l\<lparr>lg_n := lg_n l + 1\<rparr>) (bpin b st)) else Done st))"

lemma upd_log_simps [simp]:
  "ks_log (upd_log f st) = f (ks_log st)" "ks_bufs (upd_log f st) = ks_bufs st" "ks_disk (upd_log f st) = ks_disk st"
  "ks_sys (upd_log f st) = ks_sys st" "mypid (upd_log f st) = mypid st" "ks_sb (upd_log f st) = ks_sb st"
  "ks_inodes (upd_log f st) = ks_inodes st" "ks_files (upd_log f st) = ks_files st" "ks_pipes (upd_log f st) = ks_pipes st"
  "view (upd_log f st) = view st" "refs (upd_log f st) = refs st" "owner (upd_log f st) = owner st"
  "bcache_ok (upd_log f st) = bcache_ok st" "ks_cons (upd_log f st) = ks_cons st" "ks_out (upd_log f st) = ks_out st"
  "ks_reports (upd_log f st) = ks_reports st"
  by (auto simp: upd_log_def mypid_def current_def view_def refs_def owner_def bcache_ok_def fun_eq_iff split: option.split)

section \<open>Disk writes\<close>

definition apply_writes :: "(u32 \<times> u8 list) list \<Rightarrow> (u32 \<Rightarrow> u8 list) \<Rightarrow> u32 \<Rightarrow> u8 list" where
  "apply_writes ws d = fold (\<lambda>(b, v) d. d(b := v)) ws d"

lemma apply_writes_simps [simp]:
  "apply_writes [] d = d" "apply_writes ((b, v) # ws) d = apply_writes ws (d(b := v))"
  "apply_writes (ws @ ws') d = apply_writes ws' (apply_writes ws d)"
  by (simp_all add: apply_writes_def)

lemma apply_writes_other: "b \<notin> fst ` set ws \<Longrightarrow> apply_writes ws d b = d b"
  by (induction ws arbitrary: d) auto

lemma apply_writes_nth:
  "distinct (map fst ws) \<Longrightarrow> k < length ws \<Longrightarrow> apply_writes ws d (fst (ws ! k)) = snd (ws ! k)"
proof (induction ws arbitrary: d k)
  case (Cons w ws)
  then show ?case by (cases w; cases k) (auto simp: apply_writes_other image_iff)
qed simp

lemma apply_writes_same:
  "b \<in> fst ` set ws \<or> x b = y b \<Longrightarrow> apply_writes ws x b = apply_writes ws y b"
proof (induction ws arbitrary: x y)
  case (Cons w ws)
  obtain a v where w: "w = (a, v)" by force
  have "b \<in> fst ` set ws \<or> (x(a := v)) b = (y(a := v)) b" using Cons.prems w by auto
  then show ?case using Cons.IH w by simp
qed simp

definition put_disk :: "(u32 \<times> u8 list) list \<Rightarrow> disk \<Rightarrow> disk" where
  "put_disk ws d = fold (\<lambda>(b, v). disk_put b v) ws d"

lemma put_disk_simps [simp]:
  "put_disk [] d = d" "put_disk ((b, v) # ws) d = put_disk ws (disk_put b v d)" "put_disk (ws @ ws') d = put_disk ws' (put_disk ws d)"
  by (simp_all add: put_disk_def)

lemma put_disk_blocks [simp]:
  "dk_blocks (put_disk ws d) = apply_writes ws (dk_blocks d)" "dk_hist (put_disk ws d) = dk_hist d @ ws"
  by (induction ws arbitrary: d) (auto simp: disk_put_def)

section \<open>Moving blocks\<close>

text \<open>The state of the cache and the disk after some operations of one process.\<close>

definition gets :: "kst \<Rightarrow> kst \<Rightarrow> (u32 \<Rightarrow> u8 list) \<Rightarrow> (u32 \<Rightarrow> nat) \<Rightarrow> (u32 \<Rightarrow> u32 option) \<Rightarrow> (u32 \<times> u8 list) list \<Rightarrow> bool" where
  "gets st st' v r l ws \<longleftrightarrow> bcache_ok st' \<and> quiet st st' \<and> view st' = v \<and> refs st' = r \<and> owner st' = l \<and>
     ks_disk st' = put_disk ws (ks_disk st)"

lemma getsD:
  assumes "gets st st' v r l ws"
  shows "bcache_ok st'" "quiet st st'" "view st' = v" "refs st' = r" "owner st' = l" "ks_disk st' = put_disk ws (ks_disk st)"
    "mypid st' = mypid st" "ks_log st' = ks_log st"
  using assms quietD(1,11) [of st st'] by (simp_all add: gets_def)

lemma gets_refl: "bcache_ok st \<Longrightarrow> gets st st (view st) (refs st) (owner st) []"
  by (simp add: gets_def)

lemma gets_trans:
  "gets st st1 v1 r1 l1 ws1 \<Longrightarrow> gets st1 st2 v r l ws \<Longrightarrow> gets st st2 v r l (ws1 @ ws)"
  unfolding gets_def using quiet_trans by auto

lemma becomes_gets:
  "becomes st st' v r l \<Longrightarrow> ks_disk st' = put_disk ws (ks_disk st) \<Longrightarrow> gets st st' v r l ws"
  by (simp add: becomes_def gets_def)

lemma pins_upd: "finite {b. 0 < r b} \<Longrightarrow> pins (r(b := n)) \<le> Suc (pins r)"
proof -
  assume f: "finite {b. 0 < r b}"
  have "{c. 0 < (r(b := n)) c} \<subseteq> insert b {c. 0 < r c}" by auto
  then have "pins (r(b := n)) \<le> card (insert b {c. 0 < r c})" unfolding pins_def by (rule card_mono [rotated]) (simp add: f)
  also have "\<dots> \<le> Suc (pins r)" unfolding pins_def by (simp add: card_insert_if f)
  finally show ?thesis .
qed

lemma move_block_ok:
  assumes ok: "bcache_ok st" and c: "cached (ks_bufs st) a i" "cached (ks_bufs st) b j" "a \<noteq> b" and pid: "mypid st = Done pid"
    and own: "owner st a = Some pid" "owner st b = Some pid" and r: "0 < refs st a" "0 < refs st b" "unpin \<Longrightarrow> 1 < refs st a"
    and clean: "refs st b = 1 \<Longrightarrow> view st b = dk_blocks (ks_disk st) b"
  shows "\<exists>st'. move_block unpin i j st = Done st' \<and> gets st st' ((view st)(a := view st b))
    ((refs st)(b := refs st b - 1, a := refs st a - (if unpin then 2 else 1))) ((owner st)(a := None, b := None)) [(a, view st b)]"
proof -
  have jd: "buf_data j st = view st b" using cached_simps(1) [OF ok c(2)] by (simp add: buf_data_def)
  have len: "length (view st b) = BSIZE"
    using ok c(2) cached_simps(1) [OF ok c(2)] by (auto simp: bcache_ok_def buf_ok_def cached_def)
  define st1 where "st1 = set_data i (view st b) st"
  have bc1: "becomes st st1 ((view st)(a := view st b)) (refs st) (owner st)"
    unfolding st1_def set_data_def by (rule set_data_ok [OF ok c(1) r(1) len])
  note b1 = becomesD [OF bc1]
  have c1: "cached (ks_bufs st1) a i" "cached (ks_bufs st1) b j" using b1(7) c(1,2) r(1,2) by blast+
  have d1: "ks_disk st1 = ks_disk st" by (simp add: st1_def set_data_def)
  note w = bwrite_ok [OF b1(1) c1(1)]
  define st2 where "st2 = disk_write i st1"
  have w1: "bwrite i st1 = Done st2" and d2: "ks_disk st2 = disk_put a (view st b) (ks_disk st)"
    and bc2: "becomes st1 st2 ((view st)(a := view st b)) (refs st) (owner st)"
    using w [of pid] b1 pid own d1 by (simp_all add: st2_def)
  note b2 = becomesD [OF bc2]
  have c2: "cached (ks_bufs st2) a i" "cached (ks_bufs st2) b j" using b2(7) [of a i] b2(7) [of b j] c1 r(1,2) b1(4) by simp_all
  define st3 where "st3 = (if unpin then bunpin i st2 else st2)"
  have bc3: "becomes st2 st3 ((view st)(a := view st b)) ((refs st)(a := refs st a - (if unpin then 1 else 0))) (owner st)"
    and d3: "ks_disk st3 = ks_disk st2"
  proof -
    show "ks_disk st3 = ks_disk st2" by (simp add: st3_def bunpin_def)
    have "becomes st2 st2 (view st2) (refs st2) (owner st2)" using b2(1) by (simp add: becomes_def)
    then show "becomes st2 st3 ((view st)(a := view st b)) ((refs st)(a := refs st a - (if unpin then 1 else 0))) (owner st)"
      using bunpin_ok [OF b2(1) c2(1)] b2 r(3) by (simp add: st3_def)
  qed
  note b3 = becomesD [OF bc3]
  have c3: "cached (ks_bufs st3) a i" "cached (ks_bufs st3) b j" using b3(7) [of a i] b3(7) [of b j] c2 r(1,2) b2(4) by simp_all
  obtain st4 where st4: "brelse j st3 = Done st4" "ks_disk st4 = ks_disk st3"
    and bc4: "becomes st3 st4 (view st3) ((refs st3)(b := refs st3 b - 1)) ((owner st3)(b := None))"
    by (rule brelse_ok [OF b3(1) c3(2), of pid])
      (use b1 b2 b3 pid own(2) clean d2 d3 c(3) in \<open>auto simp: disk_put_def\<close>)
  note b4 = becomesD [OF bc4]
  have ra: "0 < refs st3 a" using b3(4) r(1,3) by auto
  have c4: "cached (ks_bufs st4) a i" using b4(7) [OF ra c3(1)] .
  obtain st5 where st5: "brelse i st4 = Done st5" "ks_disk st5 = ks_disk st4"
    and bc5: "becomes st4 st5 (view st4) ((refs st4)(a := refs st4 a - 1)) ((owner st4)(a := None))"
    by (rule brelse_ok [OF b4(1) c4, of pid])
      (use b1 b2 b3 b4 pid own(1) d2 d3 st4(2) c(3) in \<open>auto simp: disk_put_def\<close>)
  note b5 = becomesD [OF bc5]
  have "quiet st st5" using b1(2) b2(2) b3(2) b4(2) b5(2) quiet_trans by blast
  then have "gets st st5 ((view st)(a := view st b))
    ((refs st)(b := refs st b - 1, a := refs st a - (if unpin then 2 else 1))) ((owner st)(a := None, b := None)) [(a, view st b)]"
    unfolding gets_def using b3 b4 b5 d2 d3 st4(2) st5(2) c(3) by (auto simp: fun_eq_iff)
  moreover have "move_block unpin i j st = Done st5"
    by (simp only: move_block_def jd st1_def [symmetric] w1 obind.simps st3_def [symmetric] st4(1) st5(1))
  ultimately show ?thesis by blast
qed

lemma write1_ok:
  assumes a_def: "a = lg_start (ks_log st) + of_nat k + 1" and b_def: "b = lg_block (ks_log st) ! k"
    and ok: "bcache_ok st" and pid: "mypid st = Done pid" and dev: "lg_dev (ks_log st) = ROOTDEV" and k: "k < LOGSIZE"
    and own: "owner st = (\<lambda>_. None)" and ab: "a \<noteq> b" and r: "0 < refs st b" "\<And>c. Suc (refs st c) < 2 ^ 32"
    and room: "pins (refs st) < NBUF"
  shows "\<exists>st'. write1 k st = Done st' \<and> gets st st' ((view st)(a := view st b)) (refs st) (owner st) [(a, view st b)]"
proof -
  obtain i st1 where st1: "bread ROOTDEV a st = Done (i, st1)" "cached (ks_bufs st1) a i" "ks_disk st1 = ks_disk st"
    and bc1: "becomes st st1 (view st) ((refs st)(a := Suc (refs st a))) ((owner st)(a := Some pid))"
    by (rule bread_ok [OF ok pid]) (use own r(2) room in simp_all)
  note b1 = becomesD [OF bc1]
  obtain j st2 where st2: "bread ROOTDEV b st1 = Done (j, st2)" "cached (ks_bufs st2) b j" "ks_disk st2 = ks_disk st1"
    and bc2: "becomes st1 st2 (view st1) ((refs st1)(b := Suc (refs st1 b))) ((owner st1)(b := Some pid))"
    by (rule bread_ok [OF b1(1)]) (use b1 pid own r ab in auto)
  note b2 = becomesD [OF bc2]
  have c: "cached (ks_bufs st2) a i" using b2(7) [of a i] st1(2) b1(4) by simp
  have "\<exists>st'. move_block False i j st2 = Done st' \<and> gets st2 st' ((view st2)(a := view st2 b))
    ((refs st2)(b := refs st2 b - 1, a := refs st2 a - (if False then 2 else 1))) ((owner st2)(a := None, b := None)) [(a, view st2 b)]"
    by (rule move_block_ok [OF b2(1) c st2(2) ab]) (use b1 b2 pid ab r in auto)
  then obtain st3 where st3: "move_block False i j st2 = Done st3" and g: "gets st2 st3 ((view st)(a := view st b)) (refs st) (owner st) [(a, view st b)]"
    using b1 b2 ab own by (auto simp: fun_upd_idem fun_upd_twist)
  have "write1 k st = Done st3"
    using st1(1) st2(1) st3 dev k quietD(1) [OF b1(2)] quietD(1) [OF b2(2)]
    by (simp add: write1_def log_block_def a_def b_def)
  moreover have "gets st st3 ((view st)(a := view st b)) (refs st) (owner st) ([] @ [] @ [(a, view st b)])"
    by (rule gets_trans [OF becomes_gets [OF bc1] gets_trans [OF becomes_gets [OF bc2] g]]) (simp_all add: st1(3) st2(3))
  ultimately show ?thesis by auto
qed

lemma install1_ok:
  assumes a_def: "a = lg_start (ks_log st) + of_nat k + 1" and b_def: "b = lg_block (ks_log st) ! k"
    and ok: "bcache_ok st" and pid: "mypid st = Done pid" and dev: "lg_dev (ks_log st) = ROOTDEV" and k: "k < LOGSIZE"
    and own: "owner st = (\<lambda>_. None)" and ab: "a \<noteq> b" and r: "\<not> recovering \<Longrightarrow> 0 < refs st b" "\<And>c. Suc (refs st c) < 2 ^ 32"
    and room: "pins (refs st) < NBUF" "0 < refs st b \<or> Suc (pins (refs st)) < NBUF" and clean: "view st a = dk_blocks (ks_disk st) a"
  shows "\<exists>st'. install1 recovering k st = Done st' \<and> gets st st' ((view st)(b := view st a))
    ((refs st)(b := refs st b - (if recovering then 0 else 1))) (owner st) [(b, view st a)]"
proof -
  obtain i st1 where st1: "bread ROOTDEV a st = Done (i, st1)" "cached (ks_bufs st1) a i" "ks_disk st1 = ks_disk st"
    and bc1: "becomes st st1 (view st) ((refs st)(a := Suc (refs st a))) ((owner st)(a := Some pid))"
    by (rule bread_ok [OF ok pid]) (use own r(2) room in simp_all)
  note b1 = becomesD [OF bc1]
  have "pins (refs st1) \<le> Suc (pins (refs st))" unfolding b1(4) by (rule pins_upd [OF finite_referenced [OF ok]])
  then have "0 < refs st1 b \<or> pins (refs st1) < NBUF" using room(2) b1(4) ab by auto
  then obtain j st2 where st2: "bread ROOTDEV b st1 = Done (j, st2)" "cached (ks_bufs st2) b j" "ks_disk st2 = ks_disk st1"
    and bc2: "becomes st1 st2 (view st1) ((refs st1)(b := Suc (refs st1 b))) ((owner st1)(b := Some pid))"
    by (rule bread_ok [OF b1(1), of pid b, rotated -2]) (use b1 pid own r(2) ab in auto)
  note b2 = becomesD [OF bc2]
  have c: "cached (ks_bufs st2) a i" using b2(7) [of a i] st1(2) b1(4) by simp
  have "\<exists>st'. move_block (\<not> recovering) j i st2 = Done st' \<and> gets st2 st' ((view st2)(b := view st2 a))
    ((refs st2)(a := refs st2 a - 1, b := refs st2 b - (if \<not> recovering then 2 else 1))) ((owner st2)(b := None, a := None)) [(b, view st2 a)]"
    by (rule move_block_ok [OF b2(1) st2(2) c ab [symmetric]]) (use b1 b2 pid ab r clean st1(3) st2(3) in auto)
  then obtain st3 where st3: "move_block (\<not> recovering) j i st2 = Done st3" and g: "gets st2 st3 ((view st)(b := view st a))
     ((refs st)(b := refs st b - (if recovering then 0 else 1))) (owner st) [(b, view st a)]"
    using b1 b2 ab own by (cases recovering) (auto simp: fun_upd_idem fun_upd_twist)
  have "install1 recovering k st = Done st3"
    using st1(1) st2(1) st3 dev k quietD(1) [OF b1(2)] quietD(1) [OF b2(2)]
    by (simp add: install1_def log_block_def a_def b_def)
  moreover have "gets st st3 ((view st)(b := view st a)) ((refs st)(b := refs st b - (if recovering then 0 else 1))) (owner st)
      ([] @ [] @ [(b, view st a)])"
    by (rule gets_trans [OF becomes_gets [OF bc1] gets_trans [OF becomes_gets [OF bc2] g]]) (simp_all add: st1(3) st2(3))
  ultimately show ?thesis by auto
qed

lemma pins_mono: "finite {b. 0 < r b} \<Longrightarrow> (\<And>c. r' c \<le> r c) \<Longrightarrow> pins r' \<le> pins r"
  unfolding pins_def by (rule card_mono) (auto intro: less_le_trans)

section \<open>The header block\<close>

definition head_bytes :: "nat \<Rightarrow> u32 list \<Rightarrow> u8 list \<Rightarrow> u8 list" where
  "head_bytes n bl h = fold (\<lambda>i d. put32 (4 + 4 * i) (bl ! i) d) [0..<n] (put32 0 (of_nat n) h)"

lemma head_bytes_prefix:
  assumes "length h = BSIZE" and "m \<le> LOGSIZE"
  shows "length (fold (\<lambda>i d. put32 (4 + 4 * i) (bl ! i) d) [0..<m] h) = BSIZE \<and>
    get32 0 (fold (\<lambda>i d. put32 (4 + 4 * i) (bl ! i) d) [0..<m] h) = get32 0 h \<and>
    (\<forall>i<m. get32 (4 + 4 * i) (fold (\<lambda>i d. put32 (4 + 4 * i) (bl ! i) d) [0..<m] h) = bl ! i)"
  using assms(2)
proof (induction m)
  case 0
  then show ?case using assms(1) by simp
next
  case (Suc m)
  then show ?case by (auto simp: get32_put32_other less_Suc_eq)
qed

lemma head_bytes_ok:
  assumes "length h = BSIZE" and "n \<le> LOGSIZE"
  shows "length (head_bytes n bl h) = BSIZE" and "head_n (head_bytes n bl h) = int n"
    and "i < n \<Longrightarrow> head_block i (head_bytes n bl h) = bl ! i"
proof -
  have "signed_take_bit 31 (int n) = int n" using assms(2) by (intro signed_take_bit_int_eq_self) auto
  moreover have "take_bit 32 n = n" using assms(2) by (intro take_bit_nat_eq_self) auto
  ultimately have "sint (of_nat n :: u32) = int n" by (simp add: sint_uint unsigned_of_nat)
  then show "length (head_bytes n bl h) = BSIZE" "head_n (head_bytes n bl h) = int n"
    "i < n \<Longrightarrow> head_block i (head_bytes n bl h) = bl ! i"
    using head_bytes_prefix [of "put32 0 (of_nat n) h" n bl] assms by (simp_all add: head_bytes_def head_n_def head_block_def)
qed

lemma view_length:
  assumes "bcache_ok st"
  shows "length (view st b) = BSIZE"
proof (cases "slot_of (ks_bufs st) b")
  case None
  then show ?thesis using assms by (simp add: view_def bcache_ok_def)
next
  case (Some i)
  then have "i < NBUF" using slot_of_eq [OF assms] by (simp add: cached_def)
  then show ?thesis using assms Some by (simp add: view_def bcache_ok_def buf_ok_def)
qed

text \<open>Reading a block, replacing its contents and writing it.\<close>

lemma overwrite_ok:
  assumes ok: "bcache_ok st" and pid: "mypid st = Done pid" and own: "owner st b = None"
    and r: "Suc (refs st b) < 2 ^ 32" and room: "0 < refs st b \<or> pins (refs st) < NBUF"
  obtains i st1 where "bread ROOTDEV b st = Done (i, st1)" and "buf_data i st1 = view st b" and "ks_log st1 = ks_log st"
    and "\<And>d. length d = BSIZE \<Longrightarrow> \<exists>st'. obind (bwrite i (set_data i d st1)) (brelse i) = Done st' \<and>
      gets st st' ((view st)(b := d)) (refs st) (owner st) [(b, d)]"
proof -
  obtain i st1 where st1: "bread ROOTDEV b st = Done (i, st1)" "cached (ks_bufs st1) b i" "ks_disk st1 = ks_disk st"
    and bc1: "becomes st st1 (view st) ((refs st)(b := Suc (refs st b))) ((owner st)(b := Some pid))"
    by (rule bread_ok [OF ok pid own r room])
  note b1 = becomesD [OF bc1]
  have "\<exists>st'. obind (bwrite i (set_data i d st1)) (brelse i) = Done st' \<and> gets st st' ((view st)(b := d)) (refs st) (owner st) [(b, d)]"
    if d: "length d = BSIZE" for d
  proof -
    have bc2: "becomes st1 (set_data i d st1) ((view st1)(b := d)) (refs st1) (owner st1)"
      unfolding set_data_def by (rule set_data_ok [OF b1(1) st1(2) _ d]) (simp add: b1(4))
    note b2 = becomesD [OF bc2]
    have c2: "cached (ks_bufs (set_data i d st1)) b i" using b2(7) [of b i] st1(2) b1(4) by simp
    define st3 where "st3 = disk_write i (set_data i d st1)"
    have w: "bwrite i (set_data i d st1) = Done st3" and d3: "ks_disk st3 = disk_put b d (ks_disk st)"
      and bc3: "becomes (set_data i d st1) st3 ((view st)(b := d)) (refs st1) (owner st1)"
      using bwrite_ok [OF b2(1) c2, of pid] b1 b2 pid st1(3) by (simp_all add: st3_def) (simp_all add: set_data_def)
    note b3 = becomesD [OF bc3]
    have c3: "cached (ks_bufs st3) b i" using b3(7) [of b i] c2 b2(4) b1(4) by simp
    obtain st4 where st4: "brelse i st3 = Done st4" "ks_disk st4 = ks_disk st3"
      and bc4: "becomes st3 st4 (view st3) ((refs st3)(b := refs st3 b - 1)) ((owner st3)(b := None))"
      by (rule brelse_ok [OF b3(1) c3, of pid]) (use b1 b2 b3 pid d3 in \<open>auto simp: disk_put_def\<close>)
    note b4 = becomesD [OF bc4]
    have "quiet st st4" using b1(2) b2(2) b3(2) b4(2) quiet_trans by blast
    then have "gets st st4 ((view st)(b := d)) (refs st) (owner st) [(b, d)]"
      unfolding gets_def using b1 b3 b4 d3 st4(2) own by (auto simp: fun_eq_iff)
    then show ?thesis using w st4(1) by auto
  qed
  moreover have "buf_data i st1 = view st b" using cached_simps(1) [OF b1(1) st1(2)] b1(3) by (simp add: buf_data_def)
  ultimately show ?thesis using that st1(1) quietD(1) [OF b1(2)] by blast
qed

lemma ofold_Done: "ofold (\<lambda>i d. Done (f i d)) xs d = Done (fold f xs d)"
  by (induction xs arbitrary: d) auto

text \<open>A log that can be written: it fits, and its home blocks are distinct and outside the log.\<close>

definition log_wf :: "u32 \<Rightarrow> u32 list \<Rightarrow> nat \<Rightarrow> bool" where
  "log_wf s bl n \<longleftrightarrow> n \<le> LOGSIZE \<and> length bl = LOGSIZE \<and> distinct (take n bl) \<and> (\<forall>k<n. LOGSIZE < unat (bl ! k - s))"

lemma log_area:
  assumes "log_wf s bl n" and "k < n" and "j \<le> LOGSIZE"
  shows "s + of_nat j \<noteq> bl ! k"
proof
  assume "s + of_nat j = bl ! k"
  then have "unat (bl ! k - s) = unat (of_nat j :: u32)" by (metis add_diff_cancel_left')
  also have "\<dots> = j" using assms(3) by (simp add: unat_of_nat)
  finally show False using assms unfolding log_wf_def by auto
qed

lemma log_area_next:
  assumes "log_wf s bl n" and "k < n" and "j < n"
  shows "s + of_nat j + 1 \<noteq> bl ! k"
  using log_area [OF assms(1,2), of "Suc j"] assms(1,3) by (simp add: log_wf_def add.assoc add.commute [of 1])

lemma log_area_inj: "j < k \<Longrightarrow> k \<le> LOGSIZE \<Longrightarrow> (s :: u32) + of_nat j \<noteq> s + of_nat k"
  using word_of_nat_eq_iff [of j k, where 'a = 32] by (auto simp: take_bit_nat_eq_self)

text \<open>The writes of a whole log, and of its installation.\<close>

definition log_writes :: "u32 \<Rightarrow> u32 list \<Rightarrow> (u32 \<Rightarrow> u8 list) \<Rightarrow> nat \<Rightarrow> (u32 \<times> u8 list) list" where
  "log_writes s bl v n = map (\<lambda>k. (s + of_nat k + 1, v (bl ! k))) [0..<n]"

definition home_writes :: "u32 \<Rightarrow> u32 list \<Rightarrow> (u32 \<Rightarrow> u8 list) \<Rightarrow> nat \<Rightarrow> (u32 \<times> u8 list) list" where
  "home_writes s bl v n = map (\<lambda>k. (bl ! k, v (s + of_nat k + 1))) [0..<n]"

lemma log_writes_home: "log_wf s bl n \<Longrightarrow> m \<le> n \<Longrightarrow> k < n \<Longrightarrow> apply_writes (log_writes s bl v m) d (bl ! k) = d (bl ! k)"
  by (rule apply_writes_other) (auto simp: log_writes_def, metis log_area_next order_less_le_trans)

lemma home_writes_log:
  "log_wf s bl n \<Longrightarrow> m \<le> n \<Longrightarrow> k \<le> LOGSIZE \<Longrightarrow> apply_writes (home_writes s bl v m) d (s + of_nat k) = d (s + of_nat k)"
  by (rule apply_writes_other) (auto simp: home_writes_def, metis log_area order_less_le_trans)

lemma home_writes_log_next:
  "log_wf s bl n \<Longrightarrow> m \<le> n \<Longrightarrow> k < n \<Longrightarrow> apply_writes (home_writes s bl v m) d (s + of_nat k + 1) = d (s + of_nat k + 1)"
  using home_writes_log [of s bl n m "Suc k"] by (simp add: log_wf_def add.assoc add.commute [of 1])

lemma write_head_ok:
  assumes ok: "bcache_ok st" and pid: "mypid st = Done pid" and dev: "lg_dev (ks_log st) = ROOTDEV" and own: "owner st = (\<lambda>_. None)"
    and r: "\<And>c. Suc (refs st c) < 2 ^ 32" and room: "pins (refs st) < NBUF" and n: "lg_n (ks_log st) = int n" "n \<le> LOGSIZE"
    and s: "s = lg_start (ks_log st)" and h: "h = head_bytes n (lg_block (ks_log st)) (view st s)"
  shows "\<exists>st'. write_head st = Done st' \<and> gets st st' ((view st)(s := h)) (refs st) (owner st) [(s, h)]"
proof -
  obtain i st1 where st1: "bread ROOTDEV s st = Done (i, st1)" "buf_data i st1 = view st s" "ks_log st1 = ks_log st"
    and w: "\<And>d. length d = BSIZE \<Longrightarrow> \<exists>st'. obind (bwrite i (set_data i d st1)) (brelse i) = Done st' \<and>
      gets st st' ((view st)(s := d)) (refs st) (owner st) [(s, d)]"
    by (rule overwrite_ok [OF ok pid, of s]) (use own r room in simp_all)
  have "ofold (\<lambda>i d. obind (log_block i st1) (\<lambda>bno. Done (put32 (4 + 4 * i) bno d))) [0..<n] d =
      ofold (\<lambda>i d. Done (put32 (4 + 4 * i) (lg_block (ks_log st) ! i) d)) [0..<n] d" for d
    by (rule ofold_cong) (use n(2) st1(3) in \<open>auto simp: log_block_def\<close>)
  then have "ofold (\<lambda>i d. obind (log_block i st1) (\<lambda>bno. Done (put32 (4 + 4 * i) bno d))) [0..<n] (put32 0 (of_nat n) (view st s)) = Done h"
    by (simp add: ofold_Done h head_bytes_def)
  moreover have "length h = BSIZE" unfolding h by (rule head_bytes_ok [OF view_length [OF ok] n(2)])
  ultimately show ?thesis using w [of h] st1 dev n(1) s by (auto simp: write_head_def)
qed

lemma quiet_upd_log: "quiet st st' \<Longrightarrow> quiet (upd_log f st) (upd_log f st')"
proof -
  assume "quiet st st'"
  then obtain bs dk ps where s: "st' = st\<lparr>ks_bufs := bs, ks_disk := dk,
       ks_sys := (ks_sys st)\<lparr>sy_pt := (kpt st)\<lparr>pt_procs := ps\<rparr>\<rparr>\<rparr>" "length ps = length (pt_procs (kpt st))"
    and p: "\<And>i. ps ! i = (the_proc (kpt st) i)\<lparr>p_state := p_state (ps ! i)\<rparr>"
    unfolding quiet_def by blast
  have "upd_log f st' = (upd_log f st)\<lparr>ks_bufs := bs, ks_disk := dk,
      ks_sys := (ks_sys (upd_log f st))\<lparr>sy_pt := (kpt (upd_log f st))\<lparr>pt_procs := ps\<rparr>\<rparr>\<rparr>"
    unfolding upd_log_def s(1) by (rule kst.equality) simp_all
  then show ?thesis unfolding quiet_def using s(2) p by auto
qed

lemma read_block_list:
  assumes "length bl = LOGSIZE" and "m \<le> LOGSIZE"
  shows "ofold (\<lambda>i st. if i < LOGSIZE then Done (upd_log (\<lambda>l. l\<lparr>lg_block := (lg_block l)[i := f i]\<rparr>) st) else Fault) [0..<m]
      (upd_log (\<lambda>l. l\<lparr>lg_n := n, lg_block := bl\<rparr>) st) =
    Done (upd_log (\<lambda>l. l\<lparr>lg_n := n, lg_block := map f [0..<m] @ drop m bl\<rparr>) st)"
  using assms(2)
proof (induction m)
  case (Suc m)
  have "drop m bl = bl ! m # drop (Suc m) bl" using Suc.prems assms(1) by (simp add: Cons_nth_drop_Suc)
  then show ?case using Suc by (simp add: ofold_append upd_log_def list_update_append)
qed simp

lemma read_head_ok:
  assumes ok: "bcache_ok st" and pid: "mypid st = Done pid" and dev: "lg_dev (ks_log st) = ROOTDEV" and own: "owner st = (\<lambda>_. None)"
    and r: "\<And>c. Suc (refs st c) < 2 ^ 32" and room: "pins (refs st) < NBUF" and s: "s = lg_start (ks_log st)"
    and n: "head_n (view st s) = int n" "n \<le> LOGSIZE" and bl: "length (lg_block (ks_log st)) = LOGSIZE"
    and clean: "view st s = dk_blocks (ks_disk st) s"
  shows "\<exists>st'. read_head st = Done st' \<and> gets (upd_log (\<lambda>l. l\<lparr>lg_n := int n,
      lg_block := map (\<lambda>i. head_block i (view st s)) [0..<n] @ drop n (lg_block (ks_log st))\<rparr>) st) st' (view st) (refs st) (owner st) []"
proof -
  obtain i st1 where st1: "bread ROOTDEV s st = Done (i, st1)" "cached (ks_bufs st1) s i" "ks_disk st1 = ks_disk st"
    and bc1: "becomes st st1 (view st) ((refs st)(s := Suc (refs st s))) ((owner st)(s := Some pid))"
    by (rule bread_ok [OF ok pid]) (use own r room in simp_all)
  note b1 = becomesD [OF bc1]
  let ?f = "\<lambda>l. l\<lparr>lg_n := int n, lg_block := map (\<lambda>i. head_block i (view st s)) [0..<n] @ drop n (lg_block (ks_log st))\<rparr>"
  have d: "buf_data i st1 = view st s" using cached_simps(1) [OF b1(1) st1(2)] b1(3) by (simp add: buf_data_def)
  have l1: "ks_log st1 = ks_log st" by (rule quietD(1) [OF b1(2)])
  have id: "upd_log (\<lambda>l. l\<lparr>lg_n := int n\<rparr>) st1 = upd_log (\<lambda>l. l\<lparr>lg_n := int n, lg_block := lg_block (ks_log st)\<rparr>) st1"
    by (simp add: upd_log_def l1)
  have c2: "cached (ks_bufs (upd_log ?f st1)) s i" using st1(2) by simp
  obtain st2 where st2: "brelse i (upd_log ?f st1) = Done st2" "ks_disk st2 = ks_disk (upd_log ?f st1)"
    and bc2: "becomes (upd_log ?f st1) st2 (view (upd_log ?f st1)) ((refs (upd_log ?f st1))(s := refs (upd_log ?f st1) s - 1))
      ((owner (upd_log ?f st1))(s := None))"
    by (rule brelse_ok [OF _ c2, of pid]) (use b1 pid clean st1(3) in auto)
  note b2 = becomesD [OF bc2]
  have "read_head st = Done st2"
    using st1(1) st2(1) read_block_list [OF bl n(2), of "\<lambda>i. head_block i (view st s)" "int n" st1] dev s [symmetric] n(1)
    by (simp add: read_head_def d id)
  moreover have "quiet (upd_log ?f st) st2" using quiet_upd_log [OF b1(2)] b2(2) quiet_trans by blast
  then have "gets (upd_log ?f st) st2 (view st) (refs st) (owner st) []"
    unfolding gets_def using b1 b2 st1(3) st2(2) own by (auto simp: fun_eq_iff)
  ultimately show ?thesis by blast
qed

section \<open>Writing and installing the log\<close>

text \<open>The common situation: the caller is a process, no block is locked and a buffer is free.\<close>

definition calm :: "kst \<Rightarrow> u32 \<Rightarrow> bool" where
  "calm st pid \<longleftrightarrow> bcache_ok st \<and> mypid st = Done pid \<and> lg_dev (ks_log st) = ROOTDEV \<and> owner st = (\<lambda>_. None) \<and>
     (\<forall>c. Suc (refs st c) < 2 ^ 32) \<and> pins (refs st) < NBUF"

lemma calmD:
  assumes "calm st pid"
  shows "bcache_ok st" "mypid st = Done pid" "lg_dev (ks_log st) = ROOTDEV" "owner st = (\<lambda>_. None)"
    "Suc (refs st c) < 2 ^ 32" "pins (refs st) < NBUF"
  using assms by (simp_all add: calm_def)

lemma calm_gets:
  assumes "calm st pid" and "gets st st' v r (owner st) ws" and "\<And>c. r c \<le> refs st c"
  shows "calm st' pid"
proof -
  note g = getsD [OF assms(2)] and c = calmD [OF assms(1)]
  have "pins (refs st') \<le> pins (refs st)" unfolding g(4) by (rule pins_mono [OF finite_referenced [OF c(1)] assms(3)])
  moreover have "Suc (refs st' d) < 2 ^ 32" for d using assms(3) [of d] c(5) [of d] g(4) by simp
  ultimately show ?thesis using g c by (simp add: calm_def)
qed

lemma write_log_prefix:
  assumes calm: "calm st pid" and wf: "log_wf (lg_start (ks_log st)) (lg_block (ks_log st)) n" and r: "\<And>k. k < n \<Longrightarrow> 0 < refs st (lg_block (ks_log st) ! k)"
    and s: "s = lg_start (ks_log st)" and bl: "bl = lg_block (ks_log st)"
  shows "m \<le> n \<Longrightarrow> \<exists>st'. ofold write1 [0..<m] st = Done st' \<and>
    gets st st' (apply_writes (log_writes s bl (view st) m) (view st)) (refs st) (owner st) (log_writes s bl (view st) m)"
proof (induction m)
  case 0
  then show ?case using gets_refl [OF calmD(1) [OF calm]] by (simp add: log_writes_def)
next
  case (Suc m)
  then obtain st1 where st1: "ofold write1 [0..<m] st = Done st1"
    and g: "gets st st1 (apply_writes (log_writes s bl (view st) m) (view st)) (refs st) (owner st) (log_writes s bl (view st) m)" by auto
  note g1 = getsD [OF g]
  have c: "calm st1 pid" by (rule calm_gets [OF calm g]) simp
  note c1 = calmD [OF c]
  have wf': "log_wf s bl n" and mn: "m < n" using wf s bl Suc.prems by simp_all
  have v: "view st1 (bl ! m) = view st (bl ! m)" unfolding g1(3) by (rule log_writes_home [OF wf' _ mn]) (use mn in simp)
  have "\<exists>st'. write1 m st1 = Done st' \<and> gets st1 st' ((view st1)(s + of_nat m + 1 := view st1 (bl ! m))) (refs st1) (owner st1)
      [(s + of_nat m + 1, view st1 (bl ! m))]"
    by (rule write1_ok [OF _ _ c1(1-3) _ c1(4)])
      (use g1 c1 s bl r mn log_area_next [OF wf' mn mn] wf' in \<open>auto simp: log_wf_def\<close>)
  then obtain st2 where st2: "write1 m st1 = Done st2" and g2: "gets st1 st2 ((view st1)(s + of_nat m + 1 := view st (bl ! m))) (refs st1) (owner st1)
      [(s + of_nat m + 1, view st (bl ! m))]" using v by auto
  have "gets st st2 (apply_writes (log_writes s bl (view st) (Suc m)) (view st)) (refs st) (owner st) (log_writes s bl (view st) (Suc m))"
    using gets_trans [OF g g2] g1(3-5) by (simp add: log_writes_def)
  then show ?case using st1 st2 by (auto simp: ofold_append)
qed

lemma install_prefix:
  assumes calm: "calm st pid" and wf: "log_wf (lg_start (ks_log st)) (lg_block (ks_log st)) n"
    and r: "\<And>k. \<not> recovering \<Longrightarrow> k < n \<Longrightarrow> 0 < refs st (lg_block (ks_log st) ! k)" and rec: "recovering \<Longrightarrow> Suc (pins (refs st)) < NBUF"
    and s: "s = lg_start (ks_log st)" and bl: "bl = lg_block (ks_log st)"
    and clean: "\<And>k. k < n \<Longrightarrow> view st (s + of_nat k + 1) = dk_blocks (ks_disk st) (s + of_nat k + 1)"
  shows "m \<le> n \<Longrightarrow> \<exists>st'. ofold (install1 recovering) [0..<m] st = Done st' \<and>
    gets st st' (apply_writes (home_writes s bl (view st) m) (view st))
      (\<lambda>c. refs st c - (if \<not> recovering \<and> c \<in> set (take m bl) then 1 else 0)) (owner st) (home_writes s bl (view st) m)"
proof (induction m)
  case 0
  then show ?case using gets_refl [OF calmD(1) [OF calm]] by (simp add: home_writes_def)
next
  case (Suc m)
  let ?r = "\<lambda>m c. refs st c - (if \<not> recovering \<and> c \<in> set (take m bl) then 1 else 0)"
  from Suc obtain st1 where st1: "ofold (install1 recovering) [0..<m] st = Done st1"
    and g: "gets st st1 (apply_writes (home_writes s bl (view st) m) (view st)) (?r m) (owner st) (home_writes s bl (view st) m)" by auto
  note g1 = getsD [OF g]
  have c: "calm st1 pid" by (rule calm_gets [OF calm g]) simp
  note c1 = calmD [OF c]
  have wf': "log_wf s bl n" and mn: "m < n" using wf s bl Suc.prems by simp_all
  have v: "view st1 (s + of_nat m + 1) = view st (s + of_nat m + 1)" and d: "dk_blocks (ks_disk st1) (s + of_nat m + 1) = view st (s + of_nat m + 1)"
    using home_writes_log_next [OF wf' _ mn] mn clean by (simp_all add: g1(3,6))
  have mb: "m < length bl" using wf' mn by (simp add: log_wf_def)
  have notin: "bl ! m \<notin> set (take m bl)"
    using wf' mn mb nth_eq_iff_index_eq [of "take n bl"] by (auto simp: log_wf_def in_set_conv_nth)
  have "Suc (pins (refs st1)) < NBUF" if recovering using rec [OF that] that by (simp add: g1(4))
  then have room: "0 < refs st1 (bl ! m) \<or> Suc (pins (refs st1)) < NBUF" using r [OF _ mn] notin g1(4) bl by (cases recovering) auto
  have "\<exists>st'. install1 recovering m st1 = Done st' \<and> gets st1 st' ((view st1)(bl ! m := view st1 (s + of_nat m + 1)))
      ((refs st1)(bl ! m := refs st1 (bl ! m) - (if recovering then 0 else 1))) (owner st1) [(bl ! m, view st1 (s + of_nat m + 1))]"
    by (rule install1_ok [OF _ _ c1(1-3) _ c1(4)])
      (use g1 c1 s bl r mn notin room log_area_next [OF wf' mn mn] wf' v d in \<open>auto simp: log_wf_def\<close>)
  then obtain st2 where st2: "install1 recovering m st1 = Done st2" and g2: "gets st1 st2 ((view st1)(bl ! m := view st (s + of_nat m + 1)))
      ((refs st1)(bl ! m := refs st1 (bl ! m) - (if recovering then 0 else 1))) (owner st1) [(bl ! m, view st (s + of_nat m + 1))]" using v by auto
  have rr: "(refs st1)(bl ! m := refs st1 (bl ! m) - (if recovering then 0 else 1)) = ?r (Suc m)"
    using notin mb by (auto simp: g1(4) fun_eq_iff take_Suc_conv_app_nth)
  have "gets st st2 (apply_writes (home_writes s bl (view st) (Suc m)) (view st)) (?r (Suc m)) (owner st) (home_writes s bl (view st) (Suc m))"
    using gets_trans [OF g g2 [unfolded rr]] g1(3,5) by (simp add: home_writes_def)
  then show ?case using st1 st2 by (auto simp: ofold_append)
qed

section \<open>What a crash leaves\<close>

text \<open>
  The contents of the disk as the next boot will see them: the committed log, if there is one,
  is installed. Blocks of the log itself do not matter.
\<close>

definition head_list :: "u8 list \<Rightarrow> u32 list" where
  "head_list h = map (\<lambda>i. head_block i h) [0..<nat (head_n h)]"

definition logical :: "u32 \<Rightarrow> (u32 \<Rightarrow> u8 list) \<Rightarrow> u32 \<Rightarrow> u8 list" where
  "logical s d = apply_writes (home_writes s (head_list (d s)) d (nat (head_n (d s)))) d"

definition same_data :: "u32 \<Rightarrow> (u32 \<Rightarrow> u8 list) \<Rightarrow> (u32 \<Rightarrow> u8 list) \<Rightarrow> bool" where
  "same_data s d d' \<longleftrightarrow> (\<forall>b. LOGSIZE < unat (b - s) \<longrightarrow> d b = d' b)"

lemma same_data_refl [simp]: "same_data s d d"
  and same_data_sym: "same_data s d d' \<Longrightarrow> same_data s d' d"
  and same_data_trans: "same_data s d d' \<Longrightarrow> same_data s d' d'' \<Longrightarrow> same_data s d d''"
  by (simp_all add: same_data_def)

lemma logical_empty: "head_n (d s) = 0 \<Longrightarrow> logical s d = d"
  by (simp add: logical_def home_writes_def)

text \<open>Writes to the log area do not change the data.\<close>

lemma log_slot_area: "k \<le> LOGSIZE \<Longrightarrow> unat ((s :: u32) + of_nat k - s) \<le> LOGSIZE"
  by (simp add: unat_of_nat)

lemma log_writes_same: "n \<le> LOGSIZE \<Longrightarrow> same_data s (apply_writes (take m (log_writes s bl v n)) d) d"
  unfolding same_data_def
proof (intro allI impI apply_writes_other)
  fix b assume n: "n \<le> LOGSIZE" and b: "LOGSIZE < unat (b - s)"
  show "b \<notin> fst ` set (take m (log_writes s bl v n))"
  proof
    assume "b \<in> fst ` set (take m (log_writes s bl v n))"
    then obtain k where "b = s + of_nat k + 1" "k < n" by (auto simp: log_writes_def dest!: in_set_takeD)
    then have "b = s + of_nat (Suc k)" "Suc k \<le> LOGSIZE" using n by (simp_all add: add.commute add.left_commute)
    then show False using b log_slot_area [of "Suc k" s] by simp
  qed
qed

text \<open>The content of home block \<open>b\<close> once the log is installed.\<close>

lemma home_writes_data:
  assumes "log_wf s bl n"
  shows "apply_writes (home_writes s bl v n) d b = (case find (\<lambda>k. bl ! k = b) [0..<n] of None \<Rightarrow> d b | Some k \<Rightarrow> v (s + of_nat k + 1))"
proof (cases "find (\<lambda>k. bl ! k = b) [0..<n]")
  case None
  then have "b \<notin> fst ` set (home_writes s bl v n)" by (auto simp: home_writes_def find_None_iff)
  then show ?thesis using None by (simp add: apply_writes_other)
next
  case (Some k)
  then have k: "k < n" "bl ! k = b" using find_upt_Some by force+
  have "map fst (home_writes s bl v n) = take n bl"
    using assms by (intro nth_equalityI) (auto simp: home_writes_def log_wf_def)
  then have "distinct (map fst (home_writes s bl v n))" using assms by (simp add: log_wf_def)
  then have "apply_writes (home_writes s bl v n) d (fst (home_writes s bl v n ! k)) = snd (home_writes s bl v n ! k)"
    using k(1) by (intro apply_writes_nth) (simp_all add: home_writes_def)
  then show ?thesis using k Some by (simp add: home_writes_def)
qed

text \<open>
  Once the header of a log is on the disk, its data are those of the log, however much of it
  has been installed already.
\<close>

lemma logical_installing:
  assumes wf: "log_wf s bl n" and h: "head_n (d s) = int n" "\<And>i. i < n \<Longrightarrow> head_block i (d s) = bl ! i"
    and w: "\<And>k. k < n \<Longrightarrow> v (s + of_nat k + 1) = d (s + of_nat k + 1)"
  shows "same_data s (logical s (apply_writes (take m (home_writes s bl v n)) d)) (apply_writes (home_writes s bl v n) d)"
proof -
  define e where "e = apply_writes (take m (home_writes s bl v n)) d"
  have t: "take m (home_writes s bl v n) = home_writes s bl v (min m n)"
    by (cases "m \<le> n") (simp_all add: home_writes_def take_map)
  have es: "e s = d s" using home_writes_log [OF wf, of "min m n" 0] by (simp add: e_def t)
  have ek: "e (s + of_nat k + 1) = v (s + of_nat k + 1)" if "k < n" for k
    using home_writes_log_next [OF wf _ that, of "min m n"] w [OF that] by (simp add: e_def t)
  have "home_writes s (head_list (e s)) e (nat (head_n (e s))) = home_writes s bl v n"
    using h ek by (simp add: home_writes_def head_list_def es)
  then have "logical s e = apply_writes (home_writes s bl v n) e" by (simp add: logical_def)
  moreover have "apply_writes (home_writes s bl v n) e b = apply_writes (home_writes s bl v n) d b" for b
  proof (cases "find (\<lambda>k. bl ! k = b) [0..<n]")
    case None
    then have "\<forall>k<n. bl ! k \<noteq> b" by (simp add: find_None_iff)
    then have "b \<notin> fst ` set (take m (home_writes s bl v n))" by (auto simp: home_writes_def dest!: in_set_takeD; blast)
    then have "e b = d b" by (simp add: e_def apply_writes_other)
    then show ?thesis using None by (simp add: home_writes_data [OF wf])
  next
    case (Some k)
    then show ?thesis by (simp add: home_writes_data [OF wf])
  qed
  ultimately show ?thesis by (simp add: same_data_def e_def)
qed

text \<open>A disk from which recovery works.\<close>

definition log_disk_ok :: "u32 \<Rightarrow> (u32 \<Rightarrow> u8 list) \<Rightarrow> bool" where
  "log_disk_ok s d \<longleftrightarrow> 0 \<le> head_n (d s) \<and> head_n (d s) \<le> int LOGSIZE \<and> distinct (head_list (d s)) \<and>
     (\<forall>b\<in>set (head_list (d s)). LOGSIZE < unat (b - s)) \<and> (\<forall>b. length (d b) = BSIZE)"

lemma apply_writes_length:
  "(\<And>b. length (d b) = BSIZE) \<Longrightarrow> (\<And>b v. (b, v) \<in> set ws \<Longrightarrow> length v = BSIZE) \<Longrightarrow> length (apply_writes ws d b) = BSIZE"
proof (induction ws arbitrary: d)
  case (Cons w ws)
  obtain c v where w: "w = (c, v)" by force
  have "length ((d(c := v)) b') = BSIZE" for b' using Cons.prems(1) Cons.prems(2) [of c v] w by simp
  then have "length (apply_writes ws (d(c := v)) b) = BSIZE" by (rule Cons.IH) (use Cons.prems(2) in auto)
  then show ?case using w by simp
qed simp

lemma log_disk_empty: "head_n (d s) = 0 \<Longrightarrow> (\<And>b. length (d b) = BSIZE) \<Longrightarrow> log_disk_ok s d"
  by (simp add: log_disk_ok_def head_list_def)

lemma log_disk_full:
  assumes "log_wf s bl n" and "head_n (d s) = int n" and "\<And>i. i < n \<Longrightarrow> head_block i (d s) = bl ! i" and "\<And>b. length (d b) = BSIZE"
  shows "log_disk_ok s d"
proof -
  have "head_list (d s) = take n bl"
    using assms(1-3) by (intro nth_equalityI) (simp_all add: head_list_def log_wf_def)
  moreover have "\<forall>b\<in>set (take n bl). LOGSIZE < unat (b - s)" using assms(1) by (auto simp: log_wf_def in_set_conv_nth)
  ultimately show ?thesis using assms by (simp add: log_disk_ok_def log_wf_def)
qed

lemma log_writes_at:
  assumes "n \<le> LOGSIZE"
  shows "apply_writes (take m (log_writes s bl v n)) d s = d s"
    and "k < n \<Longrightarrow> apply_writes (log_writes s bl v n) d (s + of_nat k + 1) = v (bl ! k)"
proof -
  have slot: "s + of_nat j + 1 = s + of_nat (Suc j)" for j by (simp add: add.commute add.left_commute)
  have "s + of_nat j + 1 \<noteq> s" if "j < n" for j unfolding slot using log_area_inj [of 0 "Suc j" s] that assms by (simp del: of_nat_Suc)
  then show "apply_writes (take m (log_writes s bl v n)) d s = d s"
    by (intro apply_writes_other) (force simp: log_writes_def dest!: in_set_takeD)
  assume k: "k < n"
  have "s + of_nat i + 1 \<noteq> s + of_nat j + 1" if "i < j" "j < n" for i j
    unfolding slot by (rule log_area_inj) (use that assms in simp_all)
  then have "distinct (map fst (log_writes s bl v n))"
    unfolding distinct_conv_nth by (auto simp: log_writes_def) (metis linorder_neqE_nat)
  then have "apply_writes (log_writes s bl v n) d (fst (log_writes s bl v n ! k)) = snd (log_writes s bl v n ! k)"
    using k by (intro apply_writes_nth) (simp_all add: log_writes_def)
  then show "apply_writes (log_writes s bl v n) d (s + of_nat k + 1) = v (bl ! k)" using k by (simp add: log_writes_def)
qed

text \<open>Every prefix of the writes of a transaction leaves either all of the old data or all of the new.\<close>

lemma transaction_prefix:
  assumes wf: "log_wf s bl n" and d: "head_n (d s) = 0" "\<And>b. length (d b) = BSIZE" and v: "\<And>b. length (v b) = BSIZE"
    and clean: "\<And>b. b \<notin> set (take n bl) \<Longrightarrow> v b = d b"
    and h1: "head_n h1 = int n" "\<And>i. i < n \<Longrightarrow> head_block i h1 = bl ! i" "length h1 = BSIZE"
    and h2: "head_n h2 = 0" "length h2 = BSIZE" and v2: "\<And>k. k < n \<Longrightarrow> v2 (s + of_nat k + 1) = v (bl ! k)"
    and ws: "ws = log_writes s bl v n @ [(s, h1)] @ home_writes s bl v2 n @ [(s, h2)]"
  shows "log_disk_ok s (apply_writes (take k ws) d) \<and>
    same_data s (logical s (apply_writes (take k ws) d)) (if k \<le> n then d else v)"
proof -
  have n: "n \<le> LOGSIZE" using wf by (simp add: log_wf_def)
  have len: "length (apply_writes (take k ws) d b) = BSIZE" for k b
    by (rule apply_writes_length [OF d(2)])
      (use v v2 h1(3) h2(2) in \<open>auto simp: ws log_writes_def home_writes_def dest!: in_set_takeD\<close>)
  define e where "e = apply_writes (log_writes s bl v n @ [(s, h1)]) d"
  have es: "e s = h1" by (simp add: e_def)
  have ek: "v2 (s + of_nat k + 1) = e (s + of_nat k + 1)" if "k < n" for k
  proof -
    have "s + of_nat k + 1 \<noteq> s" using log_area_inj [of 0 "Suc k" s] that n by (simp add: add.commute add.left_commute del: of_nat_Suc) (simp add: add.commute)
    then show ?thesis using log_writes_at(2) [OF n that] v2 [OF that] by (simp add: e_def)
  qed
  have new: "same_data s (apply_writes (home_writes s bl v2 n) e) v"
    unfolding same_data_def
  proof (intro allI impI)
    fix b assume b: "LOGSIZE < unat (b - s)"
    then have "b \<noteq> s" by auto
    then have eb: "e b = d b" using log_writes_same [OF n, of s n bl v d] b by (simp add: e_def same_data_def log_writes_def)
    show "apply_writes (home_writes s bl v2 n) e b = v b"
    proof (cases "find (\<lambda>k. bl ! k = b) [0..<n]")
      case None
      then have "b \<notin> set (take n bl)" by (auto simp: find_None_iff in_set_conv_nth)
      then show ?thesis using None clean eb by (simp add: home_writes_data [OF wf])
    next
      case (Some k)
      then show ?thesis using find_upt_Some [OF Some] v2 by (auto simp: home_writes_data [OF wf])
    qed
  qed
  consider "k \<le> n" | m where "k = Suc n + m" "m \<le> n" | "Suc n + n < k"
    by (metis add.commute le_add_diff_inverse not_less not_less_eq_eq nat_add_left_cancel_le)
  then show ?thesis
  proof cases
    case 1
    then have t: "take k ws = take k (log_writes s bl v n)" by (simp add: ws log_writes_def)
    have "head_n (apply_writes (take k ws) d s) = 0" unfolding t using log_writes_at(1) [OF n] d(1) by simp
    then have "log_disk_ok s (apply_writes (take k ws) d)" "logical s (apply_writes (take k ws) d) = apply_writes (take k ws) d"
      by (rule log_disk_empty [OF _ len], intro logical_empty)
    then show ?thesis using 1 log_writes_same [OF n] t by simp
  next
    case (2 m)
    then have t: "apply_writes (take k ws) d = apply_writes (take m (home_writes s bl v2 n)) e"
      by (simp add: ws e_def log_writes_def home_writes_def)
    have at: "apply_writes (take m (home_writes s bl v2 n)) e s = h1"
      using home_writes_log [OF wf, of "min m n" 0] es 2(2) by (simp add: home_writes_def take_map)
    have "log_disk_ok s (apply_writes (take k ws) d)" by (rule log_disk_full [OF wf]) (simp_all add: t at h1 len [of k, unfolded t])
    moreover have "same_data s (logical s (apply_writes (take k ws) d)) (apply_writes (home_writes s bl v2 n) e)"
      unfolding t by (rule logical_installing [OF wf]) (use es h1 ek in simp_all)
    ultimately show ?thesis using new same_data_trans 2(1) by fastforce
  next
    case 3
    then have t: "apply_writes (take k ws) d = (apply_writes (home_writes s bl v2 n) e)(s := h2)"
      by (simp add: ws e_def log_writes_def home_writes_def)
    have "same_data s ((apply_writes (home_writes s bl v2 n) e)(s := h2)) v" using new by (auto simp: same_data_def)
    then show ?thesis using 3 h2 len [of k] by (simp add: t logical_empty log_disk_empty)
  qed
qed

lemma calm_upd_log: "calm st pid \<Longrightarrow> lg_dev (f (ks_log st)) = ROOTDEV \<Longrightarrow> calm (upd_log f st) pid"
  by (simp add: calm_def)

lemma calm_write_head:
  assumes "calm st pid" and "lg_n (ks_log st) = int n" and "n \<le> LOGSIZE"
  obtains st' h where "write_head st = Done st'" and "h = head_bytes n (lg_block (ks_log st)) (view st (lg_start (ks_log st)))"
    and "gets st st' ((view st)(lg_start (ks_log st) := h)) (refs st) (owner st) [(lg_start (ks_log st), h)]" and "calm st' pid"
proof -
  note c = calmD [OF assms(1)]
  obtain st' where st': "write_head st = Done st'" and g: "gets st st' ((view st)(lg_start (ks_log st) :=
      head_bytes n (lg_block (ks_log st)) (view st (lg_start (ks_log st))))) (refs st) (owner st)
      [(lg_start (ks_log st), head_bytes n (lg_block (ks_log st)) (view st (lg_start (ks_log st))))]"
    using write_head_ok [OF c(1-4) c(5,6) assms(2,3)] by blast
  have "calm st' pid" by (rule calm_gets [OF assms(1) g]) simp
  then show ?thesis using that st' g by blast
qed

text \<open>A transaction that is about to commit.\<close>

definition txn_ok :: "kst \<Rightarrow> u32 \<Rightarrow> nat \<Rightarrow> bool" where
  "txn_ok st pid n \<longleftrightarrow> calm st pid \<and> lg_n (ks_log st) = int n \<and> log_wf (lg_start (ks_log st)) (lg_block (ks_log st)) n \<and>
     (\<forall>k<n. 0 < refs st (lg_block (ks_log st) ! k)) \<and>
     (\<forall>b. b \<notin> set (take n (lg_block (ks_log st))) \<longrightarrow> view st b = dk_blocks (ks_disk st) b) \<and>
     head_n (dk_blocks (ks_disk st) (lg_start (ks_log st))) = 0"

lemma commit_ok:
  assumes txn: "txn_ok st pid n" and n0: "0 < n" and s: "s = lg_start (ks_log st)" and bl: "bl = lg_block (ks_log st)"
  obtains st' h1 h2 v2 where "commit st = Done st'"
    and "ks_disk st' = put_disk (log_writes s bl (view st) n @ [(s, h1)] @ home_writes s bl v2 n @ [(s, h2)]) (ks_disk st)"
    and "head_n h1 = int n" and "\<And>i. i < n \<Longrightarrow> head_block i h1 = bl ! i" and "length h1 = BSIZE"
    and "head_n h2 = 0" and "length h2 = BSIZE" and "\<And>k. k < n \<Longrightarrow> v2 (s + of_nat k + 1) = view st (bl ! k)"
    and "refs st' = (\<lambda>c. refs st c - (if c \<in> set (take n bl) then 1 else 0))" and "calm st' pid"
    and "lg_n (ks_log st') = 0" and "view st' = dk_blocks (ks_disk st')"
proof -
  have calm: "calm st pid" and ln: "lg_n (ks_log st) = int n" and wf: "log_wf s bl n" and r: "\<And>k. k < n \<Longrightarrow> 0 < refs st (bl ! k)"
    and clean: "\<And>b. b \<notin> set (take n bl) \<Longrightarrow> view st b = dk_blocks (ks_disk st) b"
    using txn unfolding txn_ok_def s bl by blast+
  have n: "n \<le> LOGSIZE" using wf by (simp add: log_wf_def)
  obtain st1 where st1: "ofold write1 [0..<n] st = Done st1" and g1: "gets st st1 (apply_writes (log_writes s bl (view st) n) (view st)) (refs st) (owner st) (log_writes s bl (view st) n)"
    using write_log_prefix [OF calm wf [unfolded s bl] r [unfolded bl] s bl, of n] by auto
  have c1: "calm st1 pid" by (rule calm_gets [OF calm g1]) simp
  note e1 = getsD [OF g1]
  obtain st2 h1 where st2: "write_head st1 = Done st2" and h1: "h1 = head_bytes n bl (view st1 s)"
    and g2: "gets st1 st2 ((view st1)(s := h1)) (refs st1) (owner st1) [(s, h1)]" and c2: "calm st2 pid"
    by (rule calm_write_head [OF c1, of n]) (use e1(8) ln n s bl in auto)
  note e2 = getsD [OF g2]
  have h1': "head_n h1 = int n" "\<And>i. i < n \<Longrightarrow> head_block i h1 = bl ! i" "length h1 = BSIZE"
    unfolding h1 using head_bytes_ok [OF view_length [OF e1(1)] n] by simp_all
  have s1: "s + of_nat k + 1 \<noteq> s" if "k < n" for k
    using log_area_inj [of 0 "Suc k" s] that n by (simp add: add.commute add.left_commute del: of_nat_Suc) (simp add: add.commute)
  have v2: "view st2 (s + of_nat k + 1) = view st (bl ! k)" "dk_blocks (ks_disk st2) (s + of_nat k + 1) = view st (bl ! k)" if "k < n" for k
    using log_writes_at(2) [OF n that] s1 [OF that] by (simp_all add: e2 e1 disk_put_def)
  have l2: "ks_log st2 = ks_log st" using e1(8) e2(8) by simp
  obtain st3 where st3: "ofold (install1 False) [0..<n] st2 = Done st3"
    and g3: "gets st2 st3 (apply_writes (home_writes s bl (view st2) n) (view st2)) (\<lambda>c. refs st2 c - (if c \<in> set (take n bl) then 1 else 0)) (owner st2)
      (home_writes s bl (view st2) n)"
    using install_prefix [OF c2, of n False s bl n] wf r v2 l2 s bl e1(4) e2(4) by auto
  have c3: "calm st3 pid" by (rule calm_gets [OF c2 g3]) simp
  note e3 = getsD [OF g3]
  let ?st = "upd_log (\<lambda>l. l\<lparr>lg_n := 0\<rparr>) st3"
  have c3': "calm ?st pid" by (rule calm_upd_log [OF c3]) (use calmD(3) [OF c3] in simp)
  obtain st4 h2 where st4: "write_head ?st = Done st4" and h2: "h2 = head_bytes 0 bl (view st3 s)"
    and g4: "gets ?st st4 ((view st3)(s := h2)) (refs st3) (owner st3) [(s, h2)]" and c4: "calm st4 pid"
    by (rule calm_write_head [OF c3', of 0]) (use e3(8) l2 s bl in auto)
  note e4 = getsD [OF g4]
  have h2': "head_n h2 = 0" "length h2 = BSIZE" unfolding h2 using head_bytes_ok [OF view_length [OF e3(1)], of 0] by simp_all
  have disk: "ks_disk st4 = put_disk (log_writes s bl (view st) n @ [(s, h1)] @ home_writes s bl (view st2) n @ [(s, h2)]) (ks_disk st)"
    by (simp add: e1(6) e2(6) e3(6) e4(6))
  have "commit st = Done st4"
    using st1 st2 st3 st4 ln n0 l2 e1(8) by (simp add: commit_def write_log_def install_trans_def)
  moreover have "view st4 b = dk_blocks (ks_disk st4) b" for b
  proof -
    have hw: "fst ` set (home_writes s bl w n) = set (take n bl)" for w
      using wf by (force simp: home_writes_def log_wf_def in_set_conv_nth image_iff)
    have "apply_writes (log_writes s bl (view st) n) (view st) b = apply_writes (log_writes s bl (view st) n) (dk_blocks (ks_disk st)) b"
      if "b \<notin> set (take n bl)"
      by (rule apply_writes_same) (use clean [OF that] in simp)
    then have "apply_writes (home_writes s bl (view st2) n) (view st2) b =
        apply_writes (home_writes s bl (view st2) n) ((apply_writes (log_writes s bl (view st) n) (dk_blocks (ks_disk st)))(s := h1)) b"
      by (intro apply_writes_same) (auto simp: hw e2(3) e1(3))
    then show ?thesis unfolding disk by (simp add: e4(3) e3(3) disk_put_def)
  qed
  ultimately show ?thesis
    using that [OF _ disk h1' h2' v2(1)] e1(4) e2(4) e3(4) e4(4,8) c4 by (auto simp: fun_eq_iff)
qed

section \<open>Recovery\<close>

text \<open>A kernel that has just started: an empty cache, and the process that runs \<open>fsinit\<close>.\<close>

definition booted :: "kst \<Rightarrow> (u32 \<Rightarrow> u8 list) \<Rightarrow> bool" where
  "booted st d \<longleftrightarrow> (\<exists>bs. length bs = Suc NBUF \<and> (\<forall>j<NBUF. unused_buf (bs ! j)) \<and> ks_bufs st = binit bs) \<and>
     dk_blocks (ks_disk st) = d \<and> (\<exists>pid. mypid st = Done pid) \<and> length (lg_block (ks_log st)) = LOGSIZE"

lemma recover_ok:
  assumes boot: "booted st d" and ok: "log_disk_ok (sb_logstart sb) d" and s: "s = sb_logstart sb"
    and n: "n = nat (head_n (d s))"
  obtains st' bl h pid where "initlog ROOTDEV sb st = Done st'" and "log_wf s bl n" and "\<And>i. i < n \<Longrightarrow> head_block i (d s) = bl ! i"
    and "ks_disk st' = put_disk (home_writes s bl d n @ [(s, h)]) (ks_disk st)" and "head_n h = 0" and "length h = BSIZE"
    and "calm st' pid" and "refs st' = (\<lambda>_. 0)" and "lg_n (ks_log st') = 0"
proof -
  obtain bs pid where bs: "length bs = Suc NBUF" "\<forall>j<NBUF. unused_buf (bs ! j)" "ks_bufs st = binit bs" and d: "dk_blocks (ks_disk st) = d"
    and pid: "mypid st = Done pid" and lb: "length (lg_block (ks_log st)) = LOGSIZE"
    using boot unfolding booted_def by blast
  have len: "\<forall>b. length (dk_blocks (ks_disk st) b) = BSIZE" using ok d by (simp add: log_disk_ok_def)
  note b = binit_ok [OF bs len]
  define st0 where "st0 = upd_log (\<lambda>l. l\<lparr>lg_start := s, lg_size := sint (sb_nlog sb), lg_dev := ROOTDEV\<rparr>) st"
  have hn: "head_n (d s) = int n" "n \<le> LOGSIZE" using ok s n by (simp_all add: log_disk_ok_def nat_le_iff)
  have c0: "calm st0 pid" using b pid by (simp add: calm_def st0_def)
  have v0: "view st0 = d" "refs st0 = (\<lambda>_. 0)" "dk_blocks (ks_disk st0) = d" "lg_start (ks_log st0) = s" "lg_block (ks_log st0) = lg_block (ks_log st)"
    "ks_disk st0 = ks_disk st"
    using b d by (simp_all add: st0_def)
  define bl where "bl = map (\<lambda>i. head_block i (d s)) [0..<n] @ drop n (lg_block (ks_log st))"
  have tk: "take n bl = head_list (d s)" using hn by (simp add: bl_def head_list_def)
  have wf: "log_wf s bl n"
    unfolding log_wf_def tk using ok s hn(2) lb by (auto simp: log_disk_ok_def bl_def head_list_def n nth_append)
  let ?st0 = "upd_log (\<lambda>l. l\<lparr>lg_n := int n, lg_block := bl\<rparr>) st0"
  obtain st1 where st1: "read_head st0 = Done st1" and g1: "gets ?st0 st1 (view st0) (refs st0) (owner st0) []"
    using read_head_ok [OF calmD(1-4) [OF c0] calmD(5,6) [OF c0] v0(4) [symmetric], of n] hn v0 lb by (auto simp: bl_def)
  have c0': "calm ?st0 pid" by (rule calm_upd_log [OF c0]) (use calmD(3) [OF c0] in simp)
  have c1: "calm st1 pid" by (rule calm_gets [OF c0']) (use g1 in auto)
  note e1 = getsD [OF g1]
  obtain st2 where st2: "ofold (install1 True) [0..<n] st1 = Done st2"
    and g2: "gets st1 st2 (apply_writes (home_writes s bl (view st1) n) (view st1)) (refs st1) (owner st1) (home_writes s bl (view st1) n)"
  proof -
    have l1: "lg_start (ks_log st1) = s" "lg_block (ks_log st1) = bl" using e1(8) v0(4) by simp_all
    have wf1: "log_wf (lg_start (ks_log st1)) (lg_block (ks_log st1)) n" using wf l1 by simp
    have "\<exists>st'. ofold (install1 True) [0..<n] st1 = Done st' \<and> gets st1 st' (apply_writes (home_writes s bl (view st1) n) (view st1))
        (\<lambda>c. refs st1 c - (if \<not> True \<and> c \<in> set (take n bl) then 1 else 0)) (owner st1) (home_writes s bl (view st1) n)"
      by (rule install_prefix [OF c1 wf1]) (use e1(3,4,6) v0 l1 in simp_all)
    then show thesis using that by auto
  qed
  have c2: "calm st2 pid" by (rule calm_gets [OF c1 g2]) simp
  note e2 = getsD [OF g2]
  let ?st2 = "upd_log (\<lambda>l. l\<lparr>lg_n := 0\<rparr>) st2"
  have c2': "calm ?st2 pid" by (rule calm_upd_log [OF c2]) (use calmD(3) [OF c2] in simp)
  have l2: "ks_log st2 = (ks_log st0)\<lparr>lg_n := int n, lg_block := bl\<rparr>" using e1(8) e2(8) by simp
  obtain st3 h where st3: "write_head ?st2 = Done st3" and h: "h = head_bytes 0 bl (view st2 s)"
    and g3: "gets ?st2 st3 ((view st2)(s := h)) (refs st2) (owner st2) [(s, h)]" and c3: "calm st3 pid"
    by (rule calm_write_head [OF c2', of 0]) (use l2 v0(4) in auto)
  note e3 = getsD [OF g3]
  have "head_n h = 0" "length h = BSIZE" unfolding h using head_bytes_ok [OF view_length [OF e2(1)], of 0] by simp_all
  moreover have "initlog ROOTDEV sb st = Done st3"
    using st1 st2 st3 l2 e1(8) s by (simp add: initlog_def recover_from_log_def install_trans_def st0_def)
  moreover have "ks_disk st3 = put_disk (home_writes s bl d n @ [(s, h)]) (ks_disk st)"
    using e1(3,6) e2(6) e3(6) v0 by simp
  ultimately show ?thesis
    using that [of st3 bl h pid] wf c3 e1(4) e2(4) e3(4,8) v0(2) by (simp add: bl_def nth_append)
qed

lemma recover_data:
  assumes "booted st d" and "log_disk_ok (sb_logstart sb) d"
  shows "\<exists>st'. initlog ROOTDEV sb st = Done st' \<and> same_data (sb_logstart sb) (dk_blocks (ks_disk st')) (logical (sb_logstart sb) d)"
proof -
  let ?s = "sb_logstart sb"
  obtain st' bl h pid where st': "initlog ROOTDEV sb st = Done st'" and bl: "\<And>i. i < nat (head_n (d ?s)) \<Longrightarrow> head_block i (d ?s) = bl ! i"
    and disk: "ks_disk st' = put_disk (home_writes ?s bl d (nat (head_n (d ?s))) @ [(?s, h)]) (ks_disk st)"
    by (rule recover_ok [OF assms refl refl]) blast
  have "home_writes ?s (head_list (d ?s)) d (nat (head_n (d ?s))) = home_writes ?s bl d (nat (head_n (d ?s)))"
    using bl by (simp add: home_writes_def head_list_def)
  moreover have "dk_blocks (ks_disk st) = d" using assms(1) by (simp add: booted_def)
  ultimately have "dk_blocks (ks_disk st') = (logical ?s d)(?s := h)" by (simp add: disk logical_def disk_put_def)
  then show ?thesis using st' by (auto simp: same_data_def)
qed

lemma recovery_prefix:
  assumes wf: "log_wf s bl n" and d: "head_n (d s) = int n" "\<And>i. i < n \<Longrightarrow> head_block i (d s) = bl ! i" "\<And>b. length (d b) = BSIZE"
    and h: "head_n h = 0" "length h = BSIZE" and ws: "ws = home_writes s bl d n @ [(s, h)]"
  shows "log_disk_ok s (apply_writes (take k ws) d) \<and> same_data s (logical s (apply_writes (take k ws) d)) (apply_writes ws d)"
proof -
  have len: "length (apply_writes (take k ws) d b) = BSIZE" for b
    by (rule apply_writes_length [OF d(3)]) (use d(3) h(2) in \<open>auto simp: ws home_writes_def dest!: in_set_takeD\<close>)
  show ?thesis
  proof (cases "k \<le> n")
    case True
    then have t: "take k ws = take k (home_writes s bl d n)" by (simp add: ws home_writes_def)
    have at: "apply_writes (take k ws) d s = d s"
      using home_writes_log [OF wf, of k 0 d d] True by (simp add: t home_writes_def take_map)
    have "log_disk_ok s (apply_writes (take k ws) d)" by (rule log_disk_full [OF wf]) (simp_all add: at d len)
    moreover have "same_data s (logical s (apply_writes (take k ws) d)) (apply_writes (home_writes s bl d n) d)"
      unfolding t by (rule logical_installing [where d = d, OF wf d(1,2)]) simp_all
    moreover have "same_data s (apply_writes (home_writes s bl d n) d) (apply_writes ws d)" by (auto simp: ws same_data_def)
    ultimately show ?thesis using same_data_trans by blast
  next
    case False
    then have t: "take k ws = ws" by (simp add: ws home_writes_def)
    have "head_n (apply_writes ws d s) = 0" by (simp add: ws h)
    then show ?thesis using len log_disk_empty logical_empty unfolding t by fastforce
  qed
qed

section \<open>Inside a transaction\<close>

lemma log_write_ok:
  assumes ok: "bcache_ok st" and c: "cached (ks_bufs st) b i" and r: "0 < refs st b" "Suc (refs st b) < 2 ^ 32"
    and l: "length (lg_block (ks_log st)) = LOGSIZE" "lg_n (ks_log st) = int n" "n < LOGSIZE" "int n < lg_size (ks_log st) - 1"
      "1 \<le> lg_outstanding (ks_log st)"
  shows "b \<in> set (take n (lg_block (ks_log st))) \<Longrightarrow> log_write i st = Done st"
    and "b \<notin> set (take n (lg_block (ks_log st))) \<Longrightarrow> log_write i st =
      Done (bpin i (upd_log (\<lambda>l. l\<lparr>lg_block := (lg_block l)[n := b], lg_n := int n + 1\<rparr>) st))"
proof -
  let ?bl = "lg_block (ks_log st)" and ?f = "find (\<lambda>i. lg_block (ks_log st) ! i = b) [0..<n]"
  have b: "b_blockno (ks_bufs st ! i) = b" using c by (simp add: cached_def)
  show "log_write i st = Done st" if mem: "b \<in> set (take n ?bl)"
  proof -
    obtain k where k: "k < n" "?bl ! k = b" using mem l by (auto simp: in_set_conv_nth)
    then have "?f \<noteq> None" by (auto simp: find_None_iff)
    then obtain j where j: "?f = Some j" by blast
    then have "j < n" "?bl ! j = b" using find_upt_Some [OF j] by auto
    moreover from this have "?bl[j := b] = ?bl" by (metis list_update_id)
    ultimately show ?thesis using l j by (simp add: log_write_def b Let_def upd_log_def)
  qed
  show "log_write i st = Done (bpin i (upd_log (\<lambda>l. l\<lparr>lg_block := (lg_block l)[n := b], lg_n := int n + 1\<rparr>) st))"
    if "b \<notin> set (take n ?bl)"
  proof -
    have "?bl ! k \<noteq> b" if k: "k < n" for k
      using \<open>b \<notin> set (take n ?bl)\<close> nth_mem [of k "take n ?bl"] k l by auto
    then have "?f = None" by (simp add: find_None_iff)
    then show ?thesis using l by (simp add: log_write_def b Let_def upd_log_def bpin_def)
  qed
qed

text \<open>
  A process inside a transaction that may log \<open>m\<close> more blocks and has locked the buffers of the blocks \<open>H\<close>:
  exactly the logged blocks are pinned, all others are as on the disk, and nothing else is referenced.
\<close>

definition in_op :: "kst \<Rightarrow> u32 \<Rightarrow> nat \<Rightarrow> u32 set \<Rightarrow> bool" where
  "in_op st pid m H \<longleftrightarrow> (\<exists>n. lg_n (ks_log st) = int n \<and> bcache_ok st \<and> mypid st = Done pid \<and> lg_dev (ks_log st) = ROOTDEV \<and>
     finite H \<and> owner st = (\<lambda>c. if c \<in> H then Some pid else None) \<and>
     refs st = (\<lambda>c. (if c \<in> set (take n (lg_block (ks_log st))) then 1 else 0) + (if c \<in> H then 1 else 0)) \<and>
     log_wf (lg_start (ks_log st)) (lg_block (ks_log st)) n \<and>
     (\<forall>b. b \<notin> set (take n (lg_block (ks_log st))) \<longrightarrow> view st b = dk_blocks (ks_disk st) b) \<and>
     head_n (dk_blocks (ks_disk st) (lg_start (ks_log st))) = 0 \<and> 1 \<le> lg_outstanding (ks_log st) \<and>
     n + m < LOGSIZE \<and> int (n + m) < lg_size (ks_log st))"

abbreviation in_txn :: "kst \<Rightarrow> u32 \<Rightarrow> nat \<Rightarrow> bool" where
  "in_txn st pid m \<equiv> in_op st pid m {}"

lemma in_opE:
  assumes "in_op st pid m H"
  obtains n where "lg_n (ks_log st) = int n" "bcache_ok st" "mypid st = Done pid" "lg_dev (ks_log st) = ROOTDEV" "finite H"
     "owner st = (\<lambda>c. if c \<in> H then Some pid else None)"
     "refs st = (\<lambda>c. (if c \<in> set (take n (lg_block (ks_log st))) then 1 else 0) + (if c \<in> H then 1 else 0))"
     "log_wf (lg_start (ks_log st)) (lg_block (ks_log st)) n"
     "\<forall>b. b \<notin> set (take n (lg_block (ks_log st))) \<longrightarrow> view st b = dk_blocks (ks_disk st) b"
     "head_n (dk_blocks (ks_disk st) (lg_start (ks_log st))) = 0" "1 \<le> lg_outstanding (ks_log st)"
     "n + m < LOGSIZE" "int (n + m) < lg_size (ks_log st)"
  using assms unfolding in_op_def by blast

lemma log_pins:
  assumes "log_wf s bl n" and "r = (\<lambda>c. (if c \<in> set (take n bl) then 1 else 0) + (if c \<in> H then 1 else 0))" and "finite H"
  shows "pins r \<le> n + card H" and "H = {} \<Longrightarrow> pins r = n"
proof -
  have "{b. 0 < r b} = set (take n bl) \<union> H" using assms(2) by auto
  moreover have "card (set (take n bl)) = n" using assms(1) by (simp add: distinct_card log_wf_def)
  ultimately show "pins r \<le> n + card H" "H = {} \<Longrightarrow> pins r = n" using card_Un_le [of "set (take n bl)" H] by (simp_all add: pins_def)
qed

lemma in_txn_ok:
  assumes "in_txn st pid m"
  shows "txn_ok st pid (nat (lg_n (ks_log st)))"
  using assms
proof (rule in_opE)
  fix n
  assume n: "lg_n (ks_log st) = int n" "bcache_ok st" "mypid st = Done pid" "lg_dev (ks_log st) = ROOTDEV" "finite ({} :: u32 set)"
     "owner st = (\<lambda>c. if c \<in> {} then Some pid else None)"
     "refs st = (\<lambda>c. (if c \<in> set (take n (lg_block (ks_log st))) then 1 else 0) + (if c \<in> {} then 1 else 0))"
     "log_wf (lg_start (ks_log st)) (lg_block (ks_log st)) n"
     "\<forall>b. b \<notin> set (take n (lg_block (ks_log st))) \<longrightarrow> view st b = dk_blocks (ks_disk st) b"
     "head_n (dk_blocks (ks_disk st) (lg_start (ks_log st))) = 0" "n + m < LOGSIZE"
  have "calm st pid" using n log_pins(2) [OF n(8,7)] by (simp add: calm_def)
  moreover have "0 < refs st (lg_block (ks_log st) ! k)" if "k < n" for k
    using n(7,8) nth_mem [of k "take n (lg_block (ks_log st))"] that by (auto simp: log_wf_def)
  ultimately show ?thesis using n by (simp add: txn_ok_def)
qed

text \<open>Like \<open>quiet\<close>, but the log may have grown.\<close>

definition fs_quiet :: "kst \<Rightarrow> kst \<Rightarrow> bool" where
  "fs_quiet st st' \<longleftrightarrow> (\<exists>l. quiet (upd_log (\<lambda>_. l) st) st' \<and> lg_start l = lg_start (ks_log st) \<and>
     lg_size l = lg_size (ks_log st) \<and> lg_outstanding l = lg_outstanding (ks_log st) \<and> lg_committing l = lg_committing (ks_log st) \<and>
     lg_dev l = lg_dev (ks_log st))"

lemma upd_log_upd_log [simp]: "upd_log f (upd_log g st) = upd_log (\<lambda>l. f (g l)) st"
  by (simp add: upd_log_def)

lemma upd_log_same [simp]: "upd_log (\<lambda>_. ks_log st) st = st"
  by (simp add: upd_log_def)

lemma fs_quiet_refl [simp]: "fs_quiet st st"
  unfolding fs_quiet_def by (rule exI [of _ "ks_log st"]) simp

lemma quiet_fs_quiet: "quiet st st' \<Longrightarrow> fs_quiet st st'"
  unfolding fs_quiet_def by (rule exI [of _ "ks_log st"]) simp

lemma fs_quietD:
  assumes "fs_quiet st st'"
  shows "ks_sb st' = ks_sb st" "ks_inodes st' = ks_inodes st" "ks_files st' = ks_files st"
    "ks_pipes st' = ks_pipes st" "ks_cons st' = ks_cons st" "ks_out st' = ks_out st" "ks_reports st' = ks_reports st"
    "pt_kmem (kpt st') = pt_kmem (kpt st)" "sy_proc (ks_sys st') = sy_proc (ks_sys st)" "mypid st' = mypid st"
    "length (pt_procs (kpt st')) = length (pt_procs (kpt st))"
    "the_proc (kpt st') i = (the_proc (kpt st) i)\<lparr>p_state := p_state (the_proc (kpt st') i)\<rparr>"
    "lg_start (ks_log st') = lg_start (ks_log st)"
proof -
  obtain l where l: "quiet (upd_log (\<lambda>_. l) st) st'" "lg_start l = lg_start (ks_log st)" using assms unfolding fs_quiet_def by blast
  note q = quietD [OF l(1)]
  show "ks_sb st' = ks_sb st" "ks_inodes st' = ks_inodes st" "ks_files st' = ks_files st"
    "ks_pipes st' = ks_pipes st" "ks_cons st' = ks_cons st" "ks_out st' = ks_out st" "ks_reports st' = ks_reports st"
    "pt_kmem (kpt st') = pt_kmem (kpt st)" "sy_proc (ks_sys st') = sy_proc (ks_sys st)" "mypid st' = mypid st"
    "length (pt_procs (kpt st')) = length (pt_procs (kpt st))"
    "the_proc (kpt st') i = (the_proc (kpt st) i)\<lparr>p_state := p_state (the_proc (kpt st') i)\<rparr>"
    "lg_start (ks_log st') = lg_start (ks_log st)"
    using q(1-12) q(13) [of i] l(2) by simp_all
qed

lemma fs_quiet_trans [trans]:
  assumes "fs_quiet st st1" and "fs_quiet st1 st2"
  shows "fs_quiet st st2"
proof -
  obtain l where l: "quiet (upd_log (\<lambda>_. l) st) st1" "lg_start l = lg_start (ks_log st)" "lg_size l = lg_size (ks_log st)"
    "lg_outstanding l = lg_outstanding (ks_log st)" "lg_committing l = lg_committing (ks_log st)" "lg_dev l = lg_dev (ks_log st)"
    using assms(1) unfolding fs_quiet_def by blast
  have l1: "ks_log st1 = l" using quietD(1) [OF l(1)] by simp
  obtain l' where l': "quiet (upd_log (\<lambda>_. l') st1) st2" "lg_start l' = lg_start l" "lg_size l' = lg_size l"
    "lg_outstanding l' = lg_outstanding l" "lg_committing l' = lg_committing l" "lg_dev l' = lg_dev l"
    using assms(2) unfolding fs_quiet_def l1 by blast
  have "quiet (upd_log (\<lambda>_. l') st) st2" using quiet_trans [OF quiet_upd_log [OF l(1), of "\<lambda>_. l'"] l'(1)] by simp
  then show ?thesis unfolding fs_quiet_def using l l' by auto
qed

lemma log_wf_snoc:
  assumes "log_wf s bl n" and "b \<notin> set (take n bl)" and "LOGSIZE < unat (b - s)" and "n < LOGSIZE"
  shows "log_wf s (bl[n := b]) (Suc n)" and "set (take (Suc n) (bl[n := b])) = insert b (set (take n bl))"
proof -
  have t: "take (Suc n) (bl[n := b]) = take n bl @ [b]" using assms by (simp add: log_wf_def take_Suc_conv_app_nth)
  then show "set (take (Suc n) (bl[n := b])) = insert b (set (take n bl))" by simp
  show "log_wf s (bl[n := b]) (Suc n)"
    unfolding log_wf_def t using assms by (auto simp: log_wf_def nth_list_update less_Suc_eq)
qed

text \<open>What operations of the file system keep: everything above the log, and the buffers that are held.\<close>

definition op_keeps :: "u32 set \<Rightarrow> kst \<Rightarrow> kst \<Rightarrow> bool" where
  "op_keeps H st st' \<longleftrightarrow> fs_quiet st st' \<and> (\<forall>c j. c \<in> H \<longrightarrow> cached (ks_bufs st) c j \<longrightarrow> cached (ks_bufs st') c j)"

lemma op_keeps_trans [trans]: "op_keeps H st st1 \<Longrightarrow> op_keeps H st1 st2 \<Longrightarrow> op_keeps H st st2"
  unfolding op_keeps_def using fs_quiet_trans by blast

lemma op_keeps_refl [simp]: "op_keeps H st st"
  by (simp add: op_keeps_def)

lemma op_keeps_mono: "op_keeps H st st' \<Longrightarrow> H' \<subseteq> H \<Longrightarrow> op_keeps H' st st'"
  unfolding op_keeps_def by blast

lemma op_keepsD: "op_keeps H st st' \<Longrightarrow> fs_quiet st st'" "op_keeps H st st' \<Longrightarrow> c \<in> H \<Longrightarrow> cached (ks_bufs st) c j \<Longrightarrow> cached (ks_bufs st') c j"
  unfolding op_keeps_def by blast+

text \<open>Reading a block, changing and logging a block that is held, and releasing it.\<close>

lemma op_bread:
  assumes op: "in_op st pid m H" and b: "b \<notin> H" and room: "card H \<le> m"
  obtains i st1 where "bread ROOTDEV b st = Done (i, st1)" and "cached (ks_bufs st1) b i" and "buf_data i st1 = view st b"
    and "in_op st1 pid m (insert b H)" and "view st1 = view st" and "op_keeps H st st1"
  using op
proof (rule in_opE)
  fix n
  assume n: "lg_n (ks_log st) = int n" and ok: "bcache_ok st" and pid: "mypid st = Done pid" and dev: "lg_dev (ks_log st) = ROOTDEV" and fin: "finite H"
    and own: "owner st = (\<lambda>c. if c \<in> H then Some pid else None)"
    and r: "refs st = (\<lambda>c. (if c \<in> set (take n (lg_block (ks_log st))) then 1 else 0) + (if c \<in> H then 1 else 0))"
    and rest: "log_wf (lg_start (ks_log st)) (lg_block (ks_log st)) n"
      "\<forall>b. b \<notin> set (take n (lg_block (ks_log st))) \<longrightarrow> view st b = dk_blocks (ks_disk st) b"
      "head_n (dk_blocks (ks_disk st) (lg_start (ks_log st))) = 0" "1 \<le> lg_outstanding (ks_log st)"
      "n + m < LOGSIZE" "int (n + m) < lg_size (ks_log st)"
  have "pins (refs st) < NBUF" using log_pins(1) [OF rest(1) r fin] rest(5) room by simp
  moreover have "refs st b \<le> 1" using r b by simp
  ultimately obtain i st1 where st1: "bread ROOTDEV b st = Done (i, st1)" "cached (ks_bufs st1) b i" "ks_disk st1 = ks_disk st"
    and bc: "becomes st st1 (view st) ((refs st)(b := Suc (refs st b))) ((owner st)(b := Some pid))"
    by (rule_tac bread_ok [OF ok pid]) (use own b in auto)
  note b1 = becomesD [OF bc]
  have l: "ks_log st1 = ks_log st" by (rule quietD(1) [OF b1(2)])
  have "buf_data i st1 = view st b" using cached_simps(1) [OF b1(1) st1(2)] b1(3) by (simp add: buf_data_def)
  moreover have "in_op st1 pid m (insert b H)"
    unfolding in_op_def l using n b1 pid dev fin rest st1(3) own r b by (intro exI [of _ n]) (auto simp: fun_eq_iff)
  moreover have "op_keeps H st st1"
    unfolding op_keeps_def using quiet_fs_quiet [OF b1(2)] b1(7) r by simp
  ultimately show ?thesis using that st1(1,2) b1(3) by blast
qed

lemma op_brelse:
  assumes op: "in_op st pid m H" and b: "b \<in> H" and c: "cached (ks_bufs st) b i"
  shows "\<exists>st'. brelse i st = Done st' \<and> in_op st' pid m (H - {b}) \<and> view st' = view st \<and> op_keeps (H - {b}) st st'"
  using op
proof (rule in_opE)
  fix n
  assume n: "lg_n (ks_log st) = int n" and ok: "bcache_ok st" and pid: "mypid st = Done pid" and dev: "lg_dev (ks_log st) = ROOTDEV" and fin: "finite H"
    and own: "owner st = (\<lambda>c. if c \<in> H then Some pid else None)"
    and r: "refs st = (\<lambda>c. (if c \<in> set (take n (lg_block (ks_log st))) then 1 else 0) + (if c \<in> H then 1 else 0))"
    and rest: "log_wf (lg_start (ks_log st)) (lg_block (ks_log st)) n"
      "\<forall>b. b \<notin> set (take n (lg_block (ks_log st))) \<longrightarrow> view st b = dk_blocks (ks_disk st) b"
      "head_n (dk_blocks (ks_disk st) (lg_start (ks_log st))) = 0" "1 \<le> lg_outstanding (ks_log st)"
      "n + m < LOGSIZE" "int (n + m) < lg_size (ks_log st)"
  obtain st2 where st2: "brelse i st = Done st2" "ks_disk st2 = ks_disk st"
    and bc: "becomes st st2 (view st) ((refs st)(b := refs st b - 1)) ((owner st)(b := None))"
    by (rule brelse_ok [OF ok c pid]) (use own b r rest(2) in \<open>auto split: if_splits\<close>)
  note b2 = becomesD [OF bc]
  have l: "ks_log st2 = ks_log st" by (rule quietD(1) [OF b2(2)])
  have "in_op st2 pid m (H - {b})"
    unfolding in_op_def l using n b2 pid dev fin rest st2(2) own r b by (intro exI [of _ n]) (auto simp: fun_eq_iff)
  moreover have "op_keeps (H - {b}) st st2"
    unfolding op_keeps_def using quiet_fs_quiet [OF b2(2)] b2(7) r by simp
  ultimately show ?thesis using st2(1) b2(3) by blast
qed

lemma op_log_write:
  assumes op: "in_op st pid (Suc m) H" and b: "b \<in> H" and c: "cached (ks_bufs st) b i" and area: "LOGSIZE < unat (b - lg_start (ks_log st))"
    and d: "length d = BSIZE"
  shows "\<exists>st'. log_write i (set_data i d st) = Done st' \<and> in_op st' pid m H \<and> view st' = (view st)(b := d) \<and> op_keeps H st st'"
  using op
proof (rule in_opE)
  fix n
  let ?bl = "lg_block (ks_log st)" and ?s = "lg_start (ks_log st)"
  assume n: "lg_n (ks_log st) = int n" and ok: "bcache_ok st" and pid: "mypid st = Done pid" and dev: "lg_dev (ks_log st) = ROOTDEV" and fin: "finite H"
    and own: "owner st = (\<lambda>c. if c \<in> H then Some pid else None)"
    and r: "refs st = (\<lambda>c. (if c \<in> set (take n ?bl) then 1 else 0) + (if c \<in> H then 1 else 0))"
    and wf: "log_wf ?s ?bl n" and clean: "\<forall>b. b \<notin> set (take n ?bl) \<longrightarrow> view st b = dk_blocks (ks_disk st) b"
    and h0: "head_n (dk_blocks (ks_disk st) ?s) = 0" and out: "1 \<le> lg_outstanding (ks_log st)"
    and nm: "n + Suc m < LOGSIZE" "int (n + Suc m) < lg_size (ks_log st)"
  have r1: "0 < refs st b" "refs st b \<le> 2" using r b by auto
  define st3 where "st3 = set_data i d st"
  have bc3: "becomes st st3 ((view st)(b := d)) (refs st) (owner st)"
    unfolding st3_def set_data_def by (rule set_data_ok [OF ok c r1(1) d])
  note b3 = becomesD [OF bc3]
  have c3: "cached (ks_bufs st3) b i" using b3(7) [OF r1(1) c] .
  have l3: "ks_log st3 = ks_log st" "ks_disk st3 = ks_disk st" by (simp_all add: st3_def set_data_def)
  define n' bl' where "n' = (if b \<in> set (take n ?bl) then n else Suc n)" and "bl' = (if b \<in> set (take n ?bl) then ?bl else ?bl[n := b])"
  define L where "L = (ks_log st)\<lparr>lg_block := bl', lg_n := int n'\<rparr>"
  have wf': "log_wf ?s bl' n'" and set': "set (take n' bl') = insert b (set (take n ?bl))"
    using wf log_wf_snoc [OF wf _ area] nm(1) by (auto simp: n'_def bl'_def)
  note lw = log_write_ok [OF b3(1) c3, of n]
  obtain st4 where st4: "log_write i st3 = Done st4" "ks_disk st4 = ks_disk st"
    and bc4: "becomes (upd_log (\<lambda>_. L) st3) st4 (view st3) ((refs st3)(b := if b \<in> set (take n ?bl) then refs st3 b else Suc (refs st3 b))) (owner st3)"
  proof (cases "b \<in> set (take n ?bl)")
    case True
    have "log_write i st3 = Done st3" by (rule lw(1)) (use True b3 r1 n wf out nm l3 in \<open>auto simp: log_wf_def\<close>)
    moreover have "upd_log (\<lambda>_. L) st3 = st3" using True n l3(1) by (simp add: L_def n'_def bl'_def upd_log_def)
    ultimately show thesis using that [of st3] True b3 l3(2) by (simp add: becomes_def)
  next
    case False
    have "log_write i st3 = Done (bpin i (upd_log (\<lambda>l. l\<lparr>lg_block := (lg_block l)[n := b], lg_n := int n + 1\<rparr>) st3))"
      by (rule lw(2)) (use False b3 r1 n wf out nm l3 in \<open>auto simp: log_wf_def\<close>)
    moreover have "upd_log (\<lambda>l. l\<lparr>lg_block := (lg_block l)[n := b], lg_n := int n + 1\<rparr>) st3 = upd_log (\<lambda>_. L) st3"
      using False l3(1) by (simp add: L_def n'_def bl'_def upd_log_def)
    moreover have "becomes (upd_log (\<lambda>_. L) st3) (bpin i (upd_log (\<lambda>_. L) st3)) (view (upd_log (\<lambda>_. L) st3))
        ((refs (upd_log (\<lambda>_. L) st3))(b := Suc (refs (upd_log (\<lambda>_. L) st3) b))) (owner (upd_log (\<lambda>_. L) st3))"
      by (rule bpin_ok) (use b3 c3 r1 in \<open>auto simp: False\<close>)
    ultimately show thesis using that False l3(2) by (simp add: bpin_def)
  qed
  note b4 = becomesD [OF bc4]
  have q4: "quiet (upd_log (\<lambda>_. L) st) st4" using quiet_upd_log [OF b3(2), of "\<lambda>_. L"] b4(2) quiet_trans by blast
  have fq: "fs_quiet st st4" unfolding fs_quiet_def using q4 by (intro exI [of _ L]) (simp add: L_def)
  have l4: "ks_log st4 = L" using quietD(1) [OF q4] by simp
  have v4: "view st4 = (view st)(b := d)" "owner st4 = (\<lambda>c. if c \<in> H then Some pid else None)" using b3 b4 own by simp_all
  have r4: "refs st4 = (\<lambda>c. (if c \<in> set (take n' bl') then 1 else 0) + (if c \<in> H then 1 else 0))"
    unfolding set' using b3 b4 r b by (auto simp: fun_eq_iff)
  have "n' + m < LOGSIZE" "int (n' + m) < lg_size (ks_log st)" using nm by (auto simp: n'_def)
  moreover have "\<forall>c. c \<notin> set (take n' bl') \<longrightarrow> view st4 c = dk_blocks (ks_disk st4) c"
    unfolding set' using clean v4(1) st4(2) by auto
  ultimately have "in_op st4 pid m H"
    unfolding in_op_def l4 using b4(1) pid quietD(11) [OF q4] dev fin v4(2) r4 wf' h0 out st4(2)
    by (intro exI [of _ n']) (simp add: L_def)
  moreover have "op_keeps H st st4"
    unfolding op_keeps_def using fq b3(4,7) b4(7) r by simp
  ultimately show ?thesis using st4(1) v4(1) by (auto simp: st3_def)
qed

text \<open>
  Reading a block inside a transaction. The buffer can be released again as it is, or its contents
  changed and logged, which the file system sees as an update of the block.
\<close>

lemma op_block:
  assumes op: "in_op st pid m H" and b: "b \<notin> H" and room: "card H \<le> m" and area: "LOGSIZE < unat (b - lg_start (ks_log st))"
  obtains i st1 where "bread ROOTDEV b st = Done (i, st1)" and "buf_data i st1 = view st b" and "op_keeps H st st1"
    and "\<exists>st'. brelse i st1 = Done st' \<and> in_op st' pid m H \<and> view st' = view st \<and> op_keeps H st st'"
    and "\<And>d m'. length d = BSIZE \<Longrightarrow> m = Suc m' \<Longrightarrow> \<exists>st'. obind (log_write i (set_data i d st1)) (brelse i) = Done st' \<and>
      in_op st' pid m' H \<and> view st' = (view st)(b := d) \<and> op_keeps H st st'"
proof -
  obtain i st1 where st1: "bread ROOTDEV b st = Done (i, st1)" "cached (ks_bufs st1) b i" "buf_data i st1 = view st b"
    "in_op st1 pid m (insert b H)" "view st1 = view st" "op_keeps H st st1"
    by (rule op_bread [OF op b room])
  have H: "insert b H - {b} = H" using b by simp
  have rel: "\<exists>st'. brelse i st = Done st' \<and> in_op st' pid k H \<and> view st' = view st \<and> op_keeps H st st'"
    if "in_op st pid k (insert b H)" "cached (ks_bufs st) b i" for st k
    using op_brelse [OF that(1) insertI1 that(2)] unfolding H .
  have "\<exists>st'. brelse i st1 = Done st' \<and> in_op st' pid m H \<and> view st' = view st \<and> op_keeps H st st'"
    using rel [OF st1(4,2)] st1(5) op_keeps_trans [OF st1(6)] by auto
  moreover have "\<exists>st'. obind (log_write i (set_data i d st1)) (brelse i) = Done st' \<and> in_op st' pid m' H \<and> view st' = (view st)(b := d) \<and> op_keeps H st st'"
    if d: "length d = BSIZE" and m: "m = Suc m'" for d m'
  proof -
    have a: "LOGSIZE < unat (b - lg_start (ks_log st1))" using area fs_quietD(13) [OF op_keepsD(1) [OF st1(6)]] by simp
    obtain st2 where st2: "log_write i (set_data i d st1) = Done st2" "in_op st2 pid m' (insert b H)" "view st2 = (view st1)(b := d)" "op_keeps (insert b H) st1 st2"
      using op_log_write [OF st1(4) [unfolded m] insertI1 st1(2) a d] by blast
    have c2: "cached (ks_bufs st2) b i" by (rule op_keepsD(2) [OF st2(4) insertI1 st1(2)])
    show ?thesis using rel [OF st2(2) c2] st2(1,3) st1(5) op_keeps_trans [OF st1(6)] op_keeps_trans [OF op_keeps_mono [OF st2(4) subset_insertI]]
      by auto
  qed
  ultimately show ?thesis using that st1(1,3,6) by blast
qed

lemma txn_bread:
  assumes txn: "in_txn st pid m" and area: "LOGSIZE < unat (b - lg_start (ks_log st))"
  obtains i st1 where "bread ROOTDEV b st = Done (i, st1)" and "buf_data i st1 = view st b" and "fs_quiet st st1"
    and "\<exists>st'. brelse i st1 = Done st' \<and> in_txn st' pid m \<and> view st' = view st \<and> fs_quiet st st'"
    and "\<And>d m'. length d = BSIZE \<Longrightarrow> m = Suc m' \<Longrightarrow> \<exists>st'. obind (log_write i (set_data i d st1)) (brelse i) = Done st' \<and>
      in_txn st' pid m' \<and> view st' = (view st)(b := d) \<and> fs_quiet st st'"
proof (rule op_block [OF txn _ _ area])
  fix i st1
  assume 1: "bread ROOTDEV b st = Done (i, st1)" "buf_data i st1 = view st b" "op_keeps {} st st1"
    "\<exists>st'. brelse i st1 = Done st' \<and> in_txn st' pid m \<and> view st' = view st \<and> op_keeps {} st st'"
    and 2: "\<And>d m'. length d = BSIZE \<Longrightarrow> m = Suc m' \<Longrightarrow> \<exists>st'. obind (log_write i (set_data i d st1)) (brelse i) = Done st' \<and>
      in_txn st' pid m' \<and> view st' = (view st)(b := d) \<and> op_keeps {} st st'"
  show thesis by (rule that [OF 1(1,2)]) (use 1(3,4) 2 op_keepsD(1) in blast)+
qed simp_all

text \<open>Beginning and ending an operation.\<close>

lemma begin_op_ok:
  assumes "\<not> lg_committing (ks_log st)" and "lg_n (ks_log st) + (lg_outstanding (ks_log st) + 1) * 10 \<le> 30"
  shows "begin_op st = Done (upd_log (\<lambda>l. l\<lparr>lg_outstanding := lg_outstanding l + 1\<rparr>) st)"
  using assms by (simp add: begin_op_def)

lemma idle_in_txn:
  assumes "idle st" and "mypid st = Done pid" and "lg_dev (ks_log st) = ROOTDEV" and "lg_n (ks_log st) = 0" and "length (lg_block (ks_log st)) = LOGSIZE"
    and "head_n (dk_blocks (ks_disk st) (lg_start (ks_log st))) = 0" and "1 \<le> lg_outstanding (ks_log st)" and "m < LOGSIZE"
    and "int m < lg_size (ks_log st)"
  shows "in_txn st pid m"
  using assms unfolding in_op_def idle_def by (intro exI [of _ 0]) (auto simp: log_wf_def)

section \<open>Properties\<close>



section \<open>Witnesses\<close>

text \<open>A log in blocks 2 to 32, an empty disk and a disk with a committed transaction of one block.\<close>

definition demo_sb :: superblock where
  "demo_sb = \<lparr>sb_magic = 0x10203040, sb_size = 2000, sb_nblocks = 1954, sb_ninodes = 200, sb_nlog = 30, sb_logstart = 2,
     sb_inodestart = 32, sb_bmapstart = 45\<rparr>"

definition zero_disk :: "u32 \<Rightarrow> u8 list" where
  "zero_disk b = replicate BSIZE 0"

definition committed_disk :: "u32 \<Rightarrow> u8 list" where
  "committed_disk = zero_disk(2 := head_bytes 1 (60 # replicate 29 0) (replicate BSIZE 0), 3 := replicate BSIZE 9)"

definition txn_start :: kst where
  "txn_start = upd_log (\<lambda>l. l\<lparr>lg_start := 2, lg_size := 30, lg_outstanding := 1, lg_dev := ROOTDEV\<rparr>) (demo_kst demo_sys zero_disk)"

lemma of_bytes_zero: "of_bytes (replicate n 0) = 0"
  by (induction n) auto

lemma head_zero: "head_n (zero_disk b) = 0"
  by (simp add: head_n_def get32_def slice_def zero_disk_def of_bytes_zero del: replicate.simps)

lemma zero_disk_length: "length (zero_disk b) = BSIZE"
  by (simp add: zero_disk_def)

lemma demo_mypid: "mypid (demo_kst demo_sys dk) = Done (p_pid (the_proc (sy_pt demo_sys) 0))"
  by (simp only: mypid_def current_def demo_kst_bufs) (simp add: demo_sys_def)

lemma demo_idle: "\<forall>b. length (dk b) = BSIZE \<Longrightarrow> idle (demo_kst demo_sys dk)"
  using binit_ok [OF zero_bufs demo_kst_bufs(1), of demo_sys dk] demo_mypid [of dk]
  by (simp add: idle_def demo_kst_bufs del: replicate.simps)

lemma txn_start_txn: "in_txn txn_start (p_pid (the_proc (sy_pt demo_sys) 0)) 5"
proof (rule idle_in_txn)
  show "idle txn_start" using demo_idle [of zero_disk] zero_disk_length
    by (simp add: txn_start_def idle_def)
qed (simp_all add: txn_start_def demo_mypid demo_kst_bufs zero_log_def head_zero del: replicate.simps)



end
