(* ===== verification/Fs.thy ===== *)
theory Fs
  imports Log
begin

text \<open>
  \<^verbatim>\<open>kernel/fs.c\<close>, the lowest layer: the super block and the allocation of disk blocks through the
  bitmap. Block numbers are 32-bit words; the loop counters of \<open>balloc\<close> are natural numbers,
  which agree with the C integers for every disk of fewer than \<^verbatim>\<open>2^31\<close> blocks.
\<close>

section \<open>The super block\<close>

definition sb_of :: "u8 list \<Rightarrow> superblock" where
  "sb_of d = \<lparr>sb_magic = get32 0 d, sb_size = get32 4 d, sb_nblocks = get32 8 d, sb_ninodes = get32 12 d,
     sb_nlog = get32 16 d, sb_logstart = get32 20 d, sb_inodestart = get32 24 d, sb_bmapstart = get32 28 d\<rparr>"

definition readsb :: "u32 \<Rightarrow> kst \<Rightarrow> kst outcome" where
  "readsb dev st = obind (bread dev 1 st) (\<lambda>(bp, st). brelse bp (st\<lparr>ks_sb := sb_of (buf_data bp st)\<rparr>))"

abbreviation FSMAGIC :: u32 where
  "FSMAGIC \<equiv> 0x10203040"

definition fsinit :: "u32 \<Rightarrow> kst \<Rightarrow> kst outcome" where
  "fsinit dev st = obind (readsb dev st) (\<lambda>st.
     if sb_magic (ks_sb st) \<noteq> FSMAGIC then Panic ''invalid file system'' else initlog dev (ks_sb st) st)"

section \<open>Blocks\<close>

text \<open>A message on the console.\<close>

definition kputs :: "string \<Rightarrow> kst \<Rightarrow> kst" where
  "kputs s st = st\<lparr>ks_out := ks_out st @ map of_char s\<rparr>"

definition bzero :: "u32 \<Rightarrow> u32 \<Rightarrow> kst \<Rightarrow> kst outcome" where
  "bzero dev bno st = obind (bread dev bno st) (\<lambda>(bp, st).
     obind (log_write bp (set_data bp (replicate BSIZE 0) st)) (brelse bp))"

abbreviation BPB :: nat where
  "BPB \<equiv> 8192"

definition BBLOCK :: "nat \<Rightarrow> superblock \<Rightarrow> u32" where
  "BBLOCK b sb = of_nat (b div BPB) + sb_bmapstart sb"

text \<open>Bit \<open>bi\<close> of a bitmap block: \<^verbatim>\<open>data[bi/8] & (1 << (bi % 8))\<close>.\<close>

definition bit_set :: "nat \<Rightarrow> u8 list \<Rightarrow> bool" where
  "bit_set bi d \<longleftrightarrow> d ! (bi div 8) AND push_bit (bi mod 8) 1 \<noteq> 0"

definition mark_bit :: "nat \<Rightarrow> u8 list \<Rightarrow> u8 list" where
  "mark_bit bi d = d[bi div 8 := d ! (bi div 8) OR push_bit (bi mod 8) 1]"

definition clear_bit :: "nat \<Rightarrow> u8 list \<Rightarrow> u8 list" where
  "clear_bit bi d = d[bi div 8 := d ! (bi div 8) AND NOT (push_bit (bi mod 8) 1)]"

text \<open>The inner loop of \<open>balloc\<close>: the first free bit of the bitmap block for blocks from \<open>b\<close> on.\<close>

definition free_bit :: "nat \<Rightarrow> nat \<Rightarrow> u8 list \<Rightarrow> nat option" where
  "free_bit b nb d = find (\<lambda>bi. \<not> bit_set bi d) [0..<min BPB (nb - b)]"

function balloc_loop :: "u32 \<Rightarrow> superblock \<Rightarrow> nat \<Rightarrow> kst \<Rightarrow> (u32 \<times> kst) outcome" where
  "balloc_loop dev sb b st =
     (if b < unat (sb_size sb) then
        obind (bread dev (BBLOCK b sb) st) (\<lambda>(bp, st).
          case free_bit b (unat (sb_size sb)) (buf_data bp st) of
            Some bi \<Rightarrow>
              obind (log_write bp (set_data bp (mark_bit bi (buf_data bp st)) st)) (\<lambda>st.
              obind (brelse bp st) (\<lambda>st.
              obind (bzero dev (of_nat (b + bi)) st) (\<lambda>st. Done (of_nat (b + bi), st))))
          | None \<Rightarrow> obind (brelse bp st) (balloc_loop dev sb (b + BPB)))
      else Done (0, kputs (''balloc: out of blocks'' @ [CHR 0x0A]) st))"
  by pat_completeness auto
termination
  by (relation "measure (\<lambda>(dev, sb, b, st). unat (sb_size sb) - b)") auto

declare balloc_loop.simps [simp del]

definition balloc :: "u32 \<Rightarrow> kst \<Rightarrow> (u32 \<times> kst) outcome" where
  "balloc dev st = balloc_loop dev (ks_sb st) 0 st"

definition bfree :: "u32 \<Rightarrow> u32 \<Rightarrow> kst \<Rightarrow> kst outcome" where
  "bfree dev b st = obind (bread dev (BBLOCK (unat b) (ks_sb st)) st) (\<lambda>(bp, st).
     let bi = unat b mod BPB; d = buf_data bp st in
     if \<not> bit_set bi d then Panic ''freeing free block''
     else obind (log_write bp (set_data bp (clear_bit bi d) st)) (brelse bp))"

section \<open>Bitmaps\<close>

lemma bit_set_eq: "bit_set bi d \<longleftrightarrow> bit (d ! (bi div 8)) (bi mod 8)"
  by (simp add: bit_set_def push_bit_eq_mult and_exp_eq_0_iff_not_bit)

lemma length_bits [simp]: "length (mark_bit bi d) = length d" "length (clear_bit bi d) = length d"
  by (simp_all add: mark_bit_def clear_bit_def)

lemma bit_set_mark:
  assumes "bi < BPB" and "length d = BSIZE"
  shows "bit_set bj (mark_bit bi d) \<longleftrightarrow> bj = bi \<or> bit_set bj d"
proof (cases "bj div 8 = bi div 8")
  case True
  then have "bj mod 8 = bi mod 8 \<longleftrightarrow> bj = bi" by (metis div_mod_decomp)
  then show ?thesis using True assms by (auto simp: bit_set_eq mark_bit_def bit_simps)
qed (auto simp: bit_set_eq mark_bit_def)

lemma bit_set_clear:
  assumes "bi < BPB" and "length d = BSIZE"
  shows "bit_set bj (clear_bit bi d) \<longleftrightarrow> bj \<noteq> bi \<and> bit_set bj d"
proof (cases "bj div 8 = bi div 8")
  case True
  then have "bj mod 8 = bi mod 8 \<longleftrightarrow> bj = bi" by (metis div_mod_decomp)
  then show ?thesis using True assms by (auto simp: bit_set_eq clear_bit_def bit_simps)
qed (auto simp: bit_set_eq clear_bit_def)

text \<open>A block is in use when its bit is set.\<close>

definition used :: "kst \<Rightarrow> nat \<Rightarrow> bool" where
  "used st b \<longleftrightarrow> bit_set (b mod BPB) (view st (BBLOCK b (ks_sb st)))"

text \<open>
  A disk as \<^verbatim>\<open>mkfs\<close> lays it out: the bitmap is outside the log, and the boot block, the log and
  the bitmap are in use.
\<close>

definition fs_layout :: "kst \<Rightarrow> bool" where
  "fs_layout st \<longleftrightarrow> (let sz = unat (sb_size (ks_sb st)); s = lg_start (ks_log st) in used st 0 \<and>
     (\<forall>b < sz. LOGSIZE < unat (BBLOCK b (ks_sb st) - s)) \<and>
     (\<forall>b < sz. \<not> used st b \<longrightarrow> LOGSIZE < unat (of_nat b - s) \<and> (\<forall>c < sz. BBLOCK c (ks_sb st) \<noteq> of_nat b)))"

lemma BBLOCK_eq_iff:
  assumes "b < 2 ^ 32" and "c < 2 ^ 32"
  shows "BBLOCK b sb = BBLOCK c sb \<longleftrightarrow> b div BPB = c div BPB"
proof -
  have "b div BPB < 2 ^ 32" "c div BPB < 2 ^ 32" using assms by (meson div_le_dividend le_less_trans)+
  then have "(of_nat (b div BPB) :: u32) = of_nat (c div BPB) \<longleftrightarrow> b div BPB = c div BPB"
    by (simp add: word_of_nat_eq_iff take_bit_nat_eq_self)
  then show ?thesis by (simp add: BBLOCK_def)
qed

lemma kputs_simps [simp]:
  "ks_log (kputs s st) = ks_log st" "ks_bufs (kputs s st) = ks_bufs st" "ks_disk (kputs s st) = ks_disk st"
  "ks_sys (kputs s st) = ks_sys st" "mypid (kputs s st) = mypid st" "ks_sb (kputs s st) = ks_sb st"
  "ks_inodes (kputs s st) = ks_inodes st" "ks_files (kputs s st) = ks_files st" "ks_pipes (kputs s st) = ks_pipes st"
  "view (kputs s st) = view st" "refs (kputs s st) = refs st" "owner (kputs s st) = owner st"
  "bcache_ok (kputs s st) = bcache_ok st" "ks_out (kputs s st) = ks_out st @ map of_char s"
  by (auto simp: kputs_def mypid_def current_def view_def refs_def owner_def bcache_ok_def fun_eq_iff split: option.split)

lemma in_op_kputs [simp]: "in_op (kputs s st) pid m H = in_op st pid m H"
  by (simp add: in_op_def)

lemma in_op_mono: "in_op st pid m H \<Longrightarrow> m' \<le> m \<Longrightarrow> in_op st pid m' H"
  unfolding in_op_def by (elim exE) (rule_tac x = n in exI, auto)

lemma in_op_view_length: "in_op st pid m H \<Longrightarrow> length (view st b) = BSIZE"
  unfolding in_op_def using view_length by blast

lemma bzero_ok:
  assumes "in_op st pid (Suc m) H" and "b \<notin> H" and "card H \<le> Suc m" and "LOGSIZE < unat (b - lg_start (ks_log st))"
  shows "\<exists>st'. bzero ROOTDEV b st = Done st' \<and> in_op st' pid m H \<and> view st' = (view st)(b := replicate BSIZE 0) \<and> op_keeps H st st'"
proof -
  obtain i st1 where st1: "bread ROOTDEV b st = Done (i, st1)" and w: "\<And>d m'. length d = BSIZE \<Longrightarrow> Suc m = Suc m' \<Longrightarrow>
      \<exists>st'. obind (log_write i (set_data i d st1)) (brelse i) = Done st' \<and> in_op st' pid m' H \<and> view st' = (view st)(b := d) \<and> op_keeps H st st'"
    by (rule op_block [OF assms]) blast
  then show ?thesis using w [of "replicate BSIZE 0" m] by (simp add: bzero_def del: replicate.simps)
qed

section \<open>Allocation\<close>

lemma free_bit_cases:
  assumes "b mod BPB = 0" and "b < nb" and "d = view st (BBLOCK b (ks_sb st))" and "nb < 2 ^ 32"
  shows "case free_bit b nb d of
      None \<Rightarrow> \<forall>c. b \<le> c \<longrightarrow> c < nb \<longrightarrow> c < b + BPB \<longrightarrow> used st c
    | Some bi \<Rightarrow> bi < BPB \<and> b + bi < nb \<and> \<not> used st (b + bi) \<and> (\<forall>c. b \<le> c \<longrightarrow> c < b + bi \<longrightarrow> used st c)"
proof -
  have u: "used st (b + bi) \<longleftrightarrow> bit_set bi d" if "bi < BPB" "b + bi < nb" for bi
  proof -
    have "(b + bi) div BPB = b div BPB" "(b + bi) mod BPB = bi" using assms(1) that(1) by (simp_all add: div_add1_eq mod_add_eq [symmetric])
    then show ?thesis using assms(3) by (simp add: used_def BBLOCK_def)
  qed
  show ?thesis
  proof (cases "free_bit b nb d")
    case None
    then have n: "\<forall>bi. bi < BPB \<and> bi < nb - b \<longrightarrow> bit_set bi d" by (simp add: free_bit_def find_None_iff)
    have "used st c" if "b \<le> c" "c < nb" "c < b + BPB" for c using u [of "c - b"] n that by auto
    then show ?thesis using None by simp
  next
    case (Some bi)
    then have s: "bi < BPB" "bi < nb - b" "\<not> bit_set bi d" "\<forall>j<bi. bit_set j d"
      by (auto simp: free_bit_def find_Some_iff)
    have "used st c" if "b \<le> c" "c < b + bi" for c using u [of "c - b"] s that by auto
    then show ?thesis using Some s u [of bi] by auto
  qed
qed

text \<open>What a search from block \<open>b\<close> on ends with.\<close>

definition balloc_post :: "nat \<Rightarrow> u32 \<Rightarrow> nat \<Rightarrow> u32 set \<Rightarrow> kst \<Rightarrow> (u32 \<times> kst) outcome \<Rightarrow> bool" where
  "balloc_post b pid m H st r \<longleftrightarrow>
     (\<exists>c st'. b \<le> c \<and> c < unat (sb_size (ks_sb st)) \<and> \<not> used st c \<and> (\<forall>e. b \<le> e \<longrightarrow> e < c \<longrightarrow> used st e) \<and>
        r = Done (of_nat c, st') \<and> in_op st' pid m H \<and> op_keeps H st st' \<and>
        view st' = (view st)(BBLOCK c (ks_sb st) := mark_bit (c mod BPB) (view st (BBLOCK c (ks_sb st))),
                             of_nat c := replicate BSIZE 0)) \<or>
     ((\<forall>e. b \<le> e \<longrightarrow> e < unat (sb_size (ks_sb st)) \<longrightarrow> used st e) \<and>
      (\<exists>st'. r = Done (0, kputs (''balloc: out of blocks'' @ [CHR 0x0A]) st') \<and> in_op st' pid (m + 2) H \<and> op_keeps H st st' \<and>
         view st' = view st))"

text \<open>Blocks that are neither free nor part of the bitmap, such as those a caller may hold.\<close>

definition apart :: "u32 set \<Rightarrow> kst \<Rightarrow> bool" where
  "apart H st \<longleftrightarrow> (\<forall>c < unat (sb_size (ks_sb st)). BBLOCK c (ks_sb st) \<notin> H \<and> (\<not> used st c \<longrightarrow> of_nat c \<notin> H))"

lemma apart_empty [simp]: "apart {} st"
  by (simp add: apart_def)

lemma used_cong: "view st' = view st \<Longrightarrow> fs_quiet st st' \<Longrightarrow> used st' = used st"
  by (simp add: fun_eq_iff used_def fs_quietD)

lemma fs_layout_cong: "view st' = view st \<Longrightarrow> fs_quiet st st' \<Longrightarrow> fs_layout st' = fs_layout st"
  using used_cong [of st' st] by (simp add: fs_layout_def fs_quietD)

lemma fs_layoutD:
  assumes "fs_layout st" and "b < unat (sb_size (ks_sb st))"
  shows "LOGSIZE < unat (BBLOCK b (ks_sb st) - lg_start (ks_log st))"
    and "\<not> used st b \<Longrightarrow> LOGSIZE < unat (of_nat b - lg_start (ks_log st))"
    and "\<not> used st b \<Longrightarrow> c < unat (sb_size (ks_sb st)) \<Longrightarrow> BBLOCK c (ks_sb st) \<noteq> of_nat b"
  using assms by (simp_all add: fs_layout_def Let_def)

lemma sb_size_bound: "unat (sb_size sb) < 2 ^ 32"
  by (rule order.strict_trans2 [OF unsigned_less]) simp

lemma balloc_post_shift:
  assumes "view st2 = view st" and "op_keeps H st st2" and "\<forall>c. b \<le> c \<longrightarrow> c < unat (sb_size (ks_sb st)) \<longrightarrow> c < b + k \<longrightarrow> used st c"
    and post: "balloc_post (b + k) pid m H st2 r"
  shows "balloc_post b pid m H st r"
proof -
  note eq = used_cong [OF assms(1) op_keepsD(1) [OF assms(2)]] assms(1) fs_quietD(1) [OF op_keepsD(1) [OF assms(2)]]
  have "(\<forall>e. b + k \<le> e \<longrightarrow> e < c \<longrightarrow> used st e) \<longrightarrow> (\<forall>e. b \<le> e \<longrightarrow> e < c \<longrightarrow> used st e)" if "c \<le> unat (sb_size (ks_sb st))" for c
    using assms(3) that by (metis not_le order_less_le_trans)
  note shift = this
  note tr = op_keeps_trans [OF assms(2)]
  from post show ?thesis unfolding balloc_post_def eq
  proof (elim disjE exE conjE, goal_cases)
    case (1 c st')
    then show ?case using shift [of c] tr [of st'] by (intro disjI1 exI [of _ c] exI [of _ st']) simp
  next
    case (2 st')
    then show ?case using shift [OF order_refl] tr [of st'] by (intro disjI2 conjI exI [of _ st']) simp_all
  qed
qed

lemma balloc_loop_ok:
  assumes "b mod BPB = 0" and "in_op st pid (m + 2) H" and "fs_layout st" and "sb = ks_sb st" and "apart H st" and "card H \<le> Suc m"
  shows "balloc_post b pid m H st (balloc_loop ROOTDEV sb b st)"
  using assms
proof (induction ROOTDEV sb b st rule: balloc_loop.induct)
  case (1 sb b st)
  show ?case
  proof (cases "b < unat (sb_size sb)")
    case False
    then show ?thesis using "1.prems" unfolding balloc_post_def
      by (intro disjI2) (auto simp: balloc_loop.simps)
  next
    case True
    let ?B = "BBLOCK b sb" and ?d = "view st (BBLOCK b sb)"
    have area: "LOGSIZE < unat (?B - lg_start (ks_log st))" using fs_layoutD(1) "1.prems"(3,4) True by simp
    have ap: "?B \<notin> H" "\<And>c. c < unat (sb_size sb) \<Longrightarrow> \<not> used st c \<Longrightarrow> of_nat c \<notin> H" using "1.prems"(4,5) True by (auto simp: apart_def)
    obtain i st1 where st1: "bread ROOTDEV ?B st = Done (i, st1)" "buf_data i st1 = ?d" "op_keeps H st st1"
      "\<exists>st'. brelse i st1 = Done st' \<and> in_op st' pid (m + 2) H \<and> view st' = view st \<and> op_keeps H st st'"
      and wr: "\<And>d m'. length d = BSIZE \<Longrightarrow> m + 2 = Suc m' \<Longrightarrow> \<exists>st'. obind (log_write i (set_data i d st1)) (brelse i) = Done st' \<and>
        in_op st' pid m' H \<and> view st' = (view st)(?B := d) \<and> op_keeps H st st'"
      by (rule op_block [OF "1.prems"(2) ap(1) _ area]) (use "1.prems"(6) in auto)
    note fb = free_bit_cases [OF "1.prems"(1) True _ sb_size_bound, of ?d st, simplified "1.prems"(4), simplified]
    show ?thesis
    proof (cases "free_bit b (unat (sb_size sb)) ?d")
      case None
      obtain st2 where st2: "brelse i st1 = Done st2" "in_op st2 pid (m + 2) H" "view st2 = view st" "op_keeps H st st2"
        using st1(4) by blast
      note q2 = op_keepsD(1) [OF st2(4)]
      have "apart H st2" using "1.prems"(5) used_cong [OF st2(3) q2] fs_quietD(1) [OF q2] by (simp add: apart_def)
      then have "balloc_post (b + BPB) pid m H st2 (balloc_loop ROOTDEV sb (b + BPB) st2)"
        using "1.hyps" [OF True, of "(i, st1)" i st1 st2] None "1.prems" st2 fs_layout_cong [OF st2(3) q2] fs_quietD(1) [OF q2] st1(1,2)
        by simp
      moreover have "balloc_loop ROOTDEV sb b st = balloc_loop ROOTDEV sb (b + BPB) st2"
        using True None st1 st2(1) by (subst balloc_loop.simps) simp
      moreover have "\<forall>c. b \<le> c \<longrightarrow> c < unat (sb_size sb) \<longrightarrow> c < b + BPB \<longrightarrow> used st c" using fb None "1.prems"(4) by simp
      ultimately show ?thesis using balloc_post_shift [OF st2(3,4)] "1.prems"(4) by simp
    next
      case (Some bi)
      let ?d' = "mark_bit bi ?d"
      have f: "bi < BPB" "b + bi < unat (sb_size sb)" "\<not> used st (b + bi)" "\<forall>c. b \<le> c \<longrightarrow> c < b + bi \<longrightarrow> used st c"
        using fb Some "1.prems"(4) by auto
      obtain st2 where st2: "obind (log_write i (set_data i ?d' st1)) (brelse i) = Done st2" "in_op st2 pid (Suc m) H"
        "view st2 = (view st)(?B := ?d')" "op_keeps H st st2"
        using wr [of ?d' "Suc m"] in_op_view_length [OF "1.prems"(2)] by auto
      have "LOGSIZE < unat (of_nat (b + bi) - lg_start (ks_log st2))"
        using fs_layoutD(2) [OF "1.prems"(3), of "b + bi"] f "1.prems"(4) fs_quietD(13) [OF op_keepsD(1) [OF st2(4)]] by simp
      from bzero_ok [OF st2(2) ap(2) "1.prems"(6) this] f(2,3) obtain st3 where st3: "bzero ROOTDEV (of_nat (b + bi)) st2 = Done st3" "in_op st3 pid m H"
        "view st3 = (view st2)(of_nat (b + bi) := replicate BSIZE 0)" "op_keeps H st2 st3" by blast
      have e: "(b + bi) mod BPB = bi" "BBLOCK (b + bi) sb = ?B"
        using f(1) "1.prems"(1) by (simp_all add: BBLOCK_def div_add1_eq mod_add_eq [symmetric])
      have "balloc_loop ROOTDEV sb b st = Done (of_nat (b + bi), st3)"
        using True Some st1(1,2) st2(1) st3(1) by (subst balloc_loop.simps) (simp add: obind_assoc [symmetric])
      then show ?thesis using f e st2(3) st3(2,3) op_keeps_trans [OF st2(4) st3(4)] "1.prems"(4) unfolding balloc_post_def
        by (intro disjI1 exI [of _ "b + bi"] exI [of _ st3]) simp
    qed
  qed
qed

lemma bfree_ok:
  assumes "in_op st pid (Suc m) H" and "b < 2 ^ 32" and "LOGSIZE < unat (BBLOCK b (ks_sb st) - lg_start (ks_log st))" and "used st b"
    and "BBLOCK b (ks_sb st) \<notin> H" and "card H \<le> Suc m"
  shows "\<exists>st'. bfree ROOTDEV (of_nat b) st = Done st' \<and> in_op st' pid m H \<and> op_keeps H st st' \<and>
     view st' = (view st)(BBLOCK b (ks_sb st) := clear_bit (b mod BPB) (view st (BBLOCK b (ks_sb st))))"
proof -
  let ?B = "BBLOCK b (ks_sb st)"
  obtain i st1 where st1: "bread ROOTDEV ?B st = Done (i, st1)" "buf_data i st1 = view st ?B"
    and wr: "\<And>d m'. length d = BSIZE \<Longrightarrow> Suc m = Suc m' \<Longrightarrow> \<exists>st'. obind (log_write i (set_data i d st1)) (brelse i) = Done st' \<and>
      in_op st' pid m' H \<and> view st' = (view st)(?B := d) \<and> op_keeps H st st'"
    by (rule op_block [OF assms(1,5,6,3)]) blast
  have "unat (of_nat b :: u32) = b" using assms(2) by (simp add: unat_of_nat)
  then show ?thesis using st1 wr [of "clear_bit (b mod BPB) (view st ?B)" m] assms(4) in_op_view_length [OF assms(1)]
    by (auto simp: bfree_def used_def)
qed

lemma bfree_free:
  assumes "in_txn st pid m" and "b < 2 ^ 32" and "LOGSIZE < unat (BBLOCK b (ks_sb st) - lg_start (ks_log st))" and "\<not> used st b"
  shows "bfree ROOTDEV (of_nat b) st = Panic ''freeing free block''"
proof -
  obtain i st1 where st1: "bread ROOTDEV (BBLOCK b (ks_sb st)) st = Done (i, st1)" "buf_data i st1 = view st (BBLOCK b (ks_sb st))"
    by (rule txn_bread [OF assms(1,3)]) blast
  have "unat (of_nat b :: u32) = b" using assms(2) by (simp add: unat_of_nat)
  then show ?thesis using st1 assms(4) by (simp add: bfree_def used_def)
qed

lemma used_update:
  assumes "view st' = (view st)(BBLOCK b (ks_sb st) := d)" and "ks_sb st' = ks_sb st" and "b < 2 ^ 32" and "c < 2 ^ 32"
  shows "used st' c \<longleftrightarrow> (if c div BPB = b div BPB then bit_set (c mod BPB) d else used st c)"
  using assms BBLOCK_eq_iff [OF assms(4,3), of "ks_sb st"] by (simp add: used_def)

lemma same_bit: "c div BPB = b div BPB \<Longrightarrow> c mod BPB = b mod BPB \<longleftrightarrow> c = b"
  by (metis div_mod_decomp)

lemma used_marked:
  assumes "view st' (BBLOCK c (ks_sb st)) = ((view st)(BBLOCK b (ks_sb st) := mark_bit (b mod BPB) (view st (BBLOCK b (ks_sb st))))) (BBLOCK c (ks_sb st))"
    and "ks_sb st' = ks_sb st" and "b < 2 ^ 32" and "c < 2 ^ 32" and "length (view st (BBLOCK b (ks_sb st))) = BSIZE"
  shows "used st' c \<longleftrightarrow> c = b \<or> used st c"
proof (cases "c div BPB = b div BPB")
  case True
  then have "BBLOCK c (ks_sb st) = BBLOCK b (ks_sb st)" by (simp add: BBLOCK_def)
  then show ?thesis using bit_set_mark [OF _ assms(5), of "b mod BPB" "c mod BPB"] same_bit [OF True] assms(1,2)
    by (simp add: used_def)
next
  case False
  then show ?thesis using BBLOCK_eq_iff [OF assms(4,3), of "ks_sb st"] assms(1,2) by (auto simp: used_def)
qed

lemma used_cleared:
  assumes "view st' = (view st)(BBLOCK b (ks_sb st) := clear_bit (b mod BPB) (view st (BBLOCK b (ks_sb st))))"
    and "ks_sb st' = ks_sb st" and "b < 2 ^ 32" and "c < 2 ^ 32" and "length (view st (BBLOCK b (ks_sb st))) = BSIZE"
  shows "used st' c \<longleftrightarrow> c \<noteq> b \<and> used st c"
proof (cases "c div BPB = b div BPB")
  case True
  then have "BBLOCK c (ks_sb st) = BBLOCK b (ks_sb st)" by (simp add: BBLOCK_def)
  then show ?thesis using bit_set_clear [OF _ assms(5), of "b mod BPB" "c mod BPB"] same_bit [OF True] assms(1,2)
    by (simp add: used_def)
next
  case False
  then show ?thesis using BBLOCK_eq_iff [OF assms(4,3), of "ks_sb st"] assms(1,2) by (auto simp: used_def)
qed

text \<open>What the search leaves, block by block, and how \<open>bfree\<close> undoes it.\<close>

lemma balloc_bfree:
  assumes lay: "fs_layout st" and b: "b < unat (sb_size (ks_sb st))" "\<not> used st b" and txn: "in_txn st' pid (Suc m)" "fs_quiet st st'"
    and len: "length (view st (BBLOCK b (ks_sb st))) = BSIZE"
    and v: "view st' = (view st)(BBLOCK b (ks_sb st) := mark_bit (b mod BPB) (view st (BBLOCK b (ks_sb st))), of_nat b := replicate BSIZE 0)"
  shows "\<forall>c. c < unat (sb_size (ks_sb st)) \<longrightarrow> used st' c = (c = b \<or> used st c)"
    and "\<exists>st''. bfree ROOTDEV (of_nat b) st' = Done st'' \<and> in_txn st'' pid m \<and>
           (\<forall>c. c < unat (sb_size (ks_sb st)) \<longrightarrow> used st'' c = used st c) \<and>
           bfree ROOTDEV (of_nat b) st'' = Panic ''freeing free block''"
proof -
  let ?sb = "ks_sb st"
  note lt = less_trans [OF _ sb_size_bound]
  have sb': "ks_sb st' = ?sb" "lg_start (ks_log st') = lg_start (ks_log st)" using fs_quietD [OF txn(2)] by simp_all
  have u: "used st' c = (c = b \<or> used st c)" if "c < unat (sb_size ?sb)" for c
    by (rule used_marked) (use v fs_layoutD(3) [OF lay b that] sb' lt [OF that] lt [OF b(1)] len in \<open>simp_all del: replicate.simps\<close>)
  then show "\<forall>c. c < unat (sb_size ?sb) \<longrightarrow> used st' c = (c = b \<or> used st c)" by simp
  have area: "LOGSIZE < unat (BBLOCK b ?sb - lg_start (ks_log st))" by (rule fs_layoutD(1) [OF lay b(1)])
  obtain st'' where st'': "bfree ROOTDEV (of_nat b) st' = Done st''" "in_txn st'' pid m" "op_keeps {} st' st''"
    "view st'' = (view st')(BBLOCK b ?sb := clear_bit (b mod BPB) (view st' (BBLOCK b ?sb)))"
    using bfree_ok [OF txn(1) lt [OF b(1)]] area u [OF b(1)] sb' by auto
  have u'': "used st'' c = used st c" if "c < unat (sb_size ?sb)" for c
    using used_cleared [of st'' st' b c] st''(4) sb'(1) fs_quietD(1) [OF op_keepsD(1) [OF st''(3)]] lt [OF b(1)] lt [OF that] in_op_view_length [OF txn(1)] u [OF that] b(2)
    by auto
  have "bfree ROOTDEV (of_nat b) st'' = Panic ''freeing free block''"
    by (rule bfree_free [OF st''(2) lt [OF b(1)]]) (use area fs_quietD(1,13) [OF op_keepsD(1) [OF st''(3)]] sb' u'' [OF b(1)] b(2) in simp_all)
  with st'' u'' show "\<exists>st''. bfree ROOTDEV (of_nat b) st' = Done st'' \<and> in_txn st'' pid m \<and>
      (\<forall>c. c < unat (sb_size ?sb) \<longrightarrow> used st'' c = used st c) \<and> bfree ROOTDEV (of_nat b) st'' = Panic ''freeing free block''"
    by (intro exI [of _ st'']) simp
qed

text \<open>
  Property C9: inside a transaction with room for three more blocks, on a disk whose boot block, log and
  bitmap are in use, \<open>balloc\<close> either returns the lowest free block, zeroed, marked in the bitmap and with no
  other block changed, and \<open>bfree\<close> then gives that block back, a second \<open>bfree\<close> panicking; or no block is
  free, and it returns 0, reports so on the console and changes no block.
\<close>

theorem balloc_first_free:
  assumes txn: "in_txn st pid (m + 3)" and lay: "fs_layout st"
  shows "(\<exists>b st'. b \<noteq> 0 \<and> b < unat (sb_size (ks_sb st)) \<and> \<not> used st b \<and> (\<forall>c. c < b \<longrightarrow> used st c) \<and>
            balloc ROOTDEV st = Done (of_nat b, st') \<and> view st' (of_nat b) = replicate BSIZE 0 \<and>
            (\<forall>c. c < unat (sb_size (ks_sb st)) \<longrightarrow> used st' c = (c = b \<or> used st c)) \<and>
            (\<forall>c. c \<noteq> of_nat b \<longrightarrow> c \<noteq> BBLOCK b (ks_sb st) \<longrightarrow> view st' c = view st c) \<and>
            (\<exists>st''. bfree ROOTDEV (of_nat b) st' = Done st'' \<and> in_txn st'' pid m \<and>
               (\<forall>c. c < unat (sb_size (ks_sb st)) \<longrightarrow> used st'' c = used st c) \<and>
               bfree ROOTDEV (of_nat b) st'' = Panic ''freeing free block'')) \<or>
         (\<forall>c. c < unat (sb_size (ks_sb st)) \<longrightarrow> used st c) \<and>
         (\<exists>st'. balloc ROOTDEV st = Done (0, st') \<and> view st' = view st \<and> in_txn st' pid (m + 3) \<and>
            ks_out st' = ks_out st @ map of_char (''balloc: out of blocks'' @ [CHR 0x0A]))"
proof -
  let ?sb = "ks_sb st"
  have "in_txn st pid (Suc m + 2)" using txn by (simp add: numeral_3_eq_3)
  from balloc_loop_ok [OF _ this lay refl, of 0]
  have "balloc_post 0 pid (Suc m) {} st (balloc ROOTDEV st)" by (simp add: balloc_def)
  then consider
    (got) b st' where "b < unat (sb_size ?sb)" "\<not> used st b" "\<forall>c. c < b \<longrightarrow> used st c" "balloc ROOTDEV st = Done (of_nat b, st')"
      "in_txn st' pid (Suc m)" "fs_quiet st st'"
      "view st' = (view st)(BBLOCK b ?sb := mark_bit (b mod BPB) (view st (BBLOCK b ?sb)), of_nat b := replicate BSIZE 0)"
  | (full) st' where "\<forall>c. c < unat (sb_size ?sb) \<longrightarrow> used st c"
      "balloc ROOTDEV st = Done (0, kputs (''balloc: out of blocks'' @ [CHR 0x0A]) st')" "in_txn st' pid (Suc m + 2)" "fs_quiet st st'" "view st' = view st"
    unfolding balloc_post_def by (elim disjE exE conjE) (simp_all add: op_keepsD(1) del: replicate.simps)
  then show ?thesis
  proof cases
    case got
    have "b \<noteq> 0" using got(2) lay by (metis fs_layout_def)
    moreover note balloc_bfree [OF lay got(1,2,5,6) in_op_view_length [OF txn] got(7)]
    moreover have "view st' (of_nat b) = replicate BSIZE 0" using got(7) by (simp del: replicate.simps)
    moreover have "\<forall>c. c \<noteq> of_nat b \<longrightarrow> c \<noteq> BBLOCK b ?sb \<longrightarrow> view st' c = view st c" using got(7) by simp
    ultimately show ?thesis using got(1-4) by blast
  next
    case full
    then show ?thesis using fs_quietD(6) [OF full(4)]
      by (intro disjI2 conjI exI [of _ "kputs (''balloc: out of blocks'' @ [CHR 0x0A]) st'"]) (simp_all add: numeral_3_eq_3)
  qed
qed

text \<open>A transaction on a disk of 2000 blocks whose first 48 are in use.\<close>

definition bitmap_disk :: "u32 \<Rightarrow> u8 list" where
  "bitmap_disk = zero_disk(45 := replicate 6 255 @ replicate 1018 0)"

definition txn_bitmap :: kst where
  "txn_bitmap = (upd_log (\<lambda>l. l\<lparr>lg_start := 2, lg_size := 30, lg_outstanding := 1, lg_dev := ROOTDEV\<rparr>)
     (demo_kst demo_sys bitmap_disk))\<lparr>ks_sb := demo_sb\<rparr>"

lemma bitmap_disk_length: "\<forall>b. length (bitmap_disk b) = BSIZE"
  by (simp add: bitmap_disk_def zero_disk_def del: replicate.simps)

lemma sb_upd_simps [simp]:
  "view (st\<lparr>ks_sb := sb\<rparr>) = view st" "refs (st\<lparr>ks_sb := sb\<rparr>) = refs st" "owner (st\<lparr>ks_sb := sb\<rparr>) = owner st"
  "bcache_ok (st\<lparr>ks_sb := sb\<rparr>) = bcache_ok st" "mypid (st\<lparr>ks_sb := sb\<rparr>) = mypid st"
  by (auto simp: mypid_def current_def view_def refs_def owner_def bcache_ok_def fun_eq_iff split: option.split)

lemma idle_sb [simp]: "idle (st\<lparr>ks_sb := sb\<rparr>) = idle st"
  by (simp add: idle_def)

lemma txn_bitmap_idle: "idle txn_bitmap"
  using demo_idle [OF bitmap_disk_length] by (simp add: txn_bitmap_def idle_def)

lemma txn_bitmap_txn: "in_txn txn_bitmap (p_pid (the_proc (sy_pt demo_sys) 0)) 5"
  by (rule idle_in_txn [OF txn_bitmap_idle])
    (simp_all add: txn_bitmap_def demo_mypid demo_kst_bufs zero_log_def head_zero bitmap_disk_def del: replicate.simps)

lemma txn_bitmap_used: "b < 2000 \<Longrightarrow> used txn_bitmap b \<longleftrightarrow> b < 48"
proof -
  assume "b < 2000"
  moreover have "view txn_bitmap 45 = replicate 6 255 @ replicate 1018 0"
    using txn_bitmap_idle by (simp add: idle_def txn_bitmap_def demo_kst_bufs bitmap_disk_def del: replicate.simps)
  moreover have "bit (255 :: u8) (b mod 8)"
  proof -
    have "(255 :: u8) = - 1" by simp
    then show ?thesis by (simp only: bit_minus_1_iff) simp
  qed
  ultimately show ?thesis
    by (auto simp: used_def BBLOCK_def txn_bitmap_def demo_sb_def bit_set_eq nth_append simp del: replicate.simps)
qed

lemma txn_bitmap_layout: "fs_layout txn_bitmap"
proof -
  have sb: "ks_sb txn_bitmap = demo_sb" "lg_start (ks_log txn_bitmap) = 2" by (simp_all add: txn_bitmap_def)
  have B: "BBLOCK b demo_sb = 45" if "b < 2000" for b using that by (simp add: BBLOCK_def demo_sb_def)
  have "LOGSIZE < unat ((of_nat b :: u32) - 2)" "(of_nat b :: u32) \<noteq> 45" if "48 \<le> b" "b < 2000" for b
  proof -
    have "of_nat b - 2 = (of_nat (b - 2) :: u32)" using that by (simp add: of_nat_diff)
    moreover have "unat (of_nat (b - 2) :: u32) = b - 2" using that by (simp only: unat_of_nat) simp
    ultimately show "LOGSIZE < unat ((of_nat b :: u32) - 2)" using that by simp
    have "unat (of_nat b :: u32) = b" using that by (simp add: unat_of_nat)
    then show "(of_nat b :: u32) \<noteq> 45" using that by auto
  qed
  then show ?thesis unfolding fs_layout_def Let_def sb using txn_bitmap_used B
    by (force simp: demo_sb_def)
qed

theorem balloc_first_free_witness:
  "\<exists>b st'. \<not> used txn_bitmap b \<and> balloc ROOTDEV txn_bitmap = Done (of_nat b, st') \<and> view st' (of_nat b) = replicate BSIZE 0"
  using balloc_first_free [of txn_bitmap _ 2, simplified, OF txn_bitmap_txn txn_bitmap_layout] txn_bitmap_used [of 1999]
  by (auto simp: txn_bitmap_def demo_sb_def)

end
