(* ===== verification/Inode.thy ===== *)
theory Inode
  imports Fs
begin

text \<open>
  \<^verbatim>\<open>kernel/fs.c\<close>, the inode layer: the table of in-memory inodes, their copies on disk, the blocks of
  an inode and reading and writing its content. A pointer to an inode is an index into the
  table. Byte counts inside the loops of \<open>readi\<close> and \<open>writei\<close> are natural numbers: the tests at
  their heads exclude a wrap-around of the 32-bit offsets.
\<close>

section \<open>Inodes on disk\<close>

abbreviation IPB :: nat where
  "IPB \<equiv> 16"

abbreviation MAXFILE :: nat where
  "MAXFILE \<equiv> NDIRECT + NINDIRECT"

definition IBLOCK :: "u32 \<Rightarrow> superblock \<Rightarrow> u32" where
  "IBLOCK i sb = i div 16 + sb_inodestart sb"

abbreviation T_DIR :: u16 where
  "T_DIR \<equiv> 1"

abbreviation T_FILE :: u16 where
  "T_FILE \<equiv> 2"

abbreviation T_DEVICE :: u16 where
  "T_DEVICE \<equiv> 3"

text \<open>The 64 bytes of a \<^verbatim>\<open>struct dinode\<close>, and the one in slot \<open>k\<close> of a block.\<close>

definition dinode_bytes :: "dinode \<Rightarrow> u8 list" where
  "dinode_bytes d = le16 (di_type d) @ le16 (di_major d) @ le16 (di_minor d) @ le16 (di_nlink d) @
     le32 (di_size d) @ concat (map le32 (di_addrs d))"

definition get_dinode :: "nat \<Rightarrow> u8 list \<Rightarrow> dinode" where
  "get_dinode k bs = (let o' = 64 * k in
     \<lparr>di_type = get16 o' bs, di_major = get16 (o' + 2) bs, di_minor = get16 (o' + 4) bs, di_nlink = get16 (o' + 6) bs,
      di_size = get32 (o' + 8) bs, di_addrs = map (\<lambda>j. get32 (o' + 12 + 4 * j) bs) [0..<Suc NDIRECT]\<rparr>)"

definition put_dinode :: "nat \<Rightarrow> dinode \<Rightarrow> u8 list \<Rightarrow> u8 list" where
  "put_dinode k d bs = splice (64 * k) (dinode_bytes d) bs"

definition zero_dinode :: dinode where
  "zero_dinode = \<lparr>di_type = 0, di_major = 0, di_minor = 0, di_nlink = 0, di_size = 0, di_addrs = replicate (Suc NDIRECT) 0\<rparr>"

section \<open>The inode table\<close>

abbreviation the_inode :: "kst \<Rightarrow> nat \<Rightarrow> inode" where
  "the_inode st ip \<equiv> ks_inodes st ! ip"

definition set_inode :: "nat \<Rightarrow> (inode \<Rightarrow> inode) \<Rightarrow> kst \<Rightarrow> kst" where
  "set_inode ip f st = st\<lparr>ks_inodes := (ks_inodes st)[ip := f (the_inode st ip)]\<rparr>"

definition iinit :: "kst \<Rightarrow> kst" where
  "iinit st = st\<lparr>ks_inodes := map (\<lambda>n. n\<lparr>i_lock := initsleeplock ''inode''\<rparr>) (ks_inodes st)\<rparr>"

text \<open>\<open>iget\<close>: the entry that holds the inode, or else the first unused one.\<close>

definition iget :: "u32 \<Rightarrow> u32 \<Rightarrow> kst \<Rightarrow> (nat \<times> kst) outcome" where
  "iget dev inum st =
     (let ns = ks_inodes st in
      case find (\<lambda>i. i_ref (ns ! i) > 0 \<and> i_dev (ns ! i) = dev \<and> i_inum (ns ! i) = inum) [0..<length ns] of
        Some i \<Rightarrow> Done (i, set_inode i (\<lambda>n. n\<lparr>i_ref := i_ref n + 1\<rparr>) st)
      | None \<Rightarrow>
          (case find (\<lambda>i. i_ref (ns ! i) = 0) [0..<length ns] of
             None \<Rightarrow> Panic ''iget: no inodes''
           | Some i \<Rightarrow> Done (i, set_inode i (\<lambda>n. n\<lparr>i_dev := dev, i_inum := inum, i_ref := 1, i_valid := False\<rparr>) st)))"

text \<open>The loop of \<open>ialloc\<close> from inode \<open>inum\<close> on.\<close>

function ialloc_loop :: "u32 \<Rightarrow> u16 \<Rightarrow> superblock \<Rightarrow> nat \<Rightarrow> kst \<Rightarrow> (nat option \<times> kst) outcome" where
  "ialloc_loop dev type sb inum st =
     (if inum < unat (sb_ninodes sb) then
        obind (bread dev (IBLOCK (of_nat inum) sb) st) (\<lambda>(bp, st).
          let d = buf_data bp st in
          if di_type (get_dinode (inum mod IPB) d) = 0 then
            obind (log_write bp (set_data bp (put_dinode (inum mod IPB) (zero_dinode\<lparr>di_type := type\<rparr>) d) st)) (\<lambda>st.
            obind (brelse bp st) (\<lambda>st.
            obind (iget dev (of_nat inum) st) (\<lambda>(ip, st). Done (Some ip, st))))
          else obind (brelse bp st) (ialloc_loop dev type sb (Suc inum)))
      else Done (None, kputs (''ialloc: no inodes'' @ [CHR 0x0A]) st))"
  by pat_completeness auto
termination
  by (relation "measure (\<lambda>(dev, type, sb, inum, st). unat (sb_ninodes sb) - inum)") auto

declare ialloc_loop.simps [simp del]

definition ialloc :: "u32 \<Rightarrow> u16 \<Rightarrow> kst \<Rightarrow> (nat option \<times> kst) outcome" where
  "ialloc dev type st = ialloc_loop dev type (ks_sb st) 1 st"

definition iupdate :: "nat \<Rightarrow> kst \<Rightarrow> kst outcome" where
  "iupdate ip st =
     (let n = the_inode st ip in
      obind (bread (i_dev n) (IBLOCK (i_inum n) (ks_sb st)) st) (\<lambda>(bp, st).
      obind (log_write bp (set_data bp (put_dinode (unat (i_inum n) mod IPB) (i_d n) (buf_data bp st)) st)) (brelse bp)))"

definition idup :: "nat \<Rightarrow> kst \<Rightarrow> nat \<times> kst" where
  "idup ip st = (ip, set_inode ip (\<lambda>n. n\<lparr>i_ref := i_ref n + 1\<rparr>) st)"

text \<open>Taking and releasing the sleep lock of an inode.\<close>

definition lock_inode :: "nat \<Rightarrow> kst \<Rightarrow> kst outcome" where
  "lock_inode ip st = obind (mypid st) (\<lambda>pid.
     obind (acquiresleep pid (i_lock (the_inode st ip))) (\<lambda>lk. Done (set_inode ip (\<lambda>n. n\<lparr>i_lock := lk\<rparr>) st)))"

definition unlock_inode :: "nat \<Rightarrow> kst \<Rightarrow> kst" where
  "unlock_inode ip st = kwakeup (ChanInode ip) (set_inode ip (\<lambda>n. n\<lparr>i_lock := releasesleep (i_lock n)\<rparr>) st)"

definition ilock :: "nat option \<Rightarrow> kst \<Rightarrow> kst outcome" where
  "ilock p st = (case p of
     None \<Rightarrow> Panic ''ilock''
   | Some ip \<Rightarrow>
       if i_ref (the_inode st ip) < 1 then Panic ''ilock''
       else obind (lock_inode ip st) (\<lambda>st.
         if \<not> i_valid (the_inode st ip) then
           let n = the_inode st ip in
           obind (bread (i_dev n) (IBLOCK (i_inum n) (ks_sb st)) st) (\<lambda>(bp, st).
           let st = set_inode ip (\<lambda>n. n\<lparr>i_d := get_dinode (unat (i_inum n) mod IPB) (buf_data bp st)\<rparr>) st in
           obind (brelse bp st) (\<lambda>st.
           let st = set_inode ip (\<lambda>n. n\<lparr>i_valid := True\<rparr>) st in
           if di_type (i_d (the_inode st ip)) = 0 then Panic ''ilock: no type'' else Done st))
         else Done st))"

definition iunlock :: "nat option \<Rightarrow> kst \<Rightarrow> kst outcome" where
  "iunlock p st = (case p of
     None \<Rightarrow> Panic ''iunlock''
   | Some ip \<Rightarrow> obind (mypid st) (\<lambda>pid.
       if \<not> holdingsleep pid (i_lock (the_inode st ip)) \<or> i_ref (the_inode st ip) < 1 then Panic ''iunlock''
       else Done (unlock_inode ip st)))"

section \<open>The blocks of an inode\<close>

abbreviation addr_of :: "kst \<Rightarrow> nat \<Rightarrow> nat \<Rightarrow> u32" where
  "addr_of st ip k \<equiv> di_addrs (i_d (the_inode st ip)) ! k"

definition set_addr :: "nat \<Rightarrow> nat \<Rightarrow> u32 \<Rightarrow> kst \<Rightarrow> kst" where
  "set_addr ip k a st = set_inode ip (\<lambda>n. n\<lparr>i_d := (i_d n)\<lparr>di_addrs := (di_addrs (i_d n))[k := a]\<rparr>\<rparr>) st"

text \<open>The block in slot \<open>k\<close> of the inode, which \<open>bmap\<close> allocates when there is none.\<close>

definition bmap_slot :: "nat \<Rightarrow> nat \<Rightarrow> kst \<Rightarrow> (u32 \<times> kst) outcome" where
  "bmap_slot ip k st =
     (if addr_of st ip k = 0 then
        obind (balloc (i_dev (the_inode st ip)) st) (\<lambda>(addr, st).
          if addr = 0 then Done (0, st) else Done (addr, set_addr ip k addr st))
      else Done (addr_of st ip k, st))"

definition bmap :: "nat \<Rightarrow> u32 \<Rightarrow> kst \<Rightarrow> (u32 \<times> kst) outcome" where
  "bmap ip bn st =
     (if unat bn < NDIRECT then bmap_slot ip (unat bn) st
      else let k = unat bn - NDIRECT in
      if k < NINDIRECT then
        obind (bmap_slot ip NDIRECT st) (\<lambda>(addr, st).
          if addr = 0 then Done (0, st)
          else obind (bread (i_dev (the_inode st ip)) addr st) (\<lambda>(bp, st).
            let a = get32 (4 * k) (buf_data bp st) in
            obind (if a = 0 then
                     obind (balloc (i_dev (the_inode st ip)) st) (\<lambda>(a, st).
                       if a \<noteq> 0
                       then obind (log_write bp (set_data bp (put32 (4 * k) a (buf_data bp st)) st)) (\<lambda>st. Done (a, st))
                       else Done (a, st))
                   else Done (a, st)) (\<lambda>(a, st).
            obind (brelse bp st) (\<lambda>st. Done (a, st)))))
      else Panic ''bmap: out of range'')"

definition itrunc :: "nat \<Rightarrow> kst \<Rightarrow> kst outcome" where
  "itrunc ip st =
     obind (ofold (\<lambda>k st.
       if addr_of st ip k \<noteq> 0
       then obind (bfree (i_dev (the_inode st ip)) (addr_of st ip k) st) (\<lambda>st. Done (set_addr ip k 0 st))
       else Done st) [0..<NDIRECT] st) (\<lambda>st.
     obind (if addr_of st ip NDIRECT \<noteq> 0 then
         obind (bread (i_dev (the_inode st ip)) (addr_of st ip NDIRECT) st) (\<lambda>(bp, st).
         obind (ofold (\<lambda>j st.
           if get32 (4 * j) (buf_data bp st) \<noteq> 0
           then bfree (i_dev (the_inode st ip)) (get32 (4 * j) (buf_data bp st)) st
           else Done st) [0..<NINDIRECT] st) (\<lambda>st.
         obind (brelse bp st) (\<lambda>st.
         obind (bfree (i_dev (the_inode st ip)) (addr_of st ip NDIRECT) st) (\<lambda>st.
         Done (set_addr ip NDIRECT 0 st)))))
       else Done st) (\<lambda>st.
     iupdate ip (set_inode ip (\<lambda>n. n\<lparr>i_d := (i_d n)\<lparr>di_size := 0\<rparr>\<rparr>) st)))"

definition iput :: "nat \<Rightarrow> kst \<Rightarrow> kst outcome" where
  "iput ip st =
     obind (let n = the_inode st ip in
            if i_ref n = 1 \<and> i_valid n \<and> di_nlink (i_d n) = 0 then
              obind (lock_inode ip st) (\<lambda>st.
              obind (itrunc ip st) (\<lambda>st.
              obind (iupdate ip (set_inode ip (\<lambda>n. n\<lparr>i_d := (i_d n)\<lparr>di_type := 0\<rparr>\<rparr>) st)) (\<lambda>st.
              Done (unlock_inode ip (set_inode ip (\<lambda>n. n\<lparr>i_valid := False\<rparr>) st)))))
            else Done st)
       (\<lambda>st. Done (set_inode ip (\<lambda>n. n\<lparr>i_ref := i_ref n - 1\<rparr>) st))"

definition iunlockput :: "nat \<Rightarrow> kst \<Rightarrow> kst outcome" where
  "iunlockput ip st = obind (iunlock (Some ip) st) (iput ip)"

text \<open>\<^verbatim>\<open>struct stat\<close>, with the four bytes of padding before its size.\<close>

record stat =
  st_dev :: u32
  st_ino :: u32
  st_type :: u16
  st_nlink :: u16
  st_size :: u64

definition stati :: "nat \<Rightarrow> kst \<Rightarrow> stat" where
  "stati ip st = (let n = the_inode st ip in
     \<lparr>st_dev = i_dev n, st_ino = i_inum n, st_type = di_type (i_d n), st_nlink = di_nlink (i_d n), st_size = ucast (di_size (i_d n))\<rparr>)"

definition stat_bytes :: "u8 list \<Rightarrow> stat \<Rightarrow> u8 list" where
  "stat_bytes pad s = le32 (st_dev s) @ le32 (st_ino s) @ le16 (st_type s) @ le16 (st_nlink s) @ pad @ le64 (st_size s)"

section \<open>Reading and writing\<close>

text \<open>
  Where the bytes go or come from: a user address, a kernel address, or a variable of the caller,
  whose content is then part of the result or the argument.
\<close>

datatype dest = UserDst u64 | KernDst u64 | LocalDst

datatype origin = UserSrc u64 | KernSrc u64 | LocalSrc "u8 list"

fun advance_dst :: "nat \<Rightarrow> dest \<Rightarrow> dest" where
  "advance_dst m (UserDst a) = UserDst (a + of_nat m)"
| "advance_dst m (KernDst a) = KernDst (a + of_nat m)"
| "advance_dst m LocalDst = LocalDst"

fun advance_src :: "nat \<Rightarrow> origin \<Rightarrow> origin" where
  "advance_src m (UserSrc a) = UserSrc (a + of_nat m)"
| "advance_src m (KernSrc a) = KernSrc (a + of_nat m)"
| "advance_src m (LocalSrc bs) = LocalSrc (drop m bs)"

definition kcopyout :: "bool \<Rightarrow> u64 \<Rightarrow> u8 list \<Rightarrow> kst \<Rightarrow> (int \<times> kst) outcome" where
  "kcopyout user_dst dst bs st = obind (current st) (\<lambda>me.
     obind (either_copyout user_dst dst bs me (kpt st)) (\<lambda>(r, pt). Done (r, set_pt pt st)))"

definition kcopyin :: "bool \<Rightarrow> u64 \<Rightarrow> nat \<Rightarrow> kst \<Rightarrow> (int \<times> u8 list) outcome" where
  "kcopyin user_src src n st = obind (current st) (\<lambda>me. either_copyin user_src src n me (kpt st))"

fun copy_to :: "dest \<Rightarrow> u8 list \<Rightarrow> kst \<Rightarrow> (int \<times> kst) outcome" where
  "copy_to (UserDst a) bs st = kcopyout True a bs st"
| "copy_to (KernDst a) bs st = kcopyout False a bs st"
| "copy_to LocalDst bs st = Done (0, st)"

fun copy_from :: "origin \<Rightarrow> nat \<Rightarrow> kst \<Rightarrow> (int \<times> u8 list) outcome" where
  "copy_from (UserSrc a) n st = kcopyin True a n st"
| "copy_from (KernSrc a) n st = kcopyin False a n st"
| "copy_from (LocalSrc bs) n st = (if n \<le> length bs then Done (0, take n bs) else Fault)"

text \<open>The loop of \<open>readi\<close>, with \<open>n\<close> bytes left to copy; the bytes of a local destination are returned.\<close>

function readi_loop :: "nat \<Rightarrow> dest \<Rightarrow> nat \<Rightarrow> nat \<Rightarrow> nat \<Rightarrow> kst \<Rightarrow> (u32 \<times> u8 list \<times> kst) outcome" where
  "readi_loop ip dst off n tot st =
     (if n = 0 then Done (of_nat tot, [], st)
      else obind (bmap ip (of_nat (off div BSIZE)) st) (\<lambda>(addr, st).
        if addr = 0 then Done (of_nat tot, [], st)
        else obind (bread (i_dev (the_inode st ip)) addr st) (\<lambda>(bp, st).
          let m = min n (BSIZE - off mod BSIZE); bs = slice (off mod BSIZE) m (buf_data bp st) in
          obind (copy_to dst bs st) (\<lambda>(r, st).
          obind (brelse bp st) (\<lambda>st.
            if r = -1 then Done (-1, [], st)
            else obind (readi_loop ip (advance_dst m dst) (off + m) (n - m) (tot + m) st) (\<lambda>(t, cs, st).
              Done (t, bs @ cs, st)))))))"
  by pat_completeness auto
termination
  by (relation "measure (\<lambda>(ip, dst, off, n, tot, st). n)") auto

declare readi_loop.simps [simp del]

definition readi :: "nat \<Rightarrow> dest \<Rightarrow> u32 \<Rightarrow> u32 \<Rightarrow> kst \<Rightarrow> (u32 \<times> u8 list \<times> kst) outcome" where
  "readi ip dst off n st =
     (let sz = di_size (i_d (the_inode st ip)) in
      if off > sz \<or> off + n < off then Done (0, [], st)
      else let n = (if off + n > sz then sz - off else n) in
        readi_loop ip dst (unat off) (unat n) 0 st)"

text \<open>
  The loop of \<open>writei\<close>; its results are \<open>tot\<close>, \<open>off\<close> and the state. When the copy fails the bytes that
  it has stored stay in the buffer, which is released without being logged.
\<close>

function writei_loop :: "nat \<Rightarrow> origin \<Rightarrow> nat \<Rightarrow> nat \<Rightarrow> nat \<Rightarrow> kst \<Rightarrow> (nat \<times> nat \<times> kst) outcome" where
  "writei_loop ip src off n tot st =
     (if n = 0 then Done (tot, off, st)
      else obind (bmap ip (of_nat (off div BSIZE)) st) (\<lambda>(addr, st).
        if addr = 0 then Done (tot, off, st)
        else obind (bread (i_dev (the_inode st ip)) addr st) (\<lambda>(bp, st).
          let m = min n (BSIZE - off mod BSIZE) in
          obind (copy_from src m st) (\<lambda>(r, bs).
            let st = set_data bp (splice (off mod BSIZE) bs (buf_data bp st)) st in
            if r = -1 then obind (brelse bp st) (\<lambda>st. Done (tot, off, st))
            else obind (log_write bp st) (\<lambda>st.
              obind (brelse bp st) (writei_loop ip (advance_src m src) (off + m) (n - m) (tot + m)))))))"
  by pat_completeness auto
termination
  by (relation "measure (\<lambda>(ip, src, off, n, tot, st). n)") auto

declare writei_loop.simps [simp del]

definition writei :: "nat \<Rightarrow> origin \<Rightarrow> u32 \<Rightarrow> u32 \<Rightarrow> kst \<Rightarrow> (u32 \<times> kst) outcome" where
  "writei ip src off n st =
     (if off > di_size (i_d (the_inode st ip)) \<or> off + n < off then Done (-1, st)
      else if unat (off + n) > MAXFILE * BSIZE then Done (-1, st)
      else obind (writei_loop ip src (unat off) (unat n) 0 st) (\<lambda>(tot, off, st).
        let st = (if off > unat (di_size (i_d (the_inode st ip)))
                  then set_inode ip (\<lambda>n. n\<lparr>i_d := (i_d n)\<lparr>di_size := of_nat off\<rparr>\<rparr>) st else st) in
        obind (iupdate ip st) (\<lambda>st. Done (of_nat tot, st))))"

end
