(* ===== verification/Printf.thy ===== *)
theory Printf
  imports Prelude CString
begin

text \<open>
  The formatted output of \<^verbatim>\<open>kernel/printf.c\<close>, as the bytes that it sends to the console. A format is
  a byte array that ends with a zero byte; reading past its end, or an argument that is not there,
  is \<open>Fault\<close>, and so is a number with more characters than the buffer of \<open>printint\<close> has.
\<close>

text \<open>A terminated byte array from a string literal.\<close>

definition str0 :: "string \<Rightarrow> u8 list" where
  "str0 s = map of_char s @ [0]"

definition digit :: "nat \<Rightarrow> u8" where
  "digit d = map of_char ''0123456789abcdef'' ! d"

text \<open>The digits in the order in which the loop of \<open>printint\<close> stores them, the lowest first.\<close>

function digits_of :: "nat \<Rightarrow> nat \<Rightarrow> nat list" where
  "digits_of base x = (x mod base) # (if x div base = 0 \<or> base < 2 then [] else digits_of base (x div base))"
  by pat_completeness auto
termination
  by (relation "measure snd") (auto simp: div_eq_0_iff)

declare digits_of.simps [simp del]

abbreviation MINUS :: u8 where
  "MINUS \<equiv> 0x2D"

definition printint :: "u64 \<Rightarrow> nat \<Rightarrow> bool \<Rightarrow> u8 list outcome" where
  "printint xx base sign =
     (let sign = (sign \<and> sint xx < 0);
          x = (if sign then - xx else xx);
          buf = map digit (digits_of base (unat x)) @ (if sign then [MINUS] else [])
      in if length buf > 16 then Fault else Done (rev buf))"

definition printptr :: "u64 \<Rightarrow> u8 list" where
  "printptr x = map of_char ''0x'' @ map (\<lambda>i. digit (unat (drop_bit 60 (push_bit (4 * i) x)))) [0..<16]"

text \<open>The arguments, and the directives that \<open>printf\<close> understands with their lengths.\<close>

datatype vararg = VInt u64 | VStr "u8 list option"

datatype directive = DInt nat bool bool | DPtr | DStr | DPercent | DEnd | DUnknown u8

abbreviation chr :: "char \<Rightarrow> u8" where
  "chr c \<equiv> of_char c"

definition directive_of :: "u8 \<Rightarrow> u8 \<Rightarrow> u8 \<Rightarrow> directive \<times> nat" where
  "directive_of c0 c1 c2 =
     (if c0 = chr CHR ''d'' then (DInt 10 True False, 1)
      else if c0 = chr CHR ''l'' \<and> c1 = chr CHR ''d'' then (DInt 10 True True, 2)
      else if c0 = chr CHR ''l'' \<and> c1 = chr CHR ''l'' \<and> c2 = chr CHR ''d'' then (DInt 10 True True, 3)
      else if c0 = chr CHR ''u'' then (DInt 10 False False, 1)
      else if c0 = chr CHR ''l'' \<and> c1 = chr CHR ''u'' then (DInt 10 False True, 2)
      else if c0 = chr CHR ''l'' \<and> c1 = chr CHR ''l'' \<and> c2 = chr CHR ''u'' then (DInt 10 False True, 3)
      else if c0 = chr CHR ''x'' then (DInt 16 False False, 1)
      else if c0 = chr CHR ''l'' \<and> c1 = chr CHR ''x'' then (DInt 16 False True, 2)
      else if c0 = chr CHR ''l'' \<and> c1 = chr CHR ''l'' \<and> c2 = chr CHR ''x'' then (DInt 16 False True, 3)
      else if c0 = chr CHR ''p'' then (DPtr, 1)
      else if c0 = chr CHR ''s'' then (DStr, 1)
      else if c0 = chr CHR ''%'' then (DPercent, 1)
      else if c0 = 0 then (DEnd, 0)
      else (DUnknown c0, 1))"

text \<open>
  Carrying out a directive: the bytes that it prints and the arguments that are left. A 32-bit
  argument is an \<^verbatim>\<open>int\<close>, whose sign is extended, for \<^verbatim>\<open>%u\<close> and \<^verbatim>\<open>%x\<close> too.
\<close>

fun run_directive :: "directive \<Rightarrow> vararg list \<Rightarrow> (u8 list \<times> vararg list) outcome" where
  "run_directive (DInt base sign long) (VInt v # vs) =
     obind (printint (if long then v else scast (ucast v :: u32)) base sign) (\<lambda>bs. Done (bs, vs))"
| "run_directive DPtr (VInt v # vs) = Done (printptr v, vs)"
| "run_directive DStr (VStr None # vs) = Done (map of_char ''(null)'', vs)"
| "run_directive DStr (VStr (Some s) # vs) = (if 0 \<in> set s then Done (cstr s, vs) else Fault)"
| "run_directive DPercent vs = Done ([chr CHR ''%''], vs)"
| "run_directive (DUnknown c) vs = Done ([chr CHR ''%'', c], vs)"
| "run_directive DEnd vs = Done ([], vs)"
| "run_directive _ _ = Fault"

function printf :: "u8 list \<Rightarrow> vararg list \<Rightarrow> u8 list outcome" where
  "printf [] vs = Fault"
| "printf (cx # fmt) vs =
     (if cx = 0 then Done []
      else if cx \<noteq> chr CHR ''%'' then obind (printf fmt vs) (\<lambda>bs. Done (cx # bs))
      else if fmt = [] then Fault
      else let c0 = hd fmt in
        if c0 \<noteq> 0 \<and> tl fmt = [] then Fault
        else let c1 = (if c0 \<noteq> 0 then hd (tl fmt) else 0) in
        if c1 \<noteq> 0 \<and> tl (tl fmt) = [] then Fault
        else let c2 = (if c1 \<noteq> 0 then hd (tl (tl fmt)) else 0) in
        case directive_of c0 c1 c2 of (d, k) \<Rightarrow>
          if d = DEnd then Done []
          else obind (run_directive d vs) (\<lambda>(bs, vs).
            obind (printf (drop k fmt) vs) (\<lambda>cs. Done (bs @ cs))))"
  by pat_completeness auto
termination
  by (relation "measure (\<lambda>(fmt, vs). length fmt)") auto

declare printf.simps [simp del]

section \<open>Numbers\<close>

fun value_of :: "nat \<Rightarrow> nat list \<Rightarrow> nat" where
  "value_of base [] = 0"
| "value_of base (d # ds) = d + base * value_of base ds"

lemma digits_of_step:
  "2 \<le> base \<Longrightarrow> x < base \<Longrightarrow> digits_of base x = [x]"
  "2 \<le> base \<Longrightarrow> base \<le> x \<Longrightarrow> digits_of base x = x mod base # digits_of base (x div base)"
  by (subst digits_of.simps, simp add: div_eq_0_iff)+

lemma digits_of_value: "2 \<le> base \<Longrightarrow> value_of base (digits_of base x) = x"
proof (induction x rule: less_induct)
  case (less x)
  then show ?case by (cases "x < base") (simp_all add: digits_of_step div_less_dividend)
qed

lemma digits_of_less: "2 \<le> base \<Longrightarrow> d \<in> set (digits_of base x) \<Longrightarrow> d < base"
proof (induction x rule: less_induct)
  case (less x)
  then show ?case using less.IH [of "x div base"] by (cases "x < base") (auto simp: digits_of_step)
qed

lemma digits_of_length: "2 \<le> base \<Longrightarrow> length (digits_of base x) \<le> Suc k \<longleftrightarrow> x < base ^ Suc k"
proof (induction k arbitrary: x)
  case 0
  have "0 < length (digits_of base (x div base))" by (subst digits_of.simps) simp
  then show ?case using 0 by (cases "x < base") (simp_all add: digits_of_step not_less)
next
  case (Suc k)
  show ?case
  proof (cases "x < base")
    case True
    moreover have "base ^ 1 \<le> base ^ Suc (Suc k)" by (rule power_increasing) (use Suc.prems in simp_all)
    ultimately have "x < base ^ Suc (Suc k)" by (metis power_one_right order_less_le_trans)
    then show ?thesis using True Suc.prems by (simp add: digits_of_step)
  next
    case False
    then show ?thesis using Suc.IH [OF Suc.prems, of "x div base"] Suc.prems
      by (simp add: digits_of_step not_less div_less_iff_less_mult mult.commute)
  qed
qed

lemma uint_of_sint:
  "uint (x :: u64) = take_bit 64 (sint x)" "uint (- x) = take_bit 64 (- sint x)"
  using uint_word_of_int_eq [of "sint x", where 'a = 64] uint_word_of_int_eq [of "- sint x", where 'a = 64] by simp_all

lemma sint_abs: "unat (if sint (x :: u64) < 0 then - x else x) = nat \<bar>sint x\<bar>"
proof -
  have "sint x < 2 ^ 63" "- sint x \<le> 2 ^ 63" using sint_lt [of x] sint_ge [of x] by simp_all
  then have "uint (if sint x < 0 then - x else x) = \<bar>sint x\<bar>"
    using uint_of_sint [of x] by (auto simp: take_bit_int_eq_self)
  then show ?thesis by (metis nat_uint_eq)
qed


end
