(* ===== verification/Console.thy ===== *)
theory Console
  imports Fs Printf
begin

text \<open>
  \<^verbatim>\<open>kernel/console.c\<close>, \<^verbatim>\<open>kernel/uart.c\<close> and the printing of the process list. What is written to the
  transmit register goes to \<open>ks_out\<close>; \<open>uartputc_sync\<close> waits for the register, which always becomes
  empty. The counters of the input buffer are 32-bit words, its contents bytes.
\<close>

section \<open>The serial port\<close>

abbreviation UART_TX_BUF_SIZE :: nat where
  "UART_TX_BUF_SIZE \<equiv> 32"

definition write_thr :: "u8 \<Rightarrow> kst \<Rightarrow> kst" where
  "write_thr c st = st\<lparr>ks_out := ks_out st @ [c]\<rparr>"

definition uartputc_sync :: "u8 \<Rightarrow> kst \<Rightarrow> kst" where
  "uartputc_sync c st = write_thr c st"

definition upd_uart :: "(uart \<Rightarrow> uart) \<Rightarrow> kst \<Rightarrow> kst" where
  "upd_uart f st = st\<lparr>ks_uart := f (ks_uart st)\<rparr>"

text \<open>One read of the line status: can the transmit register take a byte?\<close>

definition tx_idle :: "kst \<Rightarrow> bool \<times> kst" where
  "tx_idle st = (case ua_idle (ks_uart st) of
     [] \<Rightarrow> (False, st) | b # bs \<Rightarrow> (b, upd_uart (\<lambda>u. u\<lparr>ua_idle := bs\<rparr>) st))"

function uartstart :: "kst \<Rightarrow> kst" where
  "uartstart st =
     (if ua_tx_w (ks_uart st) = ua_tx_r (ks_uart st) then st
      else case tx_idle st of (ready, st) \<Rightarrow>
        if \<not> ready then st
        else let c = ua_tx_buf (ks_uart st) ! unat (ua_tx_r (ks_uart st) mod 32);
                 st = kwakeup ChanUart (upd_uart (\<lambda>u. u\<lparr>ua_tx_r := ua_tx_r u + 1\<rparr>) st)
             in uartstart (write_thr c st))"
  by pat_completeness auto
termination
  by (relation "measure (\<lambda>st. length (ua_idle (ks_uart st)))")
    (auto simp: tx_idle_def upd_uart_def write_thr_def split: list.splits)

declare uartstart.simps [simp del]

text \<open>\<open>uartputc\<close>: \<open>None\<close> when the buffer is full and the caller sleeps.\<close>

definition uartputc :: "u8 \<Rightarrow> kst \<Rightarrow> kst option" where
  "uartputc c st =
     (let u = ks_uart st in
      if ua_tx_w u = ua_tx_r u + 32 then None
      else Some (uartstart (upd_uart (\<lambda>u. u\<lparr>ua_tx_buf := (ua_tx_buf u)[unat (ua_tx_w u mod 32) := c], ua_tx_w := ua_tx_w u + 1\<rparr>) st)))"

text \<open>\<open>uartgetc\<close>: \<open>None\<close> is the result -1.\<close>

definition uartgetc :: "kst \<Rightarrow> u8 option \<times> kst" where
  "uartgetc st = (case ua_rx (ks_uart st) of
     [] \<Rightarrow> (None, st) | c # cs \<Rightarrow> (Some c, upd_uart (\<lambda>u. u\<lparr>ua_rx := cs\<rparr>) st))"

section \<open>Output\<close>

text \<open>\<open>consputc\<close>; \<open>None\<close> is \<^verbatim>\<open>BACKSPACE\<close>, which is not a byte.\<close>

definition consputc :: "u8 option \<Rightarrow> kst \<Rightarrow> kst" where
  "consputc c st = (case c of
     None \<Rightarrow> uartputc_sync 8 (uartputc_sync 0x20 (uartputc_sync 8 st))
   | Some c \<Rightarrow> uartputc_sync c st)"

definition kprintf :: "u8 list \<Rightarrow> vararg list \<Rightarrow> kst \<Rightarrow> kst outcome" where
  "kprintf fmt vs st = obind (printf fmt vs) (\<lambda>bs. Done (fold (\<lambda>c. consputc (Some c)) bs st))"

definition state_name :: "procstate \<Rightarrow> u8 list" where
  "state_name s = str0 (case s of UNUSED \<Rightarrow> ''unused'' | USED \<Rightarrow> ''used'' | SLEEPING \<Rightarrow> ''sleep '' | RUNNABLE \<Rightarrow> ''runble''
     | RUNNING \<Rightarrow> ''run   '' | ZOMBIE \<Rightarrow> ''zombie'' | _ \<Rightarrow> ''???'')"

abbreviation NL :: u8 where
  "NL \<equiv> 10"

definition procdump :: "kst \<Rightarrow> kst outcome" where
  "procdump st = obind (kprintf [NL, 0] [] st) (ofold (\<lambda>i st.
     let p = the_proc (kpt st) i in
     if p_state p = UNUSED then Done st
     else obind (kprintf (str0 ''%d %s %s'') [VInt (ucast (p_pid p)), VStr (Some (state_name (p_state p))), VStr (Some (p_name p))] st)
            (kprintf [NL, 0] []))
     [0..<length (pt_procs (kpt st))])"

section \<open>Input\<close>

abbreviation INPUT_BUF_SIZE :: nat where
  "INPUT_BUF_SIZE \<equiv> 128"

definition ctrl :: "char \<Rightarrow> u8" where
  "ctrl x = of_char x - of_char CHR 0x40"

definition cons_at :: "cons \<Rightarrow> u32 \<Rightarrow> u8" where
  "cons_at c k = cn_buf c ! unat (k mod 128)"

definition upd_cons :: "(cons \<Rightarrow> cons) \<Rightarrow> kst \<Rightarrow> kst" where
  "upd_cons f st = st\<lparr>ks_cons := f (ks_cons st)\<rparr>"

lemma unat_before: "(x :: u32) \<noteq> y \<Longrightarrow> unat (x - 1 - y) < unat (x - y)"
proof -
  assume "x \<noteq> y"
  then have "x - y \<noteq> 0" by simp
  then have "unat (x - y - 1) = unat (x - y) - 1" "0 < unat (x - y)" using unat_minus_one unat_gt_0 by blast+
  moreover have "x - y - 1 = x - 1 - y" by (simp add: diff_diff_eq add.commute)
  ultimately show ?thesis by simp
qed

text \<open>The loop of kill-line; every round moves the edit index towards the write index.\<close>

function kill_line :: "kst \<Rightarrow> kst" where
  "kill_line st =
     (let c = ks_cons st in
      if cn_e c \<noteq> cn_w c \<and> cons_at c (cn_e c - 1) \<noteq> NL
      then kill_line (consputc None (upd_cons (\<lambda>c. c\<lparr>cn_e := cn_e c - 1\<rparr>) st))
      else st)"
  by pat_completeness auto
termination
proof (relation "measure (\<lambda>st. unat (cn_e (ks_cons st) - cn_w (ks_cons st)))")
  fix st :: kst and c
  assume "c = ks_cons st" and "cn_e c \<noteq> cn_w c \<and> cons_at c (cn_e c - 1) \<noteq> NL"
  moreover from this have "unat (cn_e c - 1 - cn_w c) < unat (cn_e c - cn_w c)" by (simp add: unat_before)
  ultimately show "(consputc None (upd_cons (\<lambda>c. c\<lparr>cn_e := cn_e c - 1\<rparr>) st), st)
      \<in> measure (\<lambda>st. unat (cn_e (ks_cons st) - cn_w (ks_cons st)))"
    by (simp add: consputc_def uartputc_sync_def write_thr_def upd_cons_def)
qed simp

declare kill_line.simps [simp del]

definition consoleintr :: "u8 \<Rightarrow> kst \<Rightarrow> kst outcome" where
  "consoleintr c st =
     (if c = ctrl CHR ''P'' then procdump st
      else if c = ctrl CHR ''U'' then Done (kill_line st)
      else if c = ctrl CHR ''H'' \<or> c = 0x7F then
        Done (if cn_e (ks_cons st) \<noteq> cn_w (ks_cons st)
              then consputc None (upd_cons (\<lambda>c. c\<lparr>cn_e := cn_e c - 1\<rparr>) st) else st)
      else if c \<noteq> 0 \<and> cn_e (ks_cons st) - cn_r (ks_cons st) < 128 then
        (let c = (if c = 13 then NL else c);
             st = consputc (Some c) st;
             st = upd_cons (\<lambda>k. k\<lparr>cn_buf := (cn_buf k)[unat (cn_e k mod 128) := c], cn_e := cn_e k + 1\<rparr>) st
         in if c = NL \<or> c = ctrl CHR ''D'' \<or> cn_e (ks_cons st) - cn_r (ks_cons st) = 128
            then Done (kwakeup ChanCons (upd_cons (\<lambda>k. k\<lparr>cn_w := cn_e k\<rparr>) st))
            else Done st)
      else Done st)"

text \<open>\<open>uartintr\<close> handles the waiting bytes one after the other and sends what is buffered.\<close>

fun uartintr_loop :: "u8 list \<Rightarrow> kst \<Rightarrow> kst outcome" where
  "uartintr_loop [] st = Done st"
| "uartintr_loop (c # cs) st =
     obind (consoleintr c (upd_uart (\<lambda>u. u\<lparr>ua_rx := cs\<rparr>) st)) (uartintr_loop cs)"

definition uartintr :: "kst \<Rightarrow> kst outcome" where
  "uartintr st = obind (uartintr_loop (ua_rx (ks_uart st)) st) (\<lambda>st. Done (uartstart st))"

section \<open>Reading and writing\<close>

text \<open>\<open>consolewrite\<close> from the byte with index \<open>i\<close> on; it sleeps with that byte when the buffer is full.\<close>

function consolewrite_from :: "bool \<Rightarrow> u64 \<Rightarrow> int \<Rightarrow> nat \<Rightarrow> kst \<Rightarrow> (progress \<times> kst) outcome" where
  "consolewrite_from user_src src n i st =
     (if int i < n then
        obind (current st) (\<lambda>me.
        obind (either_copyin user_src (src + of_nat i) 1 me (kpt st)) (\<lambda>(r, bs).
          if r = -1 then Done (Returned (int i), st)
          else case uartputc (bs ! 0) st of
            None \<Rightarrow> Done (Asleep i, st)
          | Some st \<Rightarrow> consolewrite_from user_src src n (Suc i) st))
      else Done (Returned (int i), st))"
  by pat_completeness auto
termination
  by (relation "measure (\<lambda>(u, src, n, i, st). nat (n - int i))") auto

declare consolewrite_from.simps [simp del]

definition consolewrite :: "bool \<Rightarrow> u64 \<Rightarrow> int \<Rightarrow> kst \<Rightarrow> (progress \<times> kst) outcome" where
  "consolewrite user_src src n st = consolewrite_from user_src src n 0 st"

text \<open>\<open>consoleread\<close> when \<open>i\<close> of the \<open>target\<close> bytes have been copied.\<close>

function consoleread_from :: "bool \<Rightarrow> u64 \<Rightarrow> int \<Rightarrow> nat \<Rightarrow> kst \<Rightarrow> (progress \<times> kst) outcome" where
  "consoleread_from user_dst dst target i st =
     (if int i < target then
        obind (current st) (\<lambda>me.
          if cn_r (ks_cons st) = cn_w (ks_cons st) then
            (if killed me (kpt st) then Done (Returned (-1), st) else Done (Asleep i, st))
          else
            let c = cons_at (ks_cons st) (cn_r (ks_cons st));
                st = upd_cons (\<lambda>k. k\<lparr>cn_r := cn_r k + 1\<rparr>) st in
            if c = ctrl CHR ''D'' then
              Done (Returned (int i), if 0 < i then upd_cons (\<lambda>k. k\<lparr>cn_r := cn_r k - 1\<rparr>) st else st)
            else obind (either_copyout user_dst (dst + of_nat i) [c] me (kpt st)) (\<lambda>(r, pt).
              let st = set_pt pt st in
              if r = -1 then Done (Returned (int i), st)
              else if c = NL then Done (Returned (int i + 1), st)
              else consoleread_from user_dst dst target (Suc i) st))
      else Done (Returned (int i), st))"
  by pat_completeness auto
termination
  by (relation "measure (\<lambda>(u, dst, n, i, st). nat (n - int i))") auto

declare consoleread_from.simps [simp del]

definition consoleread :: "bool \<Rightarrow> u64 \<Rightarrow> int \<Rightarrow> kst \<Rightarrow> (progress \<times> kst) outcome" where
  "consoleread user_dst dst n st = consoleread_from user_dst dst n 0 st"

section \<open>Line editing\<close>

text \<open>
  The abstract editor: the bytes of the finished lines that have not been read, and those of the line
  that is being typed. A line is finished by a newline, by control-D and when the buffer is full.
\<close>

definition edit :: "u8 \<Rightarrow> u8 list \<times> u8 list \<Rightarrow> u8 list \<times> u8 list" where
  "edit c = (\<lambda>(ready, line).
     if c = ctrl CHR ''P'' then (ready, line)
     else if c = ctrl CHR ''U'' then (ready, [])
     else if c = ctrl CHR ''H'' \<or> c = 0x7F then (ready, butlast line)
     else if c \<noteq> 0 \<and> length ready + length line < INPUT_BUF_SIZE then
       (let c = (if c = 13 then NL else c) in
        if c = NL \<or> c = ctrl CHR ''D'' \<or> length ready + length line + 1 = INPUT_BUF_SIZE
        then (ready @ line @ [c], []) else (ready, line @ [c]))
     else (ready, line))"

definition span :: "cons \<Rightarrow> u32 \<Rightarrow> nat \<Rightarrow> u8 list" where
  "span c k n = map (\<lambda>i. cons_at c (k + of_nat i)) [0..<n]"

definition cons_lines :: "cons \<Rightarrow> u8 list \<times> u8 list" where
  "cons_lines c = (span c (cn_r c) (unat (cn_w c - cn_r c)), span c (cn_w c) (unat (cn_e c - cn_w c)))"

text \<open>The counters of a buffer that holds \<open>m\<close> bytes of finished lines and \<open>n\<close> of the current one.\<close>

definition cons_at_sizes :: "cons \<Rightarrow> nat \<Rightarrow> nat \<Rightarrow> bool" where
  "cons_at_sizes c m n \<longleftrightarrow> length (cn_buf c) = INPUT_BUF_SIZE \<and> cn_w c = cn_r c + of_nat m \<and> cn_e c = cn_w c + of_nat n \<and>
     m + n \<le> INPUT_BUF_SIZE"

definition cons_inv :: "cons \<Rightarrow> bool" where
  "cons_inv c \<longleftrightarrow> (\<exists>m n. cons_at_sizes c m n) \<and> NL \<notin> set (snd (cons_lines c))"

lemma small_diff: "k \<le> 128 \<Longrightarrow> unat (a + of_nat k - (a :: u32)) = k"
  by (simp add: unat_of_nat)

lemma cons_lines_sizes:
  "cons_at_sizes c m n \<Longrightarrow> cons_lines c = (span c (cn_r c) m, span c (cn_w c) n)"
  by (simp add: cons_lines_def cons_at_sizes_def unat_of_nat)

lemma length_span [simp]: "length (span c k n) = n"
  by (simp add: span_def)

lemma cons_slot: "unat ((a + of_nat i :: u32) mod 128) = (unat a + i) mod 128"
proof -
  have "unat ((a + of_nat i) mod 128) = (unat a + i) mod 2 ^ 32 mod 128"
    by (simp add: unat_mod_distrib unat_word_ariths unat_of_nat mod_add_right_eq)
  also have "\<dots> = (unat a + i) mod 128" by (rule mod_mod_cancel) simp
  finally show ?thesis .
qed

lemma cons_slot_distinct: "i < d \<Longrightarrow> d < 128 \<Longrightarrow> unat ((a + of_nat i :: u32) mod 128) \<noteq> unat ((a + of_nat d) mod 128)"
proof -
  assume a: "i < d" "d < 128"
  show ?thesis unfolding cons_slot
  proof
    assume "(unat a + i) mod 128 = (unat a + d) mod 128"
    then have "128 dvd d - i" using a(1) by (metis add_diff_cancel_left less_imp_le mod_eq_dvd_iff_nat nat_add_left_cancel_le)
    with a show False by (auto dest: dvd_imp_le)
  qed
qed

text \<open>Storing a byte at the edit index keeps the bytes before it.\<close>

lemma span_put:
  assumes "d < 128" and "o' + n \<le> d" and "length (cn_buf c) = 128"
  shows "span (c\<lparr>cn_buf := (cn_buf c)[unat ((a + of_nat d) mod 128) := x], cn_e := e\<rparr>) (a + of_nat o') n = span c (a + of_nat o') n"
    and "cons_at (c\<lparr>cn_buf := (cn_buf c)[unat ((a + of_nat d) mod 128) := x], cn_e := e\<rparr>) (a + of_nat d) = x"
proof -
  have "unat ((a + of_nat d) mod 128) \<noteq> unat ((a + of_nat o' + of_nat i) mod 128)" if "i < n" for i
    using cons_slot_distinct [of "o' + i" d a] assms that by (simp add: add.assoc)
  then show "span (c\<lparr>cn_buf := (cn_buf c)[unat ((a + of_nat d) mod 128) := x], cn_e := e\<rparr>) (a + of_nat o') n = span c (a + of_nat o') n"
    by (auto simp: span_def cons_at_def)
  have "unat ((a + of_nat d) mod 128) < 128" unfolding cons_slot by simp
  then show "cons_at (c\<lparr>cn_buf := (cn_buf c)[unat ((a + of_nat d) mod 128) := x], cn_e := e\<rparr>) (a + of_nat d) = x"
    using assms(3) by (simp add: cons_at_def)
qed

lemma span_Suc: "span c k (Suc n) = span c k n @ [cons_at c (k + of_nat n)]"
  by (simp add: span_def)

lemma span_add: "span c k (m + n) = span c k m @ span c (k + of_nat m) n"
  by (induction n) (simp_all add: span_def add.assoc)

lemma span_cong: "cn_buf c' = cn_buf c \<Longrightarrow> span c' k n = span c k n"
  by (simp add: span_def cons_at_def)

lemma cons_put:
  assumes s: "cons_at_sizes c m n" and "m + n < 128"
  shows "cons_at_sizes (c\<lparr>cn_buf := (cn_buf c)[unat (cn_e c mod 128) := x], cn_e := cn_e c + 1\<rparr>) m (Suc n)"
    and "cons_lines (c\<lparr>cn_buf := (cn_buf c)[unat (cn_e c mod 128) := x], cn_e := cn_e c + 1\<rparr>) =
           (fst (cons_lines c), snd (cons_lines c) @ [x])"
proof -
  let ?c = "c\<lparr>cn_buf := (cn_buf c)[unat (cn_e c mod 128) := x], cn_e := cn_e c + 1\<rparr>"
  show sz: "cons_at_sizes ?c m (Suc n)" using assms by (auto simp: cons_at_sizes_def algebra_simps)
  have e: "cn_e c = cn_r c + of_nat (m + n)" and w: "cn_w c = cn_r c + of_nat m" and l: "length (cn_buf c) = 128"
    using s by (auto simp: cons_at_sizes_def algebra_simps)
  have "span ?c (cn_r c) m = span c (cn_r c) m"
    unfolding e using span_put(1) [where d = "m + n" and o' = 0 and n = m and c = c and a = "cn_r c" and x = x and e = "cn_r c + of_nat (m + n) + 1"] assms(2) l by simp
  moreover have "span ?c (cn_w c) n = span c (cn_w c) n" unfolding e w
    using span_put(1) [where d = "m + n" and o' = m and n = n and c = c and a = "cn_r c" and x = x and e = "cn_r c + of_nat (m + n) + 1"] assms(2) l by simp
  moreover have "cons_at ?c (cn_w c + of_nat n) = x"
    using span_put(2) [where d = "m + n" and o' = 0 and n = 0 and c = c and a = "cn_r c" and x = x and e = "cn_r c + of_nat (m + n) + 1"] assms(2) l unfolding e w by (simp add: algebra_simps)
  ultimately show "cons_lines ?c = (fst (cons_lines c), snd (cons_lines c) @ [x])"
    unfolding cons_lines_sizes [OF sz] cons_lines_sizes [OF s] by (simp add: span_Suc)
qed

lemma cons_commit:
  assumes s: "cons_at_sizes c m n"
  shows "cons_at_sizes (c\<lparr>cn_w := cn_e c\<rparr>) (m + n) 0"
    and "cons_lines (c\<lparr>cn_w := cn_e c\<rparr>) = (fst (cons_lines c) @ snd (cons_lines c), [])"
proof -
  let ?c = "c\<lparr>cn_w := cn_e c\<rparr>"
  show sz: "cons_at_sizes ?c (m + n) 0" using s by (auto simp: cons_at_sizes_def algebra_simps)
  have w: "cn_w c = cn_r c + of_nat m" using s by (simp add: cons_at_sizes_def)
  show "cons_lines ?c = (fst (cons_lines c) @ snd (cons_lines c), [])"
    unfolding cons_lines_sizes [OF sz] cons_lines_sizes [OF s] w using span_cong [of ?c c] by (simp add: span_add) (simp add: span_def)
qed

lemma cons_erase:
  assumes s: "cons_at_sizes c m (Suc n)"
  shows "cons_at_sizes (c\<lparr>cn_e := cn_e c - 1\<rparr>) m n"
    and "cons_lines (c\<lparr>cn_e := cn_e c - 1\<rparr>) = (fst (cons_lines c), butlast (snd (cons_lines c)))"
    and "cons_at c (cn_e c - 1) = last (snd (cons_lines c))"
proof -
  let ?c = "c\<lparr>cn_e := cn_e c - 1\<rparr>"
  have e: "cn_e c - 1 = cn_w c + of_nat n" using s by (simp add: cons_at_sizes_def)
  show sz: "cons_at_sizes ?c m n" using s e by (simp add: cons_at_sizes_def)
  show "cons_lines ?c = (fst (cons_lines c), butlast (snd (cons_lines c)))"
    unfolding cons_lines_sizes [OF sz] cons_lines_sizes [OF s] using span_cong [of ?c c] by (simp add: span_Suc)
  show "cons_at c (cn_e c - 1) = last (snd (cons_lines c))"
    unfolding cons_lines_sizes [OF s] e by (simp add: span_Suc)
qed

lemma cons_simps [simp]:
  "ks_cons (consputc c st) = ks_cons st" "ks_cons (upd_cons f st) = f (ks_cons st)"
  by (simp_all add: consputc_def uartputc_sync_def write_thr_def upd_cons_def split: option.split)

lemma kill_line_lines:
  assumes "cons_at_sizes (ks_cons st) m n" and "NL \<notin> set (snd (cons_lines (ks_cons st)))"
  shows "cons_at_sizes (ks_cons (kill_line st)) m 0 \<and> fst (cons_lines (ks_cons (kill_line st))) = fst (cons_lines (ks_cons st))"
  using assms
proof (induction n arbitrary: st)
  case 0
  then have "cn_e (ks_cons st) = cn_w (ks_cons st)" by (simp add: cons_at_sizes_def)
  then show ?case using 0 by (subst (1 2) kill_line.simps) (simp add: Let_def)
next
  case (Suc n)
  note er = cons_erase [OF Suc.prems(1)]
  have ne: "snd (cons_lines (ks_cons st)) \<noteq> []" unfolding cons_lines_sizes [OF Suc.prems(1)] by (simp add: span_Suc)
  have "cn_e (ks_cons st) \<noteq> cn_w (ks_cons st)"
    using Suc.prems(1) by (auto simp: cons_at_sizes_def word_of_nat_eq_0_iff simp del: of_nat_Suc dest: dvd_imp_le)
  moreover have "cons_at (ks_cons st) (cn_e (ks_cons st) - 1) \<noteq> NL"
    unfolding er(3) using Suc.prems(2) ne by (metis last_in_set)
  ultimately have "kill_line st = kill_line (consputc None (upd_cons (\<lambda>c. c\<lparr>cn_e := cn_e c - 1\<rparr>) st))"
    by (subst kill_line.simps) (simp add: Let_def)
  moreover have "NL \<notin> set (butlast (snd (cons_lines (ks_cons st))))" using Suc.prems(2) by (meson in_set_butlastD)
  ultimately show ?case using Suc.IH [of "consputc None (upd_cons (\<lambda>c. c\<lparr>cn_e := cn_e c - 1\<rparr>) st)"] er(1,2) by simp
qed

lemma cons_at_sizes_empty: "cons_at_sizes c m 0 \<Longrightarrow> snd (cons_lines c) = []"
  by (simp add: cons_lines_sizes) (simp add: span_def)

lemma sizes_diff:
  assumes "cons_at_sizes c m n"
  shows "cn_e c - cn_r c < 128 \<longleftrightarrow> m + n < 128" "cn_e c - cn_r c = 128 \<longleftrightarrow> m + n = 128"
    "cn_e c \<noteq> cn_w c \<longleftrightarrow> n \<noteq> 0"
proof -
  have e: "cn_e c - cn_r c = of_nat (m + n)" and b: "m + n \<le> 128" using assms by (auto simp: cons_at_sizes_def)
  have u: "unat (of_nat (m + n) :: u32) = m + n" using b by (simp only: unat_of_nat) simp
  show "cn_e c - cn_r c < 128 \<longleftrightarrow> m + n < 128" unfolding e word_less_nat_alt u by simp
  show "cn_e c - cn_r c = 128 \<longleftrightarrow> m + n = 128" unfolding e word_unat_eq_iff u by simp
  have v: "unat (of_nat n :: u32) = n" using b by (simp only: unat_of_nat) simp
  have "(of_nat n :: u32) = 0 \<longleftrightarrow> n = 0" unfolding word_unat_eq_iff v by simp
  then show "cn_e c \<noteq> cn_w c \<longleftrightarrow> n \<noteq> 0" using assms by (simp add: cons_at_sizes_def)
qed

lemma consoleintr_store:
  assumes "c \<noteq> ctrl CHR ''P''" "c \<noteq> ctrl CHR ''U''" "c \<noteq> ctrl CHR ''H''" "c \<noteq> 0x7F" "c \<noteq> 0"
    and "cn_e (ks_cons st) - cn_r (ks_cons st) < 128"
    and "st1 = upd_cons (\<lambda>k. k\<lparr>cn_buf := (cn_buf k)[unat (cn_e k mod 128) := if c = 13 then NL else c], cn_e := cn_e k + 1\<rparr>)
          (consputc (Some (if c = 13 then NL else c)) st)"
  shows "consoleintr c st =
     (if (if c = 13 then NL else c) = NL \<or> (if c = 13 then NL else c) = ctrl CHR ''D'' \<or> cn_e (ks_cons st1) - cn_r (ks_cons st1) = 128
      then Done (kwakeup ChanCons (upd_cons (\<lambda>k. k\<lparr>cn_w := cn_e k\<rparr>) st1)) else Done st1)"
  unfolding consoleintr_def Let_def assms(7) using assms(1-6) by (simp only: if_True if_False simp_thms)

text \<open>One typed character.\<close>

lemma consoleintr_edits:
  assumes inv: "cons_inv (ks_cons st)" and c: "c \<noteq> ctrl CHR ''P''"
  shows "\<exists>st'. consoleintr c st = Done st' \<and> cons_inv (ks_cons st') \<and> cons_lines (ks_cons st') = edit c (cons_lines (ks_cons st))"
proof -
  let ?c = "ks_cons st" and ?ready = "fst (cons_lines (ks_cons st))" and ?line = "snd (cons_lines (ks_cons st))"
  obtain m n where s: "cons_at_sizes ?c m n" using inv unfolding cons_inv_def by blast
  have nl: "NL \<notin> set ?line" using inv by (simp add: cons_inv_def)
  have len: "length ?ready = m" "length ?line = n" unfolding cons_lines_sizes [OF s] by simp_all
  note d = sizes_diff [OF s]
  consider (kill) "c = ctrl CHR ''U''" | (erase) "c \<noteq> ctrl CHR ''U''" "c = ctrl CHR ''H'' \<or> c = 0x7F"
    | (put) "c \<noteq> ctrl CHR ''U''" "c \<noteq> ctrl CHR ''H''" "c \<noteq> 0x7F" "c \<noteq> 0 \<and> m + n < 128"
    | (ignore) "c \<noteq> ctrl CHR ''U''" "c \<noteq> ctrl CHR ''H''" "c \<noteq> 0x7F" "\<not> (c \<noteq> 0 \<and> m + n < 128)" by blast
  then show ?thesis
  proof cases
    case kill
    note k = kill_line_lines [OF s nl]
    then have "cons_lines (ks_cons (kill_line st)) = (?ready, [])" using cons_at_sizes_empty by (metis prod.collapse)
    then show ?thesis using k kill c by (auto simp: consoleintr_def edit_def cons_inv_def case_prod_beta)
  next
    case erase
    then have eq: "consoleintr c st = Done (if n \<noteq> 0 then consputc None (upd_cons (\<lambda>c. c\<lparr>cn_e := cn_e c - 1\<rparr>) st) else st)"
      "edit c (cons_lines ?c) = (?ready, butlast ?line)" using c d(3) by (auto simp: consoleintr_def edit_def case_prod_beta)
    show ?thesis
    proof (cases n)
      case 0
      then show ?thesis using eq inv len by (auto simp: prod_eq_iff)
    next
      case (Suc k)
      have "NL \<notin> set (butlast ?line)" using nl by (meson in_set_butlastD)
      then show ?thesis using eq Suc cons_erase [of ?c m k] s by (auto simp: cons_inv_def)
    qed
  next
    case put
    define x where "x = (if c = 13 then NL else c)"
    define c' where "c' = ?c\<lparr>cn_buf := (cn_buf ?c)[unat (cn_e ?c mod 128) := x], cn_e := cn_e ?c + 1\<rparr>"
    define fin where "fin \<longleftrightarrow> x = NL \<or> x = ctrl CHR ''D'' \<or> m + n + 1 = 128"
    have p: "cons_at_sizes c' m (Suc n)" "cons_lines c' = (?ready, ?line @ [x])" using cons_put [OF s, of x] put(4) by (simp_all add: c'_def)
    have "edit c (cons_lines ?c) = (if fin then (?ready @ ?line @ [x], []) else (?ready, ?line @ [x]))"
      using put c len by (auto simp: edit_def x_def fin_def case_prod_beta Let_def)
    moreover define st1 where "st1 = upd_cons (\<lambda>k. k\<lparr>cn_buf := (cn_buf k)[unat (cn_e k mod 128) := x], cn_e := cn_e k + 1\<rparr>) (consputc (Some x) st)"
    have c1: "ks_cons st1 = c'" by (simp add: st1_def c'_def)
    have "consoleintr c st = (if x = NL \<or> x = ctrl CHR ''D'' \<or> cn_e (ks_cons st1) - cn_r (ks_cons st1) = 128
        then Done (kwakeup ChanCons (upd_cons (\<lambda>k. k\<lparr>cn_w := cn_e k\<rparr>) st1)) else Done st1)"
      unfolding x_def by (rule consoleintr_store) (use put c d(1) in \<open>simp_all add: st1_def x_def\<close>)
    then have "consoleintr c st = (if fin then Done (kwakeup ChanCons (upd_cons (\<lambda>k. k\<lparr>cn_w := cn_e k\<rparr>) st1)) else Done st1)"
      unfolding c1 sizes_diff(2) [OF p(1)] by (simp add: fin_def)
    ultimately show ?thesis using p cons_commit [OF p(1)] nl c1 by (auto simp: cons_inv_def fin_def)
  next
    case ignore
    then have "consoleintr c st = Done st" "edit c (cons_lines ?c) = cons_lines ?c"
      using c d(1) len by (auto simp: consoleintr_def edit_def case_prod_beta)
    then show ?thesis using inv by (intro exI [of _ st]) simp
  qed
qed



end
