(* ===== verification/File.thy ===== *)
theory File
  imports Inode Console
begin

text \<open>
  \<^verbatim>\<open>kernel/file.c\<close>: the table of open files, and reading and writing through it, and \<open>pipealloc\<close> of
  \<^verbatim>\<open>kernel/pipe.c\<close>. A pointer to a file is an index into the table.
\<close>

section \<open>The file table\<close>

abbreviation the_file :: "kst \<Rightarrow> nat \<Rightarrow> kfile" where
  "the_file st f \<equiv> ks_files st ! f"

definition set_file :: "nat \<Rightarrow> (kfile \<Rightarrow> kfile) \<Rightarrow> kst \<Rightarrow> kst" where
  "set_file f g st = st\<lparr>ks_files := (ks_files st)[f := g (the_file st f)]\<rparr>"

definition filealloc :: "kst \<Rightarrow> nat option \<times> kst" where
  "filealloc st =
     (case find (\<lambda>f. f_ref (the_file st f) = 0) [0..<length (ks_files st)] of
        None \<Rightarrow> (None, st)
      | Some f \<Rightarrow> (Some f, set_file f (\<lambda>x. x\<lparr>f_ref := 1\<rparr>) st))"

definition filedup :: "nat \<Rightarrow> kst \<Rightarrow> kst outcome" where
  "filedup f st = (if f_ref (the_file st f) < 1 then Panic ''filedup''
     else Done (set_file f (\<lambda>x. x\<lparr>f_ref := f_ref x + 1\<rparr>) st))"

text \<open>\<open>pipeclose\<close> on the pipe of a file.\<close>

definition close_pipe :: "u64 \<Rightarrow> bool \<Rightarrow> kst \<Rightarrow> kst outcome" where
  "close_pipe pi writable st = obind (deref (ks_pipes st pi)) (\<lambda>p.
     obind (pipeclose pi writable (sy_proc (ks_sys st)) p (kpt st)) (\<lambda>(p, pt).
     Done ((set_pt pt st)\<lparr>ks_pipes := (ks_pipes st)(pi := p)\<rparr>)))"

definition fileclose :: "nat \<Rightarrow> kst \<Rightarrow> kst outcome" where
  "fileclose f st =
     (if f_ref (the_file st f) < 1 then Panic ''fileclose''
      else let st = set_file f (\<lambda>x. x\<lparr>f_ref := f_ref x - 1\<rparr>) st in
      if f_ref (the_file st f) > 0 then Done st
      else let ff = the_file st f;
               st = set_file f (\<lambda>x. x\<lparr>f_ref := 0, f_type := FD_NONE\<rparr>) st in
      case f_type ff of
        FD_PIPE \<Rightarrow> obind (deref (f_pipe ff)) (\<lambda>pi. close_pipe pi (f_writable ff) st)
      | FD_NONE \<Rightarrow> Done st
      | _ \<Rightarrow> obind (begin_op st) (\<lambda>st. obind (deref (f_ip ff)) (\<lambda>ip. obind (iput ip st) end_op)))"

text \<open>\<open>pad\<close> stands for the padding of the \<^verbatim>\<open>struct stat\<close> on the stack of \<open>filestat\<close>.\<close>

definition filestat :: "u8 list \<Rightarrow> nat \<Rightarrow> u64 \<Rightarrow> kst \<Rightarrow> (int \<times> kst) outcome" where
  "filestat pad f addr st = obind (current st) (\<lambda>me.
     if f_type (the_file st f) = FD_INODE \<or> f_type (the_file st f) = FD_DEVICE then
       obind (ilock (f_ip (the_file st f)) st) (\<lambda>st.
       obind (deref (f_ip (the_file st f))) (\<lambda>ip.
       let s = stati ip st in
       obind (iunlock (Some ip) st) (\<lambda>st.
       obind (copyout (pt_kmem (kpt st)) (p_pagetable (the_proc (kpt st) me)) addr (stat_bytes pad s)) (\<lambda>(r, k).
       Done (if r < 0 then -1 else 0, set_pt (set_kmem k (kpt st)) st)))))
     else Done (-1, st))"

section \<open>Reading and writing\<close>

abbreviation NDEV :: int where
  "NDEV \<equiv> 10"

abbreviation CONSOLE :: u16 where
  "CONSOLE \<equiv> 1"

text \<open>The device switch after \<open>consoleinit\<close>: the console is the only device.\<close>

definition devsw_read :: "u16 \<Rightarrow> (bool \<Rightarrow> u64 \<Rightarrow> int \<Rightarrow> kst \<Rightarrow> (progress \<times> kst) outcome) option" where
  "devsw_read major = (if major = CONSOLE then Some consoleread else None)"

definition devsw_write :: "u16 \<Rightarrow> (bool \<Rightarrow> u64 \<Rightarrow> int \<Rightarrow> kst \<Rightarrow> (progress \<times> kst) outcome) option" where
  "devsw_write major = (if major = CONSOLE then Some consolewrite else None)"

definition with_pipe :: "(u64 \<Rightarrow> nat \<Rightarrow> pipe \<Rightarrow> ptable \<Rightarrow> (progress \<times> pipe \<times> ptable) outcome) \<Rightarrow> nat \<Rightarrow> kst \<Rightarrow> (progress \<times> kst) outcome" where
  "with_pipe act f st = obind (current st) (\<lambda>me.
     obind (deref (f_pipe (the_file st f))) (\<lambda>pi.
     obind (deref (ks_pipes st pi)) (\<lambda>p.
     obind (act pi me p (kpt st)) (\<lambda>(r, p, pt). Done (r, (set_pt pt st)\<lparr>ks_pipes := (ks_pipes st)(pi := Some p)\<rparr>)))))"

definition fileread :: "nat \<Rightarrow> u64 \<Rightarrow> u32 \<Rightarrow> kst \<Rightarrow> (progress \<times> kst) outcome" where
  "fileread f addr n st =
     (if \<not> f_readable (the_file st f) then Done (Returned (-1), st)
      else case f_type (the_file st f) of
        FD_PIPE \<Rightarrow> with_pipe (\<lambda>pi me. piperead pi addr (sint n) me) f st
      | FD_DEVICE \<Rightarrow>
          (let major = f_major (the_file st f) in
           if sint major < 0 \<or> sint major \<ge> NDEV then Done (Returned (-1), st)
           else case devsw_read major of
             None \<Rightarrow> Done (Returned (-1), st)
           | Some rd \<Rightarrow> rd True addr (sint n) st)
      | FD_INODE \<Rightarrow>
          obind (ilock (f_ip (the_file st f)) st) (\<lambda>st.
          obind (deref (f_ip (the_file st f))) (\<lambda>ip.
          obind (readi ip (UserDst addr) (f_off (the_file st f)) n st) (\<lambda>(r, bs, st).
          let st = (if sint r > 0 then set_file f (\<lambda>x. x\<lparr>f_off := f_off x + r\<rparr>) st else st) in
          obind (iunlock (Some ip) st) (\<lambda>st. Done (Returned (sint r), st)))))
      | FD_NONE \<Rightarrow> Panic ''fileread'')"

text \<open>The most that one transaction writes: \<^verbatim>\<open>((MAXOPBLOCKS-1-1-2) / 2) * BSIZE\<close>.\<close>

abbreviation write_max :: int where
  "write_max \<equiv> 3072"

function filewrite_loop :: "nat \<Rightarrow> u64 \<Rightarrow> int \<Rightarrow> int \<Rightarrow> kst \<Rightarrow> (int \<times> kst) outcome" where
  "filewrite_loop f addr n i st =
     (if i < n then
        (let n1 = min (n - i) write_max in
         obind (begin_op st) (\<lambda>st.
         obind (ilock (f_ip (the_file st f)) st) (\<lambda>st.
         obind (deref (f_ip (the_file st f))) (\<lambda>ip.
         obind (writei ip (UserSrc (addr + of_int i)) (f_off (the_file st f)) (of_int n1) st) (\<lambda>(r, st).
         let st = (if sint r > 0 then set_file f (\<lambda>x. x\<lparr>f_off := f_off x + r\<rparr>) st else st) in
         obind (iunlock (Some ip) st) (\<lambda>st.
         obind (end_op st) (\<lambda>st.
           if sint r \<noteq> n1 then Done (i, st) else filewrite_loop f addr n (i + n1) st)))))))
      else Done (i, st))"
  by pat_completeness auto
termination
  by (relation "measure (\<lambda>(f, addr, n, i, st). nat (n - i))") auto

declare filewrite_loop.simps [simp del]

definition filewrite :: "nat \<Rightarrow> u64 \<Rightarrow> u32 \<Rightarrow> kst \<Rightarrow> (progress \<times> kst) outcome" where
  "filewrite f addr n st =
     (if \<not> f_writable (the_file st f) then Done (Returned (-1), st)
      else case f_type (the_file st f) of
        FD_PIPE \<Rightarrow> with_pipe (\<lambda>pi me. pipewrite pi addr (sint n) me) f st
      | FD_DEVICE \<Rightarrow>
          (let major = f_major (the_file st f) in
           if sint major < 0 \<or> sint major \<ge> NDEV then Done (Returned (-1), st)
           else case devsw_write major of
             None \<Rightarrow> Done (Returned (-1), st)
           | Some wr \<Rightarrow> wr True addr (sint n) st)
      | FD_INODE \<Rightarrow>
          obind (filewrite_loop f addr (sint n) 0 st) (\<lambda>(i, st).
          Done (Returned (if i = sint n then sint n else -1), st))
      | FD_NONE \<Rightarrow> Panic ''filewrite'')"

section \<open>Creating a pipe\<close>

text \<open>The page of a new pipe keeps its old contents in the data array.\<close>

definition new_pipe :: "u64 \<Rightarrow> kst \<Rightarrow> pipe" where
  "new_pipe pi st = \<lparr>pi_data = peek (k_mem (pt_kmem (kpt st))) (pi + 24) PIPESIZE, pi_nread = 0, pi_nwrite = 0,
     pi_readopen = True, pi_writeopen = True\<rparr>"

definition close_opt :: "nat option \<Rightarrow> kst \<Rightarrow> kst outcome" where
  "close_opt f st = (case f of None \<Rightarrow> Done st | Some f \<Rightarrow> fileclose f st)"

definition pipealloc :: "kst \<Rightarrow> ((nat \<times> nat) option \<times> kst) outcome" where
  "pipealloc st =
     (let (f0, st) = filealloc st;
          (f1, st) = (if f0 = None then (None, st) else filealloc st);
          bad = (\<lambda>st. obind (close_opt f0 st) (\<lambda>st. obind (close_opt f1 st) (\<lambda>st. Done (None, st))))
      in case (f0, f1) of
        (Some f0, Some f1) \<Rightarrow>
          (let (pi, k) = kalloc (pt_kmem (kpt st)); st = set_pt (set_kmem k (kpt st)) st in
           if pi = 0 then bad st
           else let st = st\<lparr>ks_pipes := (ks_pipes st)(pi \<mapsto> new_pipe pi st)\<rparr>;
                    st = set_file f0 (\<lambda>x. x\<lparr>f_type := FD_PIPE, f_readable := True, f_writable := False, f_pipe := Some pi\<rparr>) st;
                    st = set_file f1 (\<lambda>x. x\<lparr>f_type := FD_PIPE, f_readable := False, f_writable := True, f_pipe := Some pi\<rparr>) st
                in Done (Some (f0, f1), st))
      | _ \<Rightarrow> bad st)"

end
