(* ===== verification/Dir.thy ===== *)
theory Dir
  imports Inode CString
begin

text \<open>
  \<^verbatim>\<open>kernel/fs.c\<close>, directories and path names. A path is a byte array that ends with a zero byte;
  reading past its end is \<open>Fault\<close>. A name buffer has \<^verbatim>\<open>DIRSIZ\<close> bytes and need not be terminated.
\<close>

section \<open>Directories\<close>

abbreviation DIRSIZ :: nat where
  "DIRSIZ \<equiv> 14"

abbreviation ROOTINO :: u32 where
  "ROOTINO \<equiv> 1"

record dirent =
  de_inum :: u16
  de_name :: "u8 list"

definition dirent_of :: "u8 list \<Rightarrow> dirent" where
  "dirent_of bs = \<lparr>de_inum = get16 0 bs, de_name = slice 2 DIRSIZ bs\<rparr>"

definition dirent_bytes :: "dirent \<Rightarrow> u8 list" where
  "dirent_bytes de = le16 (de_inum de) @ de_name de"

definition namecmp :: "u8 list \<Rightarrow> u8 list \<Rightarrow> int outcome" where
  "namecmp s t = strncmp s t DIRSIZ"

text \<open>The loop of \<open>dirlookup\<close> from offset \<open>off\<close> on, with the size of the directory.\<close>

function dirlookup_loop :: "nat \<Rightarrow> u8 list \<Rightarrow> nat \<Rightarrow> nat \<Rightarrow> kst \<Rightarrow> ((nat \<times> nat) option \<times> kst) outcome" where
  "dirlookup_loop dp name sz off st =
     (if off < sz then
        obind (readi dp LocalDst (of_nat off) 16 st) (\<lambda>(r, bs, st).
          if r \<noteq> 16 then Panic ''dirlookup read''
          else let de = dirent_of bs in
            if de_inum de = 0 then dirlookup_loop dp name sz (off + 16) st
            else obind (namecmp name (de_name de)) (\<lambda>c.
              if c = 0
              then obind (iget (i_dev (the_inode st dp)) (ucast (de_inum de)) st) (\<lambda>(ip, st). Done (Some (ip, off), st))
              else dirlookup_loop dp name sz (off + 16) st))
      else Done (None, st))"
  by pat_completeness auto
termination
  by (relation "measure (\<lambda>(dp, name, sz, off, st). sz - off)") auto

declare dirlookup_loop.simps [simp del]

definition dirlookup :: "nat \<Rightarrow> u8 list \<Rightarrow> kst \<Rightarrow> ((nat \<times> nat) option \<times> kst) outcome" where
  "dirlookup dp name st =
     (if di_type (i_d (the_inode st dp)) \<noteq> T_DIR then Panic ''dirlookup not DIR''
      else dirlookup_loop dp name (unat (di_size (i_d (the_inode st dp)))) 0 st)"

text \<open>The offset of the first empty entry, or of the end of the directory.\<close>

function dirlink_slot :: "nat \<Rightarrow> nat \<Rightarrow> nat \<Rightarrow> kst \<Rightarrow> (nat \<times> kst) outcome" where
  "dirlink_slot dp sz off st =
     (if off < sz then
        obind (readi dp LocalDst (of_nat off) 16 st) (\<lambda>(r, bs, st).
          if r \<noteq> 16 then Panic ''dirlink read''
          else if de_inum (dirent_of bs) = 0 then Done (off, st)
          else dirlink_slot dp sz (off + 16) st)
      else Done (off, st))"
  by pat_completeness auto
termination
  by (relation "measure (\<lambda>(dp, sz, off, st). sz - off)") auto

declare dirlink_slot.simps [simp del]

definition dirlink :: "nat \<Rightarrow> u8 list \<Rightarrow> u32 \<Rightarrow> kst \<Rightarrow> (int \<times> kst) outcome" where
  "dirlink dp name inum st =
     obind (dirlookup dp name st) (\<lambda>(r, st).
       case r of
         Some (ip, off) \<Rightarrow> obind (iput ip st) (\<lambda>st. Done (-1, st))
       | None \<Rightarrow>
           obind (dirlink_slot dp (unat (di_size (i_d (the_inode st dp)))) 0 st) (\<lambda>(off, st).
           obind (strncpy (replicate DIRSIZ 0) name DIRSIZ) (\<lambda>nm.
           obind (writei dp (LocalSrc (dirent_bytes \<lparr>de_inum = ucast inum, de_name = nm\<rparr>)) (of_nat off) 16 st) (\<lambda>(r, st).
           Done (if r \<noteq> 16 then -1 else 0, st)))))"

section \<open>Paths\<close>

abbreviation SLASH :: u8 where
  "SLASH \<equiv> 0x2F"

fun skip_slashes :: "u8 list \<Rightarrow> u8 list outcome" where
  "skip_slashes [] = Fault"
| "skip_slashes (c # pth) = (if c = SLASH then skip_slashes pth else Done (c # pth))"

text \<open>The bytes up to the next slash or the end of the string, and the rest.\<close>

fun take_elem :: "u8 list \<Rightarrow> (u8 list \<times> u8 list) outcome" where
  "take_elem [] = Fault"
| "take_elem (c # pth) =
     (if c \<noteq> SLASH \<and> c \<noteq> 0 then obind (take_elem pth) (\<lambda>(s, pth). Done (c # s, pth)) else Done ([], c # pth))"

definition skipelem :: "u8 list \<Rightarrow> u8 list \<Rightarrow> (u8 list option \<times> u8 list) outcome" where
  "skipelem pth name =
     obind (skip_slashes pth) (\<lambda>pth.
       if hd pth = 0 then Done (None, name)
       else obind (take_elem pth) (\<lambda>(s, pth).
         let name = (if length s \<ge> DIRSIZ then splice 0 (take DIRSIZ s) name else splice 0 (s @ [0]) name) in
         obind (skip_slashes pth) (\<lambda>pth. Done (Some pth, name))))"

lemma skip_slashes_length: "skip_slashes pth = Done pth' \<Longrightarrow> length pth' \<le> length pth \<and> pth' \<noteq> []"
  by (induction pth) (auto split: if_splits)

lemma take_elem_length: "take_elem pth = Done (s, pth') \<Longrightarrow> length pth = length s + length pth'"
  by (induction pth arbitrary: s) (auto simp: obind_eq_Done split: if_splits)

lemma skipelem_shorter: "skipelem pth name = Done (Some pth', name') \<Longrightarrow> length pth' < length pth"
proof -
  assume "skipelem pth name = Done (Some pth', name')"
  then obtain p1 s p2 where p: "skip_slashes pth = Done p1" "hd p1 \<noteq> 0" "take_elem p1 = Done (s, p2)" "skip_slashes p2 = Done pth'"
    by (auto simp: skipelem_def obind_eq_Done Let_def split: if_splits)
  have "s \<noteq> []"
  proof
    assume "s = []"
    with p have "p1 = p2" "hd p1 = SLASH"
      by (cases p1; auto split: if_splits simp: obind_eq_Done)+
    moreover have "skip_slashes pth = Done p1 \<Longrightarrow> hd p1 \<noteq> SLASH" by (induction pth) (auto split: if_splits)
    ultimately show False using p(1) by blast
  qed
  then show ?thesis using skip_slashes_length [OF p(1)] take_elem_length [OF p(3)] skip_slashes_length [OF p(4)] by (cases s) auto
qed

text \<open>The loop of \<open>namex\<close>, with the buffer for the name; the results are the inode and the buffer.\<close>

function namex_loop :: "u8 list \<Rightarrow> bool \<Rightarrow> u8 list \<Rightarrow> nat \<Rightarrow> kst \<Rightarrow> (nat option \<times> u8 list \<times> kst) outcome" where
  "namex_loop pth nameiparent name ip st =
     obind (skipelem pth name) (\<lambda>(p, name).
       case p of
         None \<Rightarrow>
           if nameiparent then obind (iput ip st) (\<lambda>st. Done (None, name, st)) else Done (Some ip, name, st)
       | Some pth \<Rightarrow>
           obind (ilock (Some ip) st) (\<lambda>st.
             if di_type (i_d (the_inode st ip)) \<noteq> T_DIR then obind (iunlockput ip st) (\<lambda>st. Done (None, name, st))
             else if nameiparent \<and> hd pth = 0 then obind (iunlock (Some ip) st) (\<lambda>st. Done (Some ip, name, st))
             else obind (dirlookup ip name st) (\<lambda>(r, st).
               case r of
                 None \<Rightarrow> obind (iunlockput ip st) (\<lambda>st. Done (None, name, st))
               | Some (next, off) \<Rightarrow> obind (iunlockput ip st) (\<lambda>st. namex_loop pth nameiparent name next st))))"
  by pat_completeness auto
termination
  by (relation "measure (\<lambda>(pth, np, name, ip, st). length pth)") (auto dest: skipelem_shorter)

declare namex_loop.simps [simp del]

definition namex :: "u8 list \<Rightarrow> bool \<Rightarrow> u8 list \<Rightarrow> kst \<Rightarrow> (nat option \<times> u8 list \<times> kst) outcome" where
  "namex pth nameiparent name st =
     (case pth of
        [] \<Rightarrow> Fault
      | c # _ \<Rightarrow>
          obind (if c = SLASH then iget ROOTDEV ROOTINO st
                 else obind (current st) (\<lambda>me. obind (deref (p_cwd (the_proc (kpt st) me))) (\<lambda>cwd. Done (idup cwd st)))) (\<lambda>(ip, st).
          namex_loop pth nameiparent name ip st))"

definition namei :: "u8 list \<Rightarrow> kst \<Rightarrow> (nat option \<times> kst) outcome" where
  "namei pth st = obind (namex pth False (replicate DIRSIZ 0) st) (\<lambda>(ip, name, st). Done (ip, st))"

definition nameiparent :: "u8 list \<Rightarrow> u8 list \<Rightarrow> kst \<Rightarrow> (nat option \<times> u8 list \<times> kst) outcome" where
  "nameiparent pth name st = namex pth True name st"

end
