(* ===== verification/Fork.thy ===== *)
theory Fork
  imports File Dir
begin

text \<open>
  The operations of \<^verbatim>\<open>kernel/proc.c\<close> on processes that hold files: \<open>userinit\<close>, \<open>fork\<close>,
  \<open>fork_deadline\<close>, \<open>exit\<close> and \<open>wait\<close>. The locks that they take around updates of a single process
  are left out; \<open>exit\<close> takes the lock of the process before it switches, as \<open>sched\<close> demands.
\<close>

definition kset_proc :: "nat \<Rightarrow> (proc \<Rightarrow> proc) \<Rightarrow> kst \<Rightarrow> kst" where
  "kset_proc i f st = set_pt (set_proc i f (kpt st)) st"

abbreviation kproc :: "kst \<Rightarrow> nat \<Rightarrow> proc" where
  "kproc st i \<equiv> the_proc (kpt st) i"

text \<open>\<open>initcode\<close> is the array of instructions of the first process.\<close>

definition initcode :: "u8 list" where
  "initcode = [0x17, 0x05, 0x00, 0x00, 0x13, 0x05, 0x45, 0x02, 0x97, 0x05, 0x00, 0x00, 0x93, 0x85, 0x35, 0x02,
     0x93, 0x08, 0x70, 0x00, 0x73, 0x00, 0x00, 0x00, 0x93, 0x08, 0x20, 0x00, 0x73, 0x00, 0x00, 0x00,
     0xef, 0xf0, 0x9f, 0xff, 0x2f, 0x69, 0x6e, 0x69, 0x74, 0x00, 0x00, 0x24, 0x00, 0x00, 0x00, 0x00,
     0x00, 0x00, 0x00, 0x00]"

definition userinit :: "kst \<Rightarrow> kst outcome" where
  "userinit st =
     obind (allocproc (kpt st)) (\<lambda>(np, pt).
     let pt = pt\<lparr>pt_initproc := np\<rparr> in
     obind (deref np) (\<lambda>p.
     obind (uvmfirst (pt_kmem pt) (p_pagetable (the_proc pt p)) initcode) (\<lambda>k.
     let pt = set_proc p (\<lambda>x. x\<lparr>p_sz := PGSIZE\<rparr>) (set_kmem k pt) in
     obind (deref (p_trapframe (the_proc pt p))) (\<lambda>(pa, tf).
     let pt = set_proc p (\<lambda>x. x\<lparr>p_trapframe := Some (pa, tf\<lparr>tf_epc := 0, tf_sp := PGSIZE\<rparr>)\<rparr>) pt in
     obind (safestrcpy (p_name (the_proc pt p)) (str0 ''initcode'') 16) (\<lambda>nm.
     let st = set_pt (set_proc p (\<lambda>x. x\<lparr>p_name := nm\<rparr>) pt) st in
     obind (namei (str0 ''/'') st) (\<lambda>(cwd, st).
     Done (kset_proc p (\<lambda>x. x\<lparr>p_cwd := cwd, p_state := RUNNABLE\<rparr>) st)))))))"

section \<open>fork\<close>

text \<open>Duplicating the open files of process \<open>p\<close> into \<open>np\<close>.\<close>

definition dup_files :: "nat \<Rightarrow> nat \<Rightarrow> kst \<Rightarrow> kst outcome" where
  "dup_files p np st = ofold (\<lambda>i st.
     case p_ofile (kproc st p) ! i of
       None \<Rightarrow> Done st
     | Some f \<Rightarrow> obind (filedup f st) (\<lambda>st.
         Done (kset_proc np (\<lambda>x. x\<lparr>p_ofile := (p_ofile x)[i := Some f]\<rparr>) st))) [0..<NOFILE] st"

text \<open>The common part of \<open>fork\<close> and \<open>fork_deadline\<close>, up to where the child gets its parent.\<close>

definition fork_copy :: "kst \<Rightarrow> (nat option \<times> kst) outcome" where
  "fork_copy st =
     obind (current st) (\<lambda>p.
     obind (allocproc (kpt st)) (\<lambda>(r, pt).
       case r of
         None \<Rightarrow> Done (None, set_pt pt st)
       | Some np \<Rightarrow>
         obind (uvmcopy (pt_kmem pt) (p_pagetable (the_proc pt p)) (p_pagetable (the_proc pt np)) (p_sz (the_proc pt p))) (\<lambda>(e, k).
         let pt = set_kmem k pt in
         if e < 0 then obind (freeproc np pt) (\<lambda>pt. Done (None, set_pt pt st))
         else
           let pt = set_proc np (\<lambda>x. x\<lparr>p_sz := p_sz (the_proc pt p)\<rparr>) pt in
           obind (deref (p_trapframe (the_proc pt np))) (\<lambda>(pa, tf0).
           obind (deref (p_trapframe (the_proc pt p))) (\<lambda>(pa0, tf).
           let st = set_pt (set_proc np (\<lambda>x. x\<lparr>p_trapframe := Some (pa, tf\<lparr>tf_a0 := 0\<rparr>)\<rparr>) pt) st in
           obind (dup_files p np st) (\<lambda>st.
           obind (deref (p_cwd (kproc st p))) (\<lambda>cwd.
           case idup cwd st of (ip, st) \<Rightarrow>
           let st = kset_proc np (\<lambda>x. x\<lparr>p_cwd := Some ip\<rparr>) st in
           obind (safestrcpy (p_name (kproc st np)) (p_name (kproc st p)) 16) (\<lambda>nm.
           Done (Some np, kset_proc np (\<lambda>x. x\<lparr>p_name := nm, p_parent := Some p\<rparr>) st)))))))))"

definition fork :: "kst \<Rightarrow> (int \<times> kst) outcome" where
  "fork st = obind (fork_copy st) (\<lambda>(r, st).
     case r of
       None \<Rightarrow> Done (-1, st)
     | Some np \<Rightarrow> Done (sint (p_pid (kproc st np)), kset_proc np (\<lambda>x. x\<lparr>p_state := RUNNABLE\<rparr>) st))"

definition fork_deadline :: "u32 \<Rightarrow> kst \<Rightarrow> (int \<times> kst) outcome" where
  "fork_deadline dl st = obind (fork_copy st) (\<lambda>(r, st).
     case r of
       None \<Rightarrow> Done (-1, st)
     | Some np \<Rightarrow>
         let pid = sint (p_pid (kproc st np)); st = kset_proc np (\<lambda>x. x\<lparr>p_state := RUNNABLE\<rparr>) st in
         obind (upd_usage np (\<lambda>u. u\<lparr>deadline := dl\<rparr>) (ks_sys st)) (\<lambda>s. Done (pid, st\<lparr>ks_sys := s\<rparr>)))"

section \<open>exit and wait\<close>

definition close_files :: "nat \<Rightarrow> kst \<Rightarrow> kst outcome" where
  "close_files p st = ofold (\<lambda>fd st.
     case p_ofile (kproc st p) ! fd of
       None \<Rightarrow> Done st
     | Some f \<Rightarrow> obind (fileclose f st) (\<lambda>st.
         Done (kset_proc p (\<lambda>x. x\<lparr>p_ofile := (p_ofile x)[fd := None]\<rparr>) st))) [0..<NOFILE] st"

text \<open>\<open>exit\<close> up to the switch; the rest never runs.\<close>

definition exit_prepare :: "u32 \<Rightarrow> kst \<Rightarrow> kst outcome" where
  "exit_prepare status st =
     obind (current st) (\<lambda>p.
       if pt_initproc (kpt st) = Some p then Panic ''init exiting''
       else
         obind (close_files p st) (\<lambda>st.
         obind (begin_op st) (\<lambda>st.
         obind (deref (p_cwd (kproc st p))) (\<lambda>cwd.
         obind (iput cwd st) (\<lambda>st.
         obind (end_op st) (\<lambda>st.
         let st = kset_proc p (\<lambda>x. x\<lparr>p_cwd := None\<rparr>) st in
         Done (set_pt (exit_tail status p (kpt st)) st)))))))"

definition exit :: "(sys \<Rightarrow> sys outcome) \<Rightarrow> u32 \<Rightarrow> kst \<Rightarrow> 'a outcome" where
  "exit swtch status st =
     obind (exit_prepare status st) (\<lambda>st.
     obind (current st) (\<lambda>p.
     obind (acquire_p p (ks_sys st)) (\<lambda>s.
     obind (sched swtch s) (\<lambda>s. Panic ''zombie exit''))))"

text \<open>\<open>wait\<close> up to the point where it sleeps on the process itself.\<close>

definition wait :: "u64 \<Rightarrow> kst \<Rightarrow> (progress \<times> kst) outcome" where
  "wait addr st =
     obind (current st) (\<lambda>me.
     obind (wait_round addr me (kpt st)) (\<lambda>(r, pt).
     Done (case r of None \<Rightarrow> Asleep 0 | Some v \<Rightarrow> Returned (sint v), set_pt pt st)))"

end
