(* ===== verification/Syscall.thy ===== *)
theory Syscall
  imports Fork
begin

text \<open>
  \<^verbatim>\<open>kernel/syscall.c\<close>: fetching the arguments of a system call from the trap frame and from user
  memory. Strings are the bytes that were stored, with the terminating zero.
\<close>

definition fetchaddr :: "u64 \<Rightarrow> kst \<Rightarrow> u64 option outcome" where
  "fetchaddr addr st = obind (current st) (\<lambda>me.
     let p = kproc st me in
     if addr \<ge> p_sz p \<or> addr + 8 > p_sz p then Done None
     else obind (copyin (pt_kmem (kpt st)) (p_pagetable p) addr 8) (\<lambda>(r, bs).
       Done (if r \<noteq> 0 then None else Some (of_bytes bs))))"

definition fetchstr :: "u64 \<Rightarrow> nat \<Rightarrow> kst \<Rightarrow> (int \<times> u8 list) outcome" where
  "fetchstr addr maxlen st = obind (current st) (\<lambda>me.
     obind (copyinstr (pt_kmem (kpt st)) (p_pagetable (kproc st me)) addr maxlen) (\<lambda>(r, bs).
       if r < 0 then Done (-1, bs) else obind (strlen bs) (\<lambda>n. Done (int n, bs))))"

definition my_frame :: "kst \<Rightarrow> trapframe outcome" where
  "my_frame st = obind (current st) (\<lambda>me. obind (deref (p_trapframe (kproc st me))) (\<lambda>(pa, tf). Done tf))"

definition argraw :: "nat \<Rightarrow> kst \<Rightarrow> u64 outcome" where
  "argraw n st = obind (my_frame st) (\<lambda>tf.
     if n = 0 then Done (tf_a0 tf) else if n = 1 then Done (tf_a1 tf) else if n = 2 then Done (tf_a2 tf)
     else if n = 3 then Done (tf_a3 tf) else if n = 4 then Done (tf_a4 tf) else if n = 5 then Done (tf_a5 tf)
     else Panic ''argraw'')"

definition argint :: "nat \<Rightarrow> kst \<Rightarrow> u32 outcome" where
  "argint n st = obind (argraw n st) (\<lambda>v. Done (ucast v))"

definition argaddr :: "nat \<Rightarrow> kst \<Rightarrow> u64 outcome" where
  "argaddr n st = argraw n st"

definition argstr :: "nat \<Rightarrow> nat \<Rightarrow> kst \<Rightarrow> (int \<times> u8 list) outcome" where
  "argstr n maxlen st = obind (argaddr n st) (\<lambda>addr. fetchstr addr maxlen st)"

end
