(* ===== verification/Exec.thy ===== *)
theory Exec
  imports Syscall
begin

text \<open>
  \<^verbatim>\<open>kernel/exec.c\<close> and \<open>sys_exec\<close>: replacing the memory of a process by a program read from an ELF
  file. The structures \<^verbatim>\<open>elfhdr\<close> and \<^verbatim>\<open>proghdr\<close> of \<^verbatim>\<open>kernel/elf.h\<close> are read from the bytes of the file.
\<close>

section \<open>ELF headers\<close>

definition get64 :: "nat \<Rightarrow> u8 list \<Rightarrow> u64" where
  "get64 off bs = of_bytes (slice off 8 bs)"

record elfhdr =
  eh_magic :: u32
  eh_entry :: u64
  eh_phoff :: u64
  eh_phnum :: u16

definition elfhdr_of :: "u8 list \<Rightarrow> elfhdr" where
  "elfhdr_of bs = \<lparr>eh_magic = get32 0 bs, eh_entry = get64 24 bs, eh_phoff = get64 32 bs, eh_phnum = get16 56 bs\<rparr>"

record proghdr =
  ph_type :: u32
  ph_flags :: u32
  ph_off :: u64
  ph_vaddr :: u64
  ph_filesz :: u64
  ph_memsz :: u64

definition proghdr_of :: "u8 list \<Rightarrow> proghdr" where
  "proghdr_of bs = \<lparr>ph_type = get32 0 bs, ph_flags = get32 4 bs, ph_off = get64 8 bs, ph_vaddr = get64 16 bs,
     ph_filesz = get64 32 bs, ph_memsz = get64 40 bs\<rparr>"

abbreviation ELF_MAGIC :: u32 where
  "ELF_MAGIC \<equiv> 0x464C457F"

abbreviation ELF_PROG_LOAD :: u32 where
  "ELF_PROG_LOAD \<equiv> 1"

definition flags2perm :: "u32 \<Rightarrow> u64" where
  "flags2perm flags =
     (let perm = (if flags AND 1 \<noteq> 0 then PTE_X else 0)
      in if flags AND 2 \<noteq> 0 then perm OR PTE_W else perm)"

section \<open>Loading\<close>

text \<open>The loop of \<open>loadseg\<close>; the sum of offset and counter is a 32-bit word.\<close>

function loadseg_loop :: "u64 \<Rightarrow> u64 \<Rightarrow> nat \<Rightarrow> u32 \<Rightarrow> nat \<Rightarrow> nat \<Rightarrow> kst \<Rightarrow> (int \<times> kst) outcome" where
  "loadseg_loop pagetable va ip offset sz i st =
     (if i < sz then
        obind (walkaddr (pt_kmem (kpt st)) pagetable (va + of_nat i)) (\<lambda>pa.
          if pa = 0 then Panic ''loadseg: address should exist''
          else let n = (if sz - i < PGBYTES then sz - i else PGBYTES) in
            obind (readi ip (KernDst pa) (offset + of_nat i) (of_nat n) st) (\<lambda>(r, _, st).
              if r \<noteq> of_nat n then Done (-1, st)
              else loadseg_loop pagetable va ip offset sz (i + PGBYTES) st))
      else Done (0, st))"
  by pat_completeness auto
termination
  by (relation "measure (\<lambda>(pt, va, ip, off, sz, i, st). sz - i)") auto

declare loadseg_loop.simps [simp del]

definition loadseg :: "u64 \<Rightarrow> u64 \<Rightarrow> nat \<Rightarrow> u32 \<Rightarrow> u32 \<Rightarrow> kst \<Rightarrow> (int \<times> kst) outcome" where
  "loadseg pagetable va ip offset sz st = loadseg_loop pagetable va ip offset (unat sz) 0 st"

text \<open>
  The loop over the program headers, with the number of headers left; the results are whether all
  were loaded, and the size of the image so far.
\<close>

fun load_segments :: "nat \<Rightarrow> u64 \<Rightarrow> nat \<Rightarrow> u32 \<Rightarrow> u64 \<Rightarrow> kst \<Rightarrow> (bool \<times> u64 \<times> kst) outcome" where
  "load_segments ip pagetable 0 off sz st = Done (True, sz, st)"
| "load_segments ip pagetable (Suc n) off sz st =
     obind (readi ip LocalDst off 56 st) (\<lambda>(r, bs, st).
       if r \<noteq> 56 then Done (False, sz, st)
       else let ph = proghdr_of bs in
         if ph_type ph \<noteq> ELF_PROG_LOAD then load_segments ip pagetable n (off + 56) sz st
         else if ph_memsz ph < ph_filesz ph then Done (False, sz, st)
         else if ph_vaddr ph + ph_memsz ph < ph_vaddr ph then Done (False, sz, st)
         else if ph_vaddr ph mod PGSIZE \<noteq> 0 then Done (False, sz, st)
         else obind (uvmalloc (pt_kmem (kpt st)) pagetable sz (ph_vaddr ph + ph_memsz ph) (flags2perm (ph_flags ph))) (\<lambda>(sz1, k).
           let st = set_pt (set_kmem k (kpt st)) st in
           if sz1 = 0 then Done (False, sz, st)
           else obind (loadseg pagetable (ph_vaddr ph) ip (ucast (ph_off ph)) (ucast (ph_filesz ph)) st) (\<lambda>(r, st).
             if r < 0 then Done (False, sz1, st)
             else load_segments ip pagetable n (off + 56) sz1 st)))"

section \<open>The stack\<close>

abbreviation MAXARG :: nat where
  "MAXARG \<equiv> 32"

text \<open>A string on a page of the kernel.\<close>

definition page_string :: "u64 \<Rightarrow> kst \<Rightarrow> u8 list" where
  "page_string a st = peek (k_mem (pt_kmem (kpt st))) a PGBYTES"

definition align16 :: "u64 \<Rightarrow> u64" where
  "align16 sp = sp - sp mod 16"

text \<open>
  Pushing the argument strings: the stack pointer and the addresses of the strings, or \<open>None\<close>. The
  list of arguments ends with a null pointer.
\<close>

fun push_args :: "u64 \<Rightarrow> u64 \<Rightarrow> nat \<Rightarrow> u64 list \<Rightarrow> u64 \<Rightarrow> kst \<Rightarrow> ((u64 \<times> u64 list) option \<times> kst) outcome" where
  "push_args pagetable stackbase argc [] sp st = Fault"
| "push_args pagetable stackbase argc (a # argv) sp st =
     (if a = 0 then Done (Some (sp, []), st)
      else if argc \<ge> MAXARG then Done (None, st)
      else obind (strlen (page_string a st)) (\<lambda>n.
        let sp = align16 (sp - (of_nat n + 1)) in
        if sp < stackbase then Done (None, st)
        else obind (copyout (pt_kmem (kpt st)) pagetable sp (take (n + 1) (page_string a st))) (\<lambda>(r, k).
          let st = set_pt (set_kmem k (kpt st)) st in
          if r < 0 then Done (None, st)
          else obind (push_args pagetable stackbase (Suc argc) argv sp st) (\<lambda>(res, st).
            Done (map_option (\<lambda>(sp', us). (sp', sp # us)) res, st)))))"

text \<open>The part of the path after the last slash.\<close>

fun last_elem :: "u8 list \<Rightarrow> u8 list \<Rightarrow> u8 list" where
  "last_elem l [] = l"
| "last_elem l (c # s) = (if c = 0 then l else last_elem (if c = SLASH then s else l) s)"

definition exec_bad :: "u64 \<Rightarrow> u64 \<Rightarrow> nat option \<Rightarrow> kst \<Rightarrow> (int \<times> kst) outcome" where
  "exec_bad pagetable sz ip st =
     obind (if pagetable \<noteq> 0 then obind (proc_freepagetable pagetable sz (pt_kmem (kpt st))) (\<lambda>k.
              Done (set_pt (set_kmem k (kpt st)) st)) else Done st) (\<lambda>st.
     obind (case ip of None \<Rightarrow> Done st | Some ip \<Rightarrow> obind (iunlockput ip st) end_op) (\<lambda>st. Done (-1, st)))"

text \<open>Committing to the new image.\<close>

definition exec_commit :: "nat \<Rightarrow> u8 list \<Rightarrow> u64 \<Rightarrow> u64 \<Rightarrow> u64 \<Rightarrow> u64 \<Rightarrow> nat \<Rightarrow> kst \<Rightarrow> (int \<times> kst) outcome" where
  "exec_commit p pth pagetable sz sp entry argc st =
     (let oldpt = p_pagetable (kproc st p); oldsz = p_sz (kproc st p) in
      obind (deref (p_trapframe (kproc st p))) (\<lambda>(pa, tf).
      obind (safestrcpy (p_name (kproc st p)) (last_elem pth pth) 16) (\<lambda>nm.
      let st = kset_proc p (\<lambda>x. x\<lparr>p_name := nm, p_pagetable := pagetable, p_sz := sz,
                 p_trapframe := Some (pa, tf\<lparr>tf_a1 := sp, tf_epc := entry, tf_sp := sp\<rparr>)\<rparr>) st in
      obind (proc_freepagetable oldpt oldsz (pt_kmem (kpt st))) (\<lambda>k.
      Done (int argc, set_pt (set_kmem k (kpt st)) st)))))"

text \<open>The second half of \<open>exec\<close>: the user stack with the arguments.\<close>

definition exec_stack :: "nat \<Rightarrow> u8 list \<Rightarrow> u64 list \<Rightarrow> u64 \<Rightarrow> u64 \<Rightarrow> u64 \<Rightarrow> kst \<Rightarrow> (int \<times> kst) outcome" where
  "exec_stack p pth argv pagetable sz entry st =
     (let sz = PGROUNDUP sz in
      obind (uvmalloc (pt_kmem (kpt st)) pagetable sz (sz + 2 * PGSIZE) PTE_W) (\<lambda>(sz1, k).
      let st = set_pt (set_kmem k (kpt st)) st in
      if sz1 = 0 then exec_bad pagetable sz None st
      else obind (uvmclear (pt_kmem (kpt st)) pagetable (sz1 - 2 * PGSIZE)) (\<lambda>k.
        let st = set_pt (set_kmem k (kpt st)) st; stackbase = sz1 - PGSIZE in
        obind (push_args pagetable stackbase 0 argv sz1 st) (\<lambda>(res, st).
          case res of
            None \<Rightarrow> exec_bad pagetable sz1 None st
          | Some (sp, ustack) \<Rightarrow>
            let argc = length ustack; sp = align16 (sp - of_nat (argc + 1) * 8) in
            if sp < stackbase then exec_bad pagetable sz1 None st
            else obind (copyout (pt_kmem (kpt st)) pagetable sp (concat (map le64 (ustack @ [0])))) (\<lambda>(r, k).
              let st = set_pt (set_kmem k (kpt st)) st in
              if r < 0 then exec_bad pagetable sz1 None st
              else exec_commit p pth pagetable sz1 sp entry argc st)))))"

definition exec :: "u8 list \<Rightarrow> u64 list \<Rightarrow> kst \<Rightarrow> (int \<times> kst) outcome" where
  "exec pth argv st =
     obind (current st) (\<lambda>p.
     obind (begin_op st) (\<lambda>st.
     obind (namei pth st) (\<lambda>(ip, st).
       case ip of
         None \<Rightarrow> obind (end_op st) (\<lambda>st. Done (-1, st))
       | Some ip \<Rightarrow>
         obind (ilock (Some ip) st) (\<lambda>st.
         obind (readi ip LocalDst 0 64 st) (\<lambda>(r, bs, st).
         let elf = elfhdr_of bs in
         if r \<noteq> 64 \<or> eh_magic elf \<noteq> ELF_MAGIC then exec_bad 0 0 (Some ip) st
         else obind (deref (p_trapframe (kproc st p))) (\<lambda>(tfpa, tf).
           obind (proc_pagetable (pt_trampoline (kpt st)) tfpa (pt_kmem (kpt st))) (\<lambda>(pagetable, k).
           let st = set_pt (set_kmem k (kpt st)) st in
           if pagetable = 0 then exec_bad 0 0 (Some ip) st
           else obind (load_segments ip pagetable (unat (eh_phnum elf)) (ucast (eh_phoff elf)) 0 st) (\<lambda>(ok, sz, st).
             if \<not> ok then exec_bad pagetable sz (Some ip) st
             else obind (iunlockput ip st) (\<lambda>st.
               obind (end_op st) (\<lambda>st.
               exec_stack p pth argv pagetable sz (eh_entry elf) st))))))))))"

section \<open>The system call\<close>

text \<open>
  Fetching the arguments of \<open>sys_exec\<close>: every string gets a page. The results are whether the
  argument list was complete, and the pages.
\<close>

function fetch_args :: "u64 \<Rightarrow> nat \<Rightarrow> kst \<Rightarrow> (bool \<times> u64 list \<times> kst) outcome" where
  "fetch_args uargv i st =
     (if i \<ge> MAXARG then Done (False, [], st)
      else obind (fetchaddr (uargv + 8 * of_nat i) st) (\<lambda>uarg.
        case uarg of
          None \<Rightarrow> Done (False, [], st)
        | Some uarg \<Rightarrow>
          if uarg = 0 then Done (True, [], st)
          else case kalloc (pt_kmem (kpt st)) of (a, k) \<Rightarrow>
            let st = set_pt (set_kmem k (kpt st)) st in
            if a = 0 then Done (False, [], st)
            else obind (fetchstr uarg PGBYTES st) (\<lambda>(r, bs).
              let k = pt_kmem (kpt st); st = set_pt (set_kmem (set_mem (poke (k_mem k) a bs) k) (kpt st)) st in
              if r < 0 then Done (False, [a], st)
              else obind (fetch_args uargv (Suc i) st) (\<lambda>(ok, as, st). Done (ok, a # as, st)))))"
  by pat_completeness auto
termination
  by (relation "measure (\<lambda>(uargv, i, st). MAXARG - i)") auto

declare fetch_args.simps [simp del]

definition free_args :: "u64 list \<Rightarrow> kst \<Rightarrow> kst outcome" where
  "free_args as st = ofold (\<lambda>a st. obind (kfree (pt_kmem (kpt st)) a) (\<lambda>k. Done (set_pt (set_kmem k (kpt st)) st))) as st"

definition sys_exec :: "kst \<Rightarrow> (int \<times> kst) outcome" where
  "sys_exec st =
     obind (argaddr 1 st) (\<lambda>uargv.
     obind (argstr 0 128 st) (\<lambda>(r, pth).
     if r < 0 then Done (-1, st)
     else obind (fetch_args uargv 0 st) (\<lambda>(ok, as, st).
       if \<not> ok then obind (free_args as st) (\<lambda>st. Done (-1, st))
       else obind (exec pth (as @ replicate (MAXARG - length as) 0) st) (\<lambda>(ret, st).
         obind (free_args as st) (\<lambda>st. Done (ret, st))))))"

end
