(* ===== verification/SysFile.thy ===== *)
theory SysFile
  imports Exec
begin

text \<open>
  \<^verbatim>\<open>kernel/sysfile.c\<close>: the system calls on files. A call that cannot sleep in the middle returns its
  value as an integer; \<open>sys_read\<close> and \<open>sys_write\<close> may also have fallen asleep. Waiting for the log or
  for the lock of an inode is \<open>Hang\<close>, as in the functions below.
\<close>

section \<open>Descriptors\<close>

abbreviation MAXPATH :: nat where
  "MAXPATH \<equiv> 128"

definition argfd :: "nat \<Rightarrow> kst \<Rightarrow> (nat \<times> nat) option outcome" where
  "argfd n st =
     obind (argint n st) (\<lambda>fd.
     obind (current st) (\<lambda>me.
       if sint fd < 0 \<or> sint fd \<ge> int NOFILE then Done None
       else case p_ofile (kproc st me) ! unat fd of
         None \<Rightarrow> Done None
       | Some f \<Rightarrow> Done (Some (unat fd, f))))"

definition fdalloc :: "nat \<Rightarrow> kst \<Rightarrow> (nat option \<times> kst) outcome" where
  "fdalloc f st =
     obind (current st) (\<lambda>me.
       case find (\<lambda>fd. p_ofile (kproc st me) ! fd = None) [0..<NOFILE] of
         None \<Rightarrow> Done (None, st)
       | Some fd \<Rightarrow> Done (Some fd, kset_proc me (\<lambda>p. p\<lparr>p_ofile := (p_ofile p)[fd := Some f]\<rparr>) st))"

definition clear_fd :: "nat \<Rightarrow> kst \<Rightarrow> kst outcome" where
  "clear_fd fd st = obind (current st) (\<lambda>me. Done (kset_proc me (\<lambda>p. p\<lparr>p_ofile := (p_ofile p)[fd := None]\<rparr>) st))"

definition sys_dup :: "kst \<Rightarrow> (int \<times> kst) outcome" where
  "sys_dup st =
     obind (argfd 0 st) (\<lambda>r.
       case r of
         None \<Rightarrow> Done (-1, st)
       | Some (_, f) \<Rightarrow>
         obind (fdalloc f st) (\<lambda>(r, st).
           case r of
             None \<Rightarrow> Done (-1, st)
           | Some fd \<Rightarrow> obind (filedup f st) (\<lambda>st. Done (int fd, st))))"

definition sys_read :: "kst \<Rightarrow> (progress \<times> kst) outcome" where
  "sys_read st =
     obind (argaddr 1 st) (\<lambda>p.
     obind (argint 2 st) (\<lambda>n.
     obind (argfd 0 st) (\<lambda>r.
       case r of None \<Rightarrow> Done (Returned (-1), st) | Some (_, f) \<Rightarrow> fileread f p n st)))"

definition sys_write :: "kst \<Rightarrow> (progress \<times> kst) outcome" where
  "sys_write st =
     obind (argaddr 1 st) (\<lambda>p.
     obind (argint 2 st) (\<lambda>n.
     obind (argfd 0 st) (\<lambda>r.
       case r of None \<Rightarrow> Done (Returned (-1), st) | Some (_, f) \<Rightarrow> filewrite f p n st)))"

definition sys_close :: "kst \<Rightarrow> (int \<times> kst) outcome" where
  "sys_close st =
     obind (argfd 0 st) (\<lambda>r.
       case r of
         None \<Rightarrow> Done (-1, st)
       | Some (fd, f) \<Rightarrow>
         obind (clear_fd fd st) (\<lambda>st.
         obind (fileclose f st) (\<lambda>st. Done (0, st))))"

definition sys_fstat :: "u8 list \<Rightarrow> kst \<Rightarrow> (int \<times> kst) outcome" where
  "sys_fstat pad st =
     obind (argaddr 1 st) (\<lambda>a.
     obind (argfd 0 st) (\<lambda>r.
       case r of None \<Rightarrow> Done (-1, st) | Some (_, f) \<Rightarrow> filestat pad f a st))"

section \<open>Links\<close>

definition add_nlink :: "nat \<Rightarrow> u16 \<Rightarrow> kst \<Rightarrow> kst" where
  "add_nlink ip d st = set_inode ip (\<lambda>n. n\<lparr>i_d := (i_d n)\<lparr>di_nlink := di_nlink (i_d n) + d\<rparr>\<rparr>) st"

text \<open>Ending the transaction of a call that fails.\<close>

definition fail_op :: "kst \<Rightarrow> (int \<times> kst) outcome" where
  "fail_op st = obind (end_op st) (\<lambda>st. Done (-1, st))"

definition link_bad :: "nat \<Rightarrow> kst \<Rightarrow> (int \<times> kst) outcome" where
  "link_bad ip st =
     obind (ilock (Some ip) st) (\<lambda>st.
     obind (iupdate ip (add_nlink ip (-1) st)) (\<lambda>st.
     obind (iunlockput ip st) fail_op))"

definition link_inode :: "nat \<Rightarrow> u8 list \<Rightarrow> kst \<Rightarrow> (int \<times> kst) outcome" where
  "link_inode ip new st =
     obind (nameiparent new (replicate DIRSIZ 0) st) (\<lambda>(dp, name, st).
       case dp of
         None \<Rightarrow> link_bad ip st
       | Some dp \<Rightarrow>
         obind (ilock (Some dp) st) (\<lambda>st.
         obind (if i_dev (the_inode st dp) \<noteq> i_dev (the_inode st ip) then Done (-1, st)
                else dirlink dp name (i_inum (the_inode st ip)) st) (\<lambda>(r, st).
           if r < 0 then obind (iunlockput dp st) (link_bad ip)
           else obind (iunlockput dp st) (\<lambda>st.
             obind (iput ip st) (\<lambda>st.
             obind (end_op st) (\<lambda>st. Done (0, st)))))))"

definition sys_link :: "kst \<Rightarrow> (int \<times> kst) outcome" where
  "sys_link st =
     obind (argstr 0 MAXPATH st) (\<lambda>(r, old).
     if r < 0 then Done (-1, st)
     else obind (argstr 1 MAXPATH st) (\<lambda>(r, new).
     if r < 0 then Done (-1, st)
     else obind (begin_op st) (\<lambda>st.
       obind (namei old st) (\<lambda>(ip, st).
         case ip of
           None \<Rightarrow> fail_op st
         | Some ip \<Rightarrow>
           obind (ilock (Some ip) st) (\<lambda>st.
             if di_type (i_d (the_inode st ip)) = T_DIR then obind (iunlockput ip st) fail_op
             else obind (iupdate ip (add_nlink ip 1 st)) (\<lambda>st.
               obind (iunlock (Some ip) st) (link_inode ip new)))))))"

function isdirempty_loop :: "nat \<Rightarrow> nat \<Rightarrow> nat \<Rightarrow> kst \<Rightarrow> (bool \<times> kst) outcome" where
  "isdirempty_loop dp sz off st =
     (if off < sz then
        obind (readi dp LocalDst (of_nat off) 16 st) (\<lambda>(r, bs, st).
          if r \<noteq> 16 then Panic ''isdirempty: readi''
          else if de_inum (dirent_of bs) \<noteq> 0 then Done (False, st)
          else isdirempty_loop dp sz (off + 16) st)
      else Done (True, st))"
  by pat_completeness auto
termination
  by (relation "measure (\<lambda>(dp, sz, off, st). sz - off)") auto

declare isdirempty_loop.simps [simp del]

definition isdirempty :: "nat \<Rightarrow> kst \<Rightarrow> (bool \<times> kst) outcome" where
  "isdirempty dp st = isdirempty_loop dp (unat (di_size (i_d (the_inode st dp)))) 32 st"

text \<open>The removal of the entry at \<open>off\<close> of \<open>dp\<close>, both inodes being locked.\<close>

definition unlink_entry :: "nat \<Rightarrow> nat \<Rightarrow> nat \<Rightarrow> kst \<Rightarrow> (int \<times> kst) outcome" where
  "unlink_entry dp ip off st =
     obind (writei dp (LocalSrc (replicate 16 0)) (of_nat off) 16 st) (\<lambda>(r, st).
       if r \<noteq> 16 then Panic ''unlink: writei''
       else
         obind (if di_type (i_d (the_inode st ip)) = T_DIR then iupdate dp (add_nlink dp (-1) st) else Done st) (\<lambda>st.
         obind (iunlockput dp st) (\<lambda>st.
         obind (iupdate ip (add_nlink ip (-1) st)) (\<lambda>st.
         obind (iunlockput ip st) (\<lambda>st.
         obind (end_op st) (\<lambda>st. Done (0, st)))))))"

definition unlink_found :: "nat \<Rightarrow> nat \<Rightarrow> nat \<Rightarrow> kst \<Rightarrow> (int \<times> kst) outcome" where
  "unlink_found dp ip off st =
     obind (ilock (Some ip) st) (\<lambda>st.
       if sint (di_nlink (i_d (the_inode st ip))) < 1 then Panic ''unlink: nlink < 1''
       else
         obind (if di_type (i_d (the_inode st ip)) = T_DIR then isdirempty ip st else Done (True, st)) (\<lambda>(empty, st).
           if \<not> empty then obind (iunlockput ip st) (\<lambda>st. obind (iunlockput dp st) fail_op)
           else unlink_entry dp ip off st))"

definition sys_unlink :: "kst \<Rightarrow> (int \<times> kst) outcome" where
  "sys_unlink st =
     obind (argstr 0 MAXPATH st) (\<lambda>(r, pth).
     if r < 0 then Done (-1, st)
     else obind (begin_op st) (\<lambda>st.
       obind (nameiparent pth (replicate DIRSIZ 0) st) (\<lambda>(dp, name, st).
         case dp of
           None \<Rightarrow> fail_op st
         | Some dp \<Rightarrow>
           obind (ilock (Some dp) st) (\<lambda>st.
           obind (namecmp name (str0 ''.'')) (\<lambda>c1.
           obind (namecmp name (str0 ''..'')) (\<lambda>c2.
             if c1 = 0 \<or> c2 = 0 then obind (iunlockput dp st) fail_op
             else obind (dirlookup dp name st) (\<lambda>(r, st).
               case r of
                 None \<Rightarrow> obind (iunlockput dp st) fail_op
               | Some (ip, off) \<Rightarrow> unlink_found dp ip off st)))))))"

section \<open>Creating and opening\<close>

definition create_fail :: "nat \<Rightarrow> nat \<Rightarrow> kst \<Rightarrow> (nat option \<times> kst) outcome" where
  "create_fail dp ip st =
     obind (iupdate ip (set_inode ip (\<lambda>n. n\<lparr>i_d := (i_d n)\<lparr>di_nlink := 0\<rparr>\<rparr>) st)) (\<lambda>st.
     obind (iunlockput ip st) (\<lambda>st.
     obind (iunlockput dp st) (\<lambda>st. Done (None, st))))"

text \<open>The entries \<^verbatim>\<open>.\<close> and \<^verbatim>\<open>..\<close> of a new directory.\<close>

definition dot_entries :: "nat \<Rightarrow> nat \<Rightarrow> kst \<Rightarrow> (int \<times> kst) outcome" where
  "dot_entries dp ip st =
     obind (dirlink ip (str0 ''.'') (i_inum (the_inode st ip)) st) (\<lambda>(r, st).
     if r < 0 then Done (-1, st) else dirlink ip (str0 ''..'') (i_inum (the_inode st dp)) st)"

definition create_new :: "nat \<Rightarrow> u8 list \<Rightarrow> u16 \<Rightarrow> u16 \<Rightarrow> u16 \<Rightarrow> nat \<Rightarrow> kst \<Rightarrow> (nat option \<times> kst) outcome" where
  "create_new dp name type major minor ip st =
     obind (ilock (Some ip) st) (\<lambda>st.
     let st = set_inode ip (\<lambda>n. n\<lparr>i_d := (i_d n)\<lparr>di_major := major, di_minor := minor, di_nlink := 1\<rparr>\<rparr>) st in
     obind (iupdate ip st) (\<lambda>st.
     obind (if type = T_DIR then dot_entries dp ip st else Done (0, st)) (\<lambda>(r, st).
       if r < 0 then create_fail dp ip st
       else obind (dirlink dp name (i_inum (the_inode st ip)) st) (\<lambda>(r, st).
         if r < 0 then create_fail dp ip st
         else
           obind (if type = T_DIR then iupdate dp (add_nlink dp 1 st) else Done st) (\<lambda>st.
           obind (iunlockput dp st) (\<lambda>st. Done (Some ip, st)))))))"

definition create :: "u8 list \<Rightarrow> u16 \<Rightarrow> u16 \<Rightarrow> u16 \<Rightarrow> kst \<Rightarrow> (nat option \<times> kst) outcome" where
  "create pth type major minor st =
     obind (nameiparent pth (replicate DIRSIZ 0) st) (\<lambda>(dp, name, st).
       case dp of
         None \<Rightarrow> Done (None, st)
       | Some dp \<Rightarrow>
         obind (ilock (Some dp) st) (\<lambda>st.
         obind (dirlookup dp name st) (\<lambda>(r, st).
           case r of
             Some (ip, _) \<Rightarrow>
               obind (iunlockput dp st) (\<lambda>st.
               obind (ilock (Some ip) st) (\<lambda>st.
               let t = di_type (i_d (the_inode st ip)) in
               if type = T_FILE \<and> (t = T_FILE \<or> t = T_DEVICE) then Done (Some ip, st)
               else obind (iunlockput ip st) (\<lambda>st. Done (None, st))))
           | None \<Rightarrow>
               obind (ialloc (i_dev (the_inode st dp)) type st) (\<lambda>(ip, st).
                 case ip of
                   None \<Rightarrow> obind (iunlockput dp st) (\<lambda>st. Done (None, st))
                 | Some ip \<Rightarrow> create_new dp name type major minor ip st))))"

abbreviation O_WRONLY :: u32 where
  "O_WRONLY \<equiv> 0x001"

abbreviation O_RDWR :: u32 where
  "O_RDWR \<equiv> 0x002"

abbreviation O_CREATE :: u32 where
  "O_CREATE \<equiv> 0x200"

abbreviation O_TRUNC :: u32 where
  "O_TRUNC \<equiv> 0x400"

text \<open>The inode that \<open>sys_open\<close> opens, locked; \<open>None\<close> when the call fails.\<close>

definition open_inode :: "u8 list \<Rightarrow> u32 \<Rightarrow> kst \<Rightarrow> (nat option \<times> kst) outcome" where
  "open_inode pth omode st =
     (if omode AND O_CREATE \<noteq> 0 then create pth T_FILE 0 0 st
      else obind (namei pth st) (\<lambda>(ip, st).
        case ip of
          None \<Rightarrow> Done (None, st)
        | Some ip \<Rightarrow>
          obind (ilock (Some ip) st) (\<lambda>st.
            if di_type (i_d (the_inode st ip)) = T_DIR \<and> omode \<noteq> 0
            then obind (iunlockput ip st) (\<lambda>st. Done (None, st))
            else Done (Some ip, st))))"

text \<open>The file structure and its descriptor, or neither.\<close>

definition open_file :: "kst \<Rightarrow> ((nat \<times> nat) option \<times> kst) outcome" where
  "open_file st = (case filealloc st of (f, st) \<Rightarrow>
     (case f of
        None \<Rightarrow> Done (None, st)
      | Some f \<Rightarrow>
        obind (fdalloc f st) (\<lambda>(fd, st).
          case fd of
            None \<Rightarrow> obind (fileclose f st) (\<lambda>st. Done (None, st))
          | Some fd \<Rightarrow> Done (Some (fd, f), st))))"

definition set_opened :: "nat \<Rightarrow> nat \<Rightarrow> u32 \<Rightarrow> kst \<Rightarrow> kst" where
  "set_opened f ip omode st =
     (let d = i_d (the_inode st ip);
          st = set_file f (\<lambda>x. if di_type d = T_DEVICE then x\<lparr>f_type := FD_DEVICE, f_major := di_major d\<rparr>
                 else x\<lparr>f_type := FD_INODE, f_off := 0\<rparr>) st
      in set_file f (\<lambda>x. x\<lparr>f_ip := Some ip, f_readable := (omode AND O_WRONLY = 0),
           f_writable := (omode AND O_WRONLY \<noteq> 0 \<or> omode AND O_RDWR \<noteq> 0)\<rparr>) st)"

definition sys_open :: "kst \<Rightarrow> (int \<times> kst) outcome" where
  "sys_open st =
     obind (argint 1 st) (\<lambda>omode.
     obind (argstr 0 MAXPATH st) (\<lambda>(n, pth).
     if n < 0 then Done (-1, st)
     else obind (begin_op st) (\<lambda>st.
       obind (open_inode pth omode st) (\<lambda>(ip, st).
         case ip of
           None \<Rightarrow> fail_op st
         | Some ip \<Rightarrow>
           let d = i_d (the_inode st ip) in
           if di_type d = T_DEVICE \<and> (sint (di_major d) < 0 \<or> sint (di_major d) \<ge> NDEV)
           then obind (iunlockput ip st) fail_op
           else obind (open_file st) (\<lambda>(r, st).
             case r of
               None \<Rightarrow> obind (iunlockput ip st) fail_op
             | Some (fd, f) \<Rightarrow>
               let st = set_opened f ip omode st in
               obind (if omode AND O_TRUNC \<noteq> 0 \<and> di_type (i_d (the_inode st ip)) = T_FILE then itrunc ip st else Done st) (\<lambda>st.
               obind (iunlock (Some ip) st) (\<lambda>st.
               obind (end_op st) (\<lambda>st. Done (int fd, st)))))))))"

text \<open>The common form of \<open>sys_mkdir\<close> and \<open>sys_mknod\<close> after their arguments.\<close>

definition make_node :: "u16 \<Rightarrow> u16 \<Rightarrow> u16 \<Rightarrow> kst \<Rightarrow> (int \<times> kst) outcome" where
  "make_node type major minor st =
     obind (argstr 0 MAXPATH st) (\<lambda>(r, pth).
     if r < 0 then fail_op st
     else obind (create pth type major minor st) (\<lambda>(ip, st).
       case ip of
         None \<Rightarrow> fail_op st
       | Some ip \<Rightarrow> obind (iunlockput ip st) (\<lambda>st. obind (end_op st) (\<lambda>st. Done (0, st)))))"

definition sys_mkdir :: "kst \<Rightarrow> (int \<times> kst) outcome" where
  "sys_mkdir st = obind (begin_op st) (make_node T_DIR 0 0)"

definition sys_mknod :: "kst \<Rightarrow> (int \<times> kst) outcome" where
  "sys_mknod st =
     obind (begin_op st) (\<lambda>st.
     obind (argint 1 st) (\<lambda>major.
     obind (argint 2 st) (\<lambda>minor. make_node T_DEVICE (ucast major) (ucast minor) st)))"

definition sys_chdir :: "kst \<Rightarrow> (int \<times> kst) outcome" where
  "sys_chdir st =
     obind (current st) (\<lambda>p.
     obind (begin_op st) (\<lambda>st.
     obind (argstr 0 MAXPATH st) (\<lambda>(r, pth).
     if r < 0 then fail_op st
     else obind (namei pth st) (\<lambda>(ip, st).
       case ip of
         None \<Rightarrow> fail_op st
       | Some ip \<Rightarrow>
         obind (ilock (Some ip) st) (\<lambda>st.
           if di_type (i_d (the_inode st ip)) \<noteq> T_DIR then obind (iunlockput ip st) fail_op
           else obind (iunlock (Some ip) st) (\<lambda>st.
             obind (deref (p_cwd (kproc st p))) (\<lambda>cwd.
             obind (iput cwd st) (\<lambda>st.
             obind (end_op st) (\<lambda>st. Done (0, kset_proc p (\<lambda>x. x\<lparr>p_cwd := Some ip\<rparr>) st)))))))))) "

text \<open>Closing both ends of a pipe whose creation fails, and storing a descriptor at a user address.\<close>

definition pipe_bad :: "nat \<Rightarrow> nat \<Rightarrow> kst \<Rightarrow> (int \<times> kst) outcome" where
  "pipe_bad rf wf1 st = obind (fileclose rf st) (\<lambda>st. obind (fileclose wf1 st) (\<lambda>st. Done (-1, st)))"

definition put_fd :: "u64 \<Rightarrow> nat \<Rightarrow> kst \<Rightarrow> (int \<times> kst) outcome" where
  "put_fd a fd st = obind (current st) (\<lambda>p.
     obind (copyout (pt_kmem (kpt st)) (p_pagetable (kproc st p)) a (le32 (of_nat fd))) (\<lambda>(r, k).
     Done (r, set_pt (set_kmem k (kpt st)) st)))"

definition sys_pipe :: "kst \<Rightarrow> (int \<times> kst) outcome" where
  "sys_pipe st =
     obind (argaddr 0 st) (\<lambda>fdarray.
     obind (pipealloc st) (\<lambda>(r, st).
       case r of
         None \<Rightarrow> Done (-1, st)
       | Some (rf, wf1) \<Rightarrow>
         obind (fdalloc rf st) (\<lambda>(fd0, st).
           case fd0 of
             None \<Rightarrow> pipe_bad rf wf1 st
           | Some fd0 \<Rightarrow>
             obind (fdalloc wf1 st) (\<lambda>(fd1, st).
               case fd1 of
                 None \<Rightarrow> obind (clear_fd fd0 st) (pipe_bad rf wf1)
               | Some fd1 \<Rightarrow>
                 obind (put_fd fdarray fd0 st) (\<lambda>(r, st).
                 obind (if r < 0 then Done (-1, st) else put_fd (fdarray + 4) fd1 st) (\<lambda>(r, st).
                   if r < 0
                   then obind (clear_fd fd0 st) (\<lambda>st. obind (clear_fd fd1 st) (pipe_bad rf wf1))
                   else Done (0, st)))))))"

end
