(* ===== verification/Reports.thy ===== *)
theory Reports
  imports ProcDefs CString
begin

text \<open>
  The reporting system calls that the repository adds: trap reports (\<open>add_report_trap\<close> of
  \<^verbatim>\<open>kernel/trap.c\<close> and \<open>report_traps\<close> of \<^verbatim>\<open>kernel/proc.c\<close>), \<open>child_processes\<close> with \<open>is_father\<close>,
  \<open>top_func\<close>, \<open>set_cpu_quota\<close> and \<open>cpu_used\<close>. Arrays that the code leaves uninitialised are
  arguments. Each critical section of \<^verbatim>\<open>p->lock\<close> and \<^verbatim>\<open>wait_lock\<close> is one step.
\<close>

section \<open>Trap reports\<close>

text \<open>The loop that stores the identifiers of the ancestors.\<close>

fun collect_parents :: "proc list \<Rightarrow> nat \<Rightarrow> nat option \<Rightarrow> report \<Rightarrow> report outcome" where
  "collect_parents ps 0 parent rep = Done rep"
| "collect_parents ps (Suc n) None rep = Fault"
| "collect_parents ps (Suc n) (Some j) rep =
     (let rep = rep\<lparr>rep_parents := (rep_parents rep)[rep_parents_count rep := p_pid (ps ! j)],
          rep_parents_count := rep_parents_count rep + 1\<rparr> in
      if p_pid (ps ! j) = 1 then Done rep else collect_parents ps n (p_parent (ps ! j)) rep)"

definition store_report :: "report \<Rightarrow> report_list \<Rightarrow> report_list" where
  "store_report rep rl =
     (let rl = rl\<lparr>rl_reports := (rl_reports rl)[rl_writeIndex rl := rep]\<rparr>;
          rl = (if rl_writeIndex rl = MAX_REPORT_BUFFER_SIZE - 1 then rl\<lparr>rl_writeIndex := 0\<rparr>
                else rl\<lparr>rl_writeIndex := rl_writeIndex rl + 1\<rparr>)
      in if rl_numberOfReports rl \<noteq> MAX_REPORT_BUFFER_SIZE
         then rl\<lparr>rl_numberOfReports := rl_numberOfReports rl + 1\<rparr> else rl)"

text \<open>
  \<open>rep\<close> is the uninitialised local variable, \<open>cause\<close>, \<open>epc\<close> and \<open>tval\<close> the trap registers.
\<close>

definition add_report_trap :: "report \<Rightarrow> u64 \<Rightarrow> u64 \<Rightarrow> u64 \<Rightarrow> proc list \<Rightarrow> nat \<Rightarrow> report_list \<Rightarrow>
    report_list outcome" where
  "add_report_trap rep cause epc tval ps me rl =
     (let p = ps ! me;
          rep = rep\<lparr>rep_parents_count := 0, rep_scause := cause, rep_sepc := epc, rep_stval := tval,
            rep_pid := p_pid p\<rparr>
      in obind (strncpy (rep_pname rep) (p_name p) 16) (\<lambda>nm.
         obind (collect_parents ps MAX_PARENT_BUFFER_SIZE (p_parent p) (rep\<lparr>rep_pname := nm\<rparr>)) (\<lambda>rep.
           Done (store_report rep rl))))"

text \<open>The inner loop of \<open>report_traps\<close>: is the caller among the stored ancestors?\<close>

definition reported_to :: "u32 \<Rightarrow> report \<Rightarrow> bool" where
  "reported_to father rp \<longleftrightarrow> (\<exists>j\<in>set [0..<rep_parents_count rp]. rep_parents rp ! j = father)"

fun report_traps_loop :: "u32 \<Rightarrow> report list \<Rightarrow> report_traps \<Rightarrow> report_traps" where
  "report_traps_loop father [] rt = rt"
| "report_traps_loop father (rp # rps) rt =
     (let rt = (if reported_to father rp
                then rt\<lparr>rt_reports := (rt_reports rt)[rt_count rt := rp], rt_count := rt_count rt + 1\<rparr>
                else rt)
      in if rt_count rt = MAX_REPORT_BUFFER_SIZE then rt else report_traps_loop father rps rt)"

definition report_traps_sys :: "proc list \<Rightarrow> nat \<Rightarrow> report_list \<Rightarrow> report_traps \<Rightarrow> int \<times> report_traps" where
  "report_traps_sys ps me rl rt =
     (let rt = rt\<lparr>rt_count := 0\<rparr>; father_pid = p_pid (ps ! me) in
      (0, report_traps_loop father_pid (take (rl_numberOfReports rl) (rl_reports rl)) rt))"

section \<open>Child processes\<close>

text \<open>
  \<open>is_father\<close> calls itself on the parent. The first argument bounds the number of calls; \<open>Hang\<close>
  stands for a chain of parents that is longer, that is cyclic when the bound is \<^verbatim>\<open>NPROC\<close>.
\<close>

fun is_father :: "nat \<Rightarrow> proc list \<Rightarrow> u32 \<Rightarrow> nat option \<Rightarrow> bool outcome" where
  "is_father 0 ps father_id p = Hang"
| "is_father (Suc n) ps father_id None = Fault"
| "is_father (Suc n) ps father_id (Some i) =
     (let result = (father_id = p_pid (ps ! i)); flag = (p_pid (ps ! i) = 1) in
      if result \<or> flag then Done result else is_father n ps father_id (p_parent (ps ! i)))"

definition add_child :: "proc list \<Rightarrow> u32 \<Rightarrow> nat \<Rightarrow> child_processes \<Rightarrow> child_processes outcome" where
  "add_child ps father_pid i cps =
     (if p_state (ps ! i) = UNUSED then Done cps
      else obind (is_father NPROC ps father_pid (Some i)) (\<lambda>b.
        if b then
          (let index = cps_count cps; e = cps_processes cps ! index;
               e = e\<lparr>pc_pid := p_pid (ps ! i), pc_state := p_state (ps ! i)\<rparr> in
           obind (strncpy (pc_name e) (p_name (ps ! i)) 16) (\<lambda>nm.
           obind (deref (p_parent (ps ! i))) (\<lambda>father.
             Done (cps\<lparr>cps_processes := (cps_processes cps)[index :=
                 e\<lparr>pc_name := nm, pc_ppid := p_pid (ps ! father)\<rparr>],
               cps_count := cps_count cps + 1\<rparr>))))
        else Done cps))"

definition child_processes_sys :: "proc list \<Rightarrow> nat \<Rightarrow> child_processes \<Rightarrow> (int \<times> child_processes) outcome" where
  "child_processes_sys ps me cps =
     obind (ofold (add_child ps (p_pid (ps ! me))) [0..<length ps] (cps\<lparr>cps_count := 0\<rparr>))
       (\<lambda>cps. Done (0, cps))"

section \<open>CPU usage\<close>

definition cpu_used :: "proc list \<Rightarrow> nat \<Rightarrow> u32 outcome" where
  "cpu_used ps me = obind (usage_of ps me) (\<lambda>u. Done (sum_of_ticks u))"

text \<open>The loop of \<open>set_cpu_quota\<close>; results are 0, -1 and -2.\<close>

fun set_cpu_quota_loop :: "u32 \<Rightarrow> u32 \<Rightarrow> nat list \<Rightarrow> proc list \<Rightarrow> (int \<times> proc list) outcome" where
  "set_cpu_quota_loop pid quot [] ps = Done (-2, ps)"
| "set_cpu_quota_loop pid quot (i # is) ps =
     (if p_state (ps ! i) = UNUSED then set_cpu_quota_loop pid quot is ps
      else (let pid_to_check = p_pid (ps ! i) in
            if pid_to_check = pid then
              (if pid = p_pid (ps ! i)
               then obind (deref (p_usage_time (ps ! i))) (\<lambda>(pa, u).
                      Done (0, upd_proc i (\<lambda>p. p\<lparr>p_usage_time := Some (pa, u\<lparr>quota := quot\<rparr>)\<rparr>) ps))
               else Done (-1, ps))
            else set_cpu_quota_loop pid quot is ps))"

definition set_cpu_quota :: "u32 \<Rightarrow> u32 \<Rightarrow> proc list \<Rightarrow> (int \<times> proc list) outcome" where
  "set_cpu_quota pid quot ps = set_cpu_quota_loop pid quot [0..<length ps] ps"

section \<open>The process listing\<close>

definition top_entry :: "proc list \<Rightarrow> nat \<Rightarrow> top_struct \<Rightarrow> top_struct outcome" where
  "top_entry ps i ts =
     (if p_state (ps ! i) = UNUSED then Done ts
      else (let p = ps ! i; e = top_processes ts ! i in
        obind (strncpy (pi_name e) (p_name p) 16) (\<lambda>nm.
        obind (deref (p_usage_time p)) (\<lambda>(_, u).
          let pp = (case p_parent p of Some j \<Rightarrow> p_pid (ps ! j) | None \<Rightarrow> 0) in
          Done (ts\<lparr>top_count := top_count ts + 1, top_processes := (top_processes ts)[i :=
            e\<lparr>pi_name := nm, pi_state := p_state p, pi_pid := p_pid p, pi_ppid := pp, pi_usage := u\<rparr>]\<rparr>)))))"

text \<open>One step of the inner loop of the sort, and the two loops.\<close>

definition top_swap :: "nat \<Rightarrow> proc_info list \<Rightarrow> proc_info list" where
  "top_swap j es =
     (if sum_of_ticks (pi_usage (es ! j)) < sum_of_ticks (pi_usage (es ! (j - 1)))
      then (let temp = es ! (j - 1); es = es[j - 1 := es ! j] in es[j := temp])
      else es)"

definition top_sort :: "nat \<Rightarrow> proc_info list \<Rightarrow> proc_info list" where
  "top_sort n es = fold (\<lambda>i es. fold top_swap (rev [1..<i + 1]) es) [1..<n] es"

definition top_func :: "proc list \<Rightarrow> top_struct \<Rightarrow> (int \<times> top_struct) outcome" where
  "top_func ps ts =
     obind (ofold (top_entry ps) [0..<length ps] (ts\<lparr>top_count := 0\<rparr>)) (\<lambda>ts.
       Done (0, ts\<lparr>top_processes := top_sort (top_count ts) (top_processes ts)\<rparr>))"

section \<open>The buffer of trap reports\<close>

text \<open>\<open>report_ring hist rl\<close>: the buffer after the reports \<open>hist\<close> have been stored.\<close>

definition report_ring :: "report list \<Rightarrow> report_list \<Rightarrow> bool" where
  "report_ring hist rl \<longleftrightarrow> length (rl_reports rl) = MAX_REPORT_BUFFER_SIZE \<and>
     rl_numberOfReports rl = min MAX_REPORT_BUFFER_SIZE (length hist) \<and>
     rl_writeIndex rl = length hist mod MAX_REPORT_BUFFER_SIZE \<and>
     (\<forall>i<length hist. length hist \<le> i + MAX_REPORT_BUFFER_SIZE \<longrightarrow>
        rl_reports rl ! (i mod MAX_REPORT_BUFFER_SIZE) = hist ! i)"

lemma ring_slot_neq:
  assumes "i < n" and "n < i + 10"
  shows "n mod 10 \<noteq> i mod (10 :: nat)"
proof
  assume "n mod 10 = i mod 10"
  then have "10 dvd n - i" using assms by (metis less_imp_le_nat mod_eq_dvd_iff_nat)
  then show False using assms by (auto dest: dvd_imp_le)
qed

lemma store_report_ring:
  assumes "report_ring hist rl"
  shows "report_ring (hist @ [rep]) (store_report rep rl)"
proof -
  have w: "rl_writeIndex rl = length hist mod 10" "length (rl_reports rl) = 10"
    "rl_numberOfReports rl = min 10 (length hist)"
    and old: "\<And>i. i < length hist \<Longrightarrow> length hist \<le> i + 10 \<Longrightarrow> rl_reports rl ! (i mod 10) = hist ! i"
    using assms by (simp_all add: report_ring_def)
  have rep: "rl_reports (store_report rep rl) = (rl_reports rl)[length hist mod 10 := rep]"
    by (simp add: store_report_def Let_def w)
  have "rl_writeIndex (store_report rep rl) = Suc (length hist) mod 10"
    by (simp add: store_report_def Let_def w mod_Suc)
  moreover have "rl_numberOfReports (store_report rep rl) = min 10 (Suc (length hist))"
    by (auto simp: store_report_def Let_def w)
  moreover have "rl_reports (store_report rep rl) ! (i mod 10) = (hist @ [rep]) ! i"
    if "i < Suc (length hist)" "Suc (length hist) \<le> i + 10" for i
  proof (cases "i = length hist")
    case False
    then have "length hist mod 10 \<noteq> i mod 10" using that by (intro ring_slot_neq) auto
    then show ?thesis using that False old [of i] by (simp add: rep nth_append)
  qed (simp add: rep w)
  ultimately show ?thesis using w by (simp add: report_ring_def rep)
qed

lemma fold_store_report:
  "report_ring hist rl \<Longrightarrow> report_ring (hist @ rs) (fold store_report rs rl)"
proof (induction rs arbitrary: hist rl)
  case (Cons r rs)
  from Cons.IH [OF store_report_ring [OF Cons.prems]] show ?case by simp
qed simp

lemma mset_rotate_list: "mset (rotate n xs) = mset xs"
  by (metis rotate_drop_take append_take_drop_id mset_append add.commute)

text \<open>The valid part of the buffer holds the last reports.\<close>

lemma report_ring_last:
  assumes "report_ring hist rl"
  shows "mset (take (rl_numberOfReports rl) (rl_reports rl)) =
    mset (drop (length hist - MAX_REPORT_BUFFER_SIZE) hist)"
proof -
  have len: "length (rl_reports rl) = 10" and num: "rl_numberOfReports rl = min 10 (length hist)"
    and at: "\<And>i. i < length hist \<Longrightarrow> length hist \<le> i + 10 \<Longrightarrow> rl_reports rl ! (i mod 10) = hist ! i"
    using assms by (simp_all add: report_ring_def)
  show ?thesis
  proof (cases "length hist \<le> 10")
    case True
    then have "take (length hist) (rl_reports rl) = hist"
      using len at by (intro nth_equalityI) (simp_all add: mod_less)
    then show ?thesis using True num by (simp add: min_absorb2)
  next
    case False
    have "drop (length hist - 10) hist = rotate (length hist mod 10) (rl_reports rl)"
    proof (rule nth_equalityI)
      show "length (drop (length hist - 10) hist) = length (rotate (length hist mod 10) (rl_reports rl))"
        using False len by simp
      fix j assume "j < length (drop (length hist - 10) hist)"
      then have j: "j < 10" using False by simp
      have "(length hist - 10 + j) mod 10 = (length hist mod 10 + j) mod 10"
        using False by (metis add.commute add_diff_inverse_nat linorder_not_le mod_add_left_eq
            mod_add_self1 less_imp_le_nat)
      then show "drop (length hist - 10) hist ! j = rotate (length hist mod 10) (rl_reports rl) ! j"
        using False j len at [of "length hist - 10 + j"] by (simp add: nth_rotate)
    qed
    then show ?thesis using False num len by (simp add: min_absorb1 mset_rotate_list)
  qed
qed

lemma report_traps_loop_filter:
  assumes "length rps + rt_count rt \<le> MAX_REPORT_BUFFER_SIZE"
    and "length (rt_reports rt) = MAX_REPORT_BUFFER_SIZE"
  shows "take (rt_count (report_traps_loop father rps rt)) (rt_reports (report_traps_loop father rps rt))
      = take (rt_count rt) (rt_reports rt) @ filter (reported_to father) rps \<and>
    rt_count (report_traps_loop father rps rt) = rt_count rt + length (filter (reported_to father) rps)"
  using assms
proof (induction rps arbitrary: rt)
  case (Cons rp rps)
  let ?rt = "if reported_to father rp
    then rt\<lparr>rt_reports := (rt_reports rt)[rt_count rt := rp], rt_count := rt_count rt + 1\<rparr> else rt"
  have tk: "take (rt_count ?rt) (rt_reports ?rt) =
      take (rt_count rt) (rt_reports rt) @ (if reported_to father rp then [rp] else [])"
    using Cons.prems by (simp add: take_Suc_conv_app_nth)
  show ?case
  proof (cases "rt_count ?rt = 10")
    case True
    then have "rps = []" using Cons.prems by (auto split: if_splits)
    then show ?thesis using True tk by (auto simp: Let_def)
  next
    case False
    have "length rps + rt_count ?rt \<le> 10" "length (rt_reports ?rt) = 10" using Cons.prems by auto
    from Cons.IH [OF this] show ?thesis using False tk by (auto simp: Let_def)
  qed
qed simp

section \<open>Ancestors\<close>

text \<open>
  \<open>descends ps f i\<close>: following the parents from process \<open>i\<close> finds the identifier \<open>f\<close>, at \<open>i\<close> itself
  or above, before going past the process with identifier 1. \<open>rooted ps n i\<close>: process 1 is
  \<open>n\<close> parents up from \<open>i\<close>.
\<close>

inductive descends :: "proc list \<Rightarrow> u32 \<Rightarrow> nat \<Rightarrow> bool" for ps f where
  descends_self: "p_pid (ps ! i) = f \<Longrightarrow> descends ps f i"
| descends_parent: "p_pid (ps ! i) \<noteq> 1 \<Longrightarrow> p_parent (ps ! i) = Some j \<Longrightarrow> descends ps f j \<Longrightarrow>
    descends ps f i"

inductive rooted :: "proc list \<Rightarrow> nat \<Rightarrow> nat \<Rightarrow> bool" for ps where
  rooted_init: "p_pid (ps ! i) = 1 \<Longrightarrow> rooted ps 0 i"
| rooted_up: "p_pid (ps ! i) \<noteq> 1 \<Longrightarrow> p_parent (ps ! i) = Some j \<Longrightarrow> j < length ps \<Longrightarrow> rooted ps n j \<Longrightarrow>
    rooted ps (Suc n) i"

inductive_cases descends_cases: "descends ps f i"
inductive_cases rooted_zero: "rooted ps 0 i"
inductive_cases rooted_suc: "rooted ps (Suc n) i"

lemma rooted_unique: "rooted ps n i \<Longrightarrow> rooted ps m i \<Longrightarrow> n = m"
proof (induction arbitrary: m rule: rooted.induct)
  case (rooted_init i)
  then show ?case by (auto elim: rooted.cases)
next
  case (rooted_up i j n)
  from rooted_up.prems rooted_up.hyps show ?case
    by (auto elim!: rooted.cases [of ps m i] dest: rooted_up.IH)
qed

text \<open>The processes on the way up are all different, so the way is shorter than the table.\<close>

lemma rooted_chain:
  "rooted ps n i \<Longrightarrow> i < length ps \<Longrightarrow>
     \<exists>c. length c = Suc n \<and> distinct c \<and> (\<forall>j\<in>set c. j < length ps \<and> (\<exists>m\<le>n. rooted ps m j))"
proof (induction rule: rooted.induct)
  case (rooted_init i)
  then show ?case by (intro exI [of _ "[i]"]) (auto intro: rooted.rooted_init)
next
  case (rooted_up i j n)
  then obtain c where c: "length c = Suc n" "distinct c"
    "\<forall>j\<in>set c. j < length ps \<and> (\<exists>m\<le>n. rooted ps m j)" by blast
  have i: "rooted ps (Suc n) i" using rooted_up.hyps by (auto intro: rooted.rooted_up)
  then have "i \<notin> set c" using c(3) rooted_unique by fastforce
  then show ?case using c i rooted_up.prems by (intro exI [of _ "i # c"]) (auto intro: le_SucI)
qed

lemma rooted_bound: "rooted ps n i \<Longrightarrow> i < length ps \<Longrightarrow> n < length ps"
proof -
  assume "rooted ps n i" "i < length ps"
  then obtain c where c: "length c = Suc n" "distinct c" "set c \<subseteq> {..<length ps}"
    using rooted_chain by blast
  then have "card (set c) \<le> card {..<length ps}" by (intro card_mono) auto
  then show ?thesis using c by (simp add: distinct_card)
qed

lemma is_father_descends:
  "rooted ps n i \<Longrightarrow> n < k \<Longrightarrow> is_father k ps f (Some i) = Done (descends ps f i)"
proof (induction arbitrary: k rule: rooted.induct)
  case (rooted_init i)
  then obtain k' where "k = Suc k'" by (cases k) auto
  moreover have "descends ps f i \<longleftrightarrow> f = p_pid (ps ! i)"
    using rooted_init by (auto intro: descends_self elim: descends_cases)
  ultimately show ?case using rooted_init by (auto simp: Let_def)
next
  case (rooted_up i j n)
  then obtain k' where k: "k = Suc k'" "n < k'" by (cases k) auto
  have "descends ps f i \<longleftrightarrow> f = p_pid (ps ! i) \<or> descends ps f j"
    using rooted_up.hyps by (auto intro: descends_self descends_parent elim: descends_cases)
  then show ?case using rooted_up k by (auto simp: Let_def)
qed

text \<open>
  The parents form a tree under process 1, and names are arrays of 16 characters.
\<close>

definition forest_ok :: "proc list \<Rightarrow> bool" where
  "forest_ok ps \<longleftrightarrow> length ps = NPROC \<and>
     (\<forall>i<NPROC. p_state (ps ! i) \<noteq> UNUSED \<longrightarrow> (\<exists>n. rooted ps n i) \<and> length (p_name (ps ! i)) = 16)"

text \<open>The processes that \<open>child_processes\<close> lists.\<close>

definition listed :: "proc list \<Rightarrow> u32 \<Rightarrow> nat \<Rightarrow> bool" where
  "listed ps f i \<longleftrightarrow> p_state (ps ! i) \<noteq> UNUSED \<and> descends ps f i"

definition cps_arrays :: "child_processes \<Rightarrow> bool" where
  "cps_arrays cps \<longleftrightarrow> length (cps_processes cps) = NPROC \<and>
     (\<forall>e\<in>set (cps_processes cps). length (pc_name e) = 16)"

lemma strncpy_name:
  assumes "length s = 16" and "length t = 16"
  obtains r where "strncpy s t 16 = Done r" and "length r = 16" and "cstr r = cstr t"
proof -
  let ?r = "take 16 (cstr t) @ replicate (16 - length (cstr t)) 0 @ drop 16 s"
  have le: "length (cstr t) \<le> 16" using assms(2) length_takeWhile_le [of _ t] by (simp add: cstr_def)
  have "cstr ?r = cstr t"
  proof (cases "length (cstr t) = 16")
    case True
    then show ?thesis using assms(1) by (simp add: cstr_def)
  next
    case False
    then obtain m where "16 - length (cstr t) = Suc m" using le by (cases "16 - length (cstr t)") auto
    then have "?r = cstr t @ 0 # replicate m 0 @ drop 16 s" using le by simp
    then show ?thesis by (simp only: cstr_append_zero [OF cstr_nonzero])
  qed
  then show thesis using that [of ?r] strncpy_eq [of 16 s t] assms le by simp
qed

lemma add_child_step:
  assumes ok: "forest_ok ps" and i: "i < NPROC" and f: "f \<noteq> 1"
    and cps: "cps_arrays cps" "cps_count cps < NPROC"
  obtains cps' where "add_child ps f i cps = Done cps'" and "cps_arrays cps'"
    and "cps_count cps' = cps_count cps + (if listed ps f i then 1 else 0)"
    and "map pc_pid (take (cps_count cps') (cps_processes cps')) =
      map pc_pid (take (cps_count cps) (cps_processes cps)) @
        (if listed ps f i then [p_pid (ps ! i)] else [])"
proof (cases "p_state (ps ! i) = UNUSED")
  case True
  then show thesis using that [of cps] cps by (simp add: add_child_def listed_def)
next
  case used: False
  then obtain n where n: "rooted ps n i" and nm: "length (p_name (ps ! i)) = 16"
    using ok i by (auto simp: forest_ok_def)
  have "n < NPROC" using rooted_bound [OF n] ok i by (simp add: forest_ok_def)
  then have fa: "is_father NPROC ps f (Some i) = Done (descends ps f i)"
    using is_father_descends [OF n] by blast
  show thesis
  proof (cases "descends ps f i")
    case False
    then show thesis using that [of cps] cps fa used by (simp add: add_child_def listed_def)
  next
    case True
    have "p_pid (ps ! i) \<noteq> 1" using True f by (auto elim: descends_cases)
    with n obtain j where j: "p_parent (ps ! i) = Some j" by (auto elim: rooted.cases)
    let ?e = "cps_processes cps ! cps_count cps"
    have "?e \<in> set (cps_processes cps)" using cps by (simp add: cps_arrays_def)
    then have "length (pc_name ?e) = 16" using cps by (auto simp: cps_arrays_def)
    then obtain r where r: "strncpy (pc_name ?e) (p_name (ps ! i)) 16 = Done r" "length r = 16"
      using nm strncpy_name by metis
    let ?x = "?e\<lparr>pc_pid := p_pid (ps ! i), pc_state := p_state (ps ! i), pc_name := r,
      pc_ppid := p_pid (ps ! j)\<rparr>"
    let ?c = "cps\<lparr>cps_processes := (cps_processes cps)[cps_count cps := ?x], cps_count := cps_count cps + 1\<rparr>"
    have "add_child ps f i cps = Done ?c"
      using used fa True r j by (simp add: add_child_def Let_def)
    moreover have "cps_arrays ?c"
      using cps r(2) set_update_subset_insert [of "cps_processes cps" "cps_count cps" ?x]
      by (auto simp: cps_arrays_def dest!: subsetD)
    moreover have "map pc_pid (take (cps_count ?c) (cps_processes ?c)) =
        map pc_pid (take (cps_count cps) (cps_processes cps)) @ [p_pid (ps ! i)]"
      using cps by (simp add: take_Suc_conv_app_nth cps_arrays_def)
    ultimately show thesis using that [of ?c] used True by (simp add: listed_def)
  qed
qed

lemma add_children:
  assumes ok: "forest_ok ps" and f: "f \<noteq> 1" and cps: "cps_arrays cps" "cps_count cps = 0"
  shows "k \<le> NPROC \<Longrightarrow> \<exists>cps'. ofold (add_child ps f) [0..<k] cps = Done cps' \<and> cps_arrays cps' \<and>
    cps_count cps' = length (filter (listed ps f) [0..<k]) \<and>
    map pc_pid (take (cps_count cps') (cps_processes cps')) =
      map (\<lambda>i. p_pid (ps ! i)) (filter (listed ps f) [0..<k])"
proof (induction k)
  case 0
  then show ?case using cps by simp
next
  case (Suc k)
  then obtain c where c: "ofold (add_child ps f) [0..<k] cps = Done c" "cps_arrays c"
    "cps_count c = length (filter (listed ps f) [0..<k])"
    "map pc_pid (take (cps_count c) (cps_processes c)) =
      map (\<lambda>i. p_pid (ps ! i)) (filter (listed ps f) [0..<k])"
    by auto
  have "cps_count c < NPROC" using c(3) length_filter_le [of "listed ps f" "[0..<k]"] Suc.prems by simp
  with ok f c(2) Suc.prems obtain c' where "add_child ps f k c = Done c'" "cps_arrays c'"
    "cps_count c' = cps_count c + (if listed ps f k then 1 else 0)"
    "map pc_pid (take (cps_count c') (cps_processes c')) =
      map pc_pid (take (cps_count c) (cps_processes c)) @ (if listed ps f k then [p_pid (ps ! k)] else [])"
    by (auto elim: add_child_step [of ps k f c])
  then show ?case using c by (auto simp: ofold_append)
qed

section \<open>The sort of the process listing\<close>

abbreviation used_ticks :: "proc_info \<Rightarrow> u32" where
  "used_ticks e \<equiv> sum_of_ticks (pi_usage e)"

lemma length_top_swap [simp]: "length (top_swap j es) = length es"
  by (simp add: top_swap_def Let_def)

lemma top_swap_nth:
  assumes "0 < j" and "j < length es"
  shows "top_swap j es ! i = (if used_ticks (es ! j) < used_ticks (es ! (j - 1))
    then (if i = j then es ! (j - 1) else if i = j - 1 then es ! j else es ! i) else es ! i)"
  using assms by (simp add: top_swap_def Let_def nth_list_update)

lemma mset_top_swap: "0 < j \<Longrightarrow> j < n \<Longrightarrow> n \<le> length es \<Longrightarrow> mset (take n (top_swap j es)) = mset (take n es)"
proof -
  assume j: "0 < j" "j < n" "n \<le> length es"
  let ?t = "take n es"
  have "take n (top_swap j es) = (if used_ticks (es ! j) < used_ticks (es ! (j - 1))
      then ?t[j - 1 := ?t ! j, j := ?t ! (j - 1)] else ?t)"
    using j by (simp add: top_swap_def Let_def take_update_swap)
  then show ?thesis using j mset_swap [of "j - 1" ?t j] by (auto simp: list_update_swap)
qed

definition pass :: "nat \<Rightarrow> proc_info list \<Rightarrow> proc_info list" where
  "pass k es = fold top_swap (rev [1..<k + 1]) es"

lemma pass_0 [simp]: "pass 0 es = es"
  by (simp add: pass_def)

lemma pass_Suc: "pass (Suc k) es = pass k (top_swap (Suc k) es)"
  by (simp add: pass_def)

lemma pass_frame:
  "k < length es \<Longrightarrow> length (pass k es) = length es \<and> mset (take (Suc k) (pass k es)) = mset (take (Suc k) es) \<and>
     (\<forall>i>k. pass k es ! i = es ! i)"
proof (induction k arbitrary: es)
  case (Suc k)
  let ?es = "top_swap (Suc k) es"
  have IH: "length (pass k ?es) = length ?es" "mset (take (Suc k) (pass k ?es)) = mset (take (Suc k) ?es)"
    "\<forall>i>k. pass k ?es ! i = ?es ! i"
    using Suc.IH [of ?es] Suc.prems by auto
  have "take (Suc (Suc k)) (pass k ?es) = take (Suc k) (pass k ?es) @ [pass k ?es ! Suc k]"
    "take (Suc (Suc k)) ?es = take (Suc k) ?es @ [?es ! Suc k]"
    using Suc.prems IH(1) by (simp_all add: take_Suc_conv_app_nth)
  then have "mset (take (Suc (Suc k)) (pass k ?es)) = mset (take (Suc (Suc k)) ?es)"
    using IH(2,3) by simp
  also have "\<dots> = mset (take (Suc (Suc k)) es)" using Suc.prems by (intro mset_top_swap) auto
  finally show ?case
    using IH(1,3) Suc.prems by (auto simp: pass_Suc top_swap_nth)
qed simp

lemma pass_sorted:
  "k < length es \<Longrightarrow> sorted (map used_ticks (take k es)) \<Longrightarrow> sorted (map used_ticks (take (Suc k) (pass k es)))"
proof (induction k arbitrary: es)
  case 0
  then show ?case by (cases es) auto
next
  case (Suc k)
  let ?es = "top_swap (Suc k) es"
  have tk: "take k ?es = take k es"
    using Suc.prems(1) by (intro nth_equalityI) (simp_all add: top_swap_nth)
  have split: "take (Suc k) es = take k es @ [es ! k]" "take (Suc k) ?es = take k ?es @ [?es ! k]"
    using Suc.prems(1) by (simp_all add: take_Suc_conv_app_nth)
  have srt: "sorted (map used_ticks (take k es))" "\<forall>e\<in>set (take k es). used_ticks e \<le> used_ticks (es ! k)"
    using Suc.prems(2) unfolding split by (auto simp: sorted_append)
  have hi: "used_ticks (?es ! k) \<le> used_ticks (?es ! Suc k)" "used_ticks (es ! k) \<le> used_ticks (?es ! Suc k)"
    using Suc.prems(1) by (auto simp: top_swap_nth)
  have low: "\<forall>e\<in>set (take (Suc k) ?es). used_ticks e \<le> used_ticks (?es ! Suc k)"
    unfolding split tk using srt(2) hi by auto
  have fr: "length (pass k ?es) = length ?es" "mset (take (Suc k) (pass k ?es)) = mset (take (Suc k) ?es)"
    "pass k ?es ! Suc k = ?es ! Suc k"
    using pass_frame [of k ?es] Suc.prems(1) by auto
  have "set (take (Suc k) (pass k ?es)) = set (take (Suc k) ?es)" using fr(2) by (rule mset_eq_setD)
  moreover have "sorted (map used_ticks (take (Suc k) (pass k ?es)))"
    using Suc.IH [of ?es] Suc.prems(1) srt(1) tk by simp
  moreover have "take (Suc (Suc k)) (pass k ?es) = take (Suc k) (pass k ?es) @ [?es ! Suc k]"
    using fr Suc.prems(1) by (simp add: take_Suc_conv_app_nth)
  ultimately show ?case using low by (simp add: pass_Suc sorted_append)
qed

lemma top_sort_Suc: "0 < n \<Longrightarrow> top_sort (Suc n) es = pass n (top_sort n es)"
  by (simp add: top_sort_def pass_def)

lemma top_sort_correct:
  "n \<le> length es \<Longrightarrow> length (top_sort n es) = length es \<and> mset (take n (top_sort n es)) = mset (take n es) \<and>
     sorted (map used_ticks (take n (top_sort n es))) \<and> (\<forall>i\<ge>n. top_sort n es ! i = es ! i)"
proof (induction n)
  case 0
  then show ?case by (simp add: top_sort_def)
next
  case (Suc n)
  show ?case
  proof (cases "n = 0")
    case True
    then show ?thesis using Suc.prems by (cases es) (auto simp: top_sort_def)
  next
    case False
    let ?t = "top_sort n es"
    have IH: "length ?t = length es" "mset (take n ?t) = mset (take n es)"
      "sorted (map used_ticks (take n ?t))" "\<forall>i\<ge>n. ?t ! i = es ! i"
      using Suc by auto
    have "take (Suc n) ?t = take n ?t @ [?t ! n]" "take (Suc n) es = take n es @ [es ! n]"
      using IH(1) Suc.prems by (simp_all add: take_Suc_conv_app_nth)
    then have "mset (take (Suc n) ?t) = mset (take (Suc n) es)" using IH(2,4) by simp
    then show ?thesis
      using pass_frame [of n ?t] pass_sorted [of n ?t] IH False Suc.prems by (simp add: top_sort_Suc)
  qed
qed

text \<open>The table and the result array fit together.\<close>

definition top_ok :: "proc list \<Rightarrow> top_struct \<Rightarrow> bool" where
  "top_ok ps ts \<longleftrightarrow> length (top_processes ts) = length ps \<and>
     (\<forall>e\<in>set (top_processes ts). length (pi_name e) = 16) \<and>
     (\<forall>p\<in>set ps. p_state p \<noteq> UNUSED \<longrightarrow> length (p_name p) = 16 \<and> p_usage_time p \<noteq> None)"

abbreviation used :: "proc list \<Rightarrow> nat \<Rightarrow> bool" where
  "used ps i \<equiv> p_state (ps ! i) \<noteq> UNUSED"

lemma top_entry_step:
  assumes ok: "top_ok ps ts" and i: "i < length ps"
  obtains e where "top_entry ps i ts = Done (if used ps i then
      ts\<lparr>top_count := top_count ts + 1, top_processes := (top_processes ts)[i := e]\<rparr> else ts)"
    and "used ps i \<Longrightarrow> length (pi_name e) = 16 \<and> pi_pid e = p_pid (ps ! i) \<and>
      pi_usage e = snd (the (p_usage_time (ps ! i)))"
proof (cases "used ps i")
  case True
  have "ps ! i \<in> set ps" "top_processes ts ! i \<in> set (top_processes ts)"
    using ok i by (simp_all add: top_ok_def)
  then have nm: "length (pi_name (top_processes ts ! i)) = 16" "length (p_name (ps ! i)) = 16"
    and "p_usage_time (ps ! i) \<noteq> None"
    using ok True by (auto simp: top_ok_def)
  then obtain pa u where u: "p_usage_time (ps ! i) = Some (pa, u)" by auto
  from nm obtain r where r: "strncpy (pi_name (top_processes ts ! i)) (p_name (ps ! i)) 16 = Done r"
    "length r = 16"
    by (rule strncpy_name)
  let ?e = "(top_processes ts ! i)\<lparr>pi_name := r, pi_state := p_state (ps ! i), pi_pid := p_pid (ps ! i),
    pi_ppid := (case p_parent (ps ! i) of Some j \<Rightarrow> p_pid (ps ! j) | None \<Rightarrow> 0), pi_usage := u\<rparr>"
  show thesis
    by (rule that [of ?e]) (use True r u in \<open>simp_all add: top_entry_def Let_def\<close>)
next
  case False
  then show thesis using that [of undefined] by (simp add: top_entry_def)
qed

lemma top_entries:
  assumes ok: "top_ok ps ts" and c: "top_count ts = 0"
  shows "k \<le> length ps \<Longrightarrow> \<exists>ts'. ofold (top_entry ps) [0..<k] ts = Done ts' \<and> top_ok ps ts' \<and>
    top_count ts' = length (filter (used ps) [0..<k]) \<and>
    (\<forall>i<k. used ps i \<longrightarrow> pi_pid (top_processes ts' ! i) = p_pid (ps ! i) \<and>
       pi_usage (top_processes ts' ! i) = snd (the (p_usage_time (ps ! i)))) \<and>
    (\<forall>i<length ps. \<not> used ps i \<longrightarrow> top_processes ts' ! i = top_processes ts ! i)"
proof (induction k)
  case 0
  then show ?case using ok c by simp
next
  case (Suc k)
  then obtain t where t: "ofold (top_entry ps) [0..<k] ts = Done t" "top_ok ps t"
    "top_count t = length (filter (used ps) [0..<k])"
    "\<forall>i<k. used ps i \<longrightarrow> pi_pid (top_processes t ! i) = p_pid (ps ! i) \<and>
       pi_usage (top_processes t ! i) = snd (the (p_usage_time (ps ! i)))"
    "\<forall>i<length ps. \<not> used ps i \<longrightarrow> top_processes t ! i = top_processes ts ! i"
    by auto
  have k: "k < length ps" using Suc.prems by simp
  obtain e where e: "top_entry ps k t = Done (if used ps k then
      t\<lparr>top_count := top_count t + 1, top_processes := (top_processes t)[k := e]\<rparr> else t)"
    "used ps k \<Longrightarrow> length (pi_name e) = 16 \<and> pi_pid e = p_pid (ps ! k) \<and>
      pi_usage e = snd (the (p_usage_time (ps ! k)))"
    using top_entry_step [OF t(2) k] by blast
  have len: "length (top_processes t) = length ps" using t(2) by (simp add: top_ok_def)
  show ?case
  proof (cases "used ps k")
    case True
    let ?t = "t\<lparr>top_count := top_count t + 1, top_processes := (top_processes t)[k := e]\<rparr>"
    have "top_ok ps ?t"
      using t(2) e(2) True set_update_subset_insert [of "top_processes t" k e]
      by (auto simp: top_ok_def dest!: subsetD)
    moreover have "ofold (top_entry ps) [0..<Suc k] ts = Done ?t"
      using t(1) e(1) True by (simp add: ofold_append)
    ultimately show ?thesis using t(3-5) e(2) True k len by (auto simp: nth_list_update less_Suc_eq)
  next
    case False
    then show ?thesis using t e(1) by (auto simp: ofold_append less_Suc_eq)
  qed
qed

text \<open>What the listing contains before and after the sort.\<close>

lemma top_func_result:
  assumes ok: "top_ok ps ts"
  obtains ts' es where "top_func ps ts = Done (0, ts')"
    and "top_count ts' = length (filter (used ps) [0..<length ps])"
    and "mset (take (top_count ts') (top_processes ts')) = mset (take (top_count ts') es)"
    and "sorted (map used_ticks (take (top_count ts') (top_processes ts')))"
    and "length es = length ps"
    and "\<And>i. i < length ps \<Longrightarrow> used ps i \<Longrightarrow> pi_pid (es ! i) = p_pid (ps ! i) \<and>
      pi_usage (es ! i) = snd (the (p_usage_time (ps ! i)))"
    and "\<And>i. i < length ps \<Longrightarrow> \<not> used ps i \<Longrightarrow> es ! i = top_processes ts ! i"
    and "\<And>i. top_count ts' \<le> i \<Longrightarrow> top_processes ts' ! i = es ! i"
proof -
  have "top_ok ps (ts\<lparr>top_count := 0\<rparr>)" using ok by (simp add: top_ok_def)
  then obtain t where t: "ofold (top_entry ps) [0..<length ps] (ts\<lparr>top_count := 0\<rparr>) = Done t"
    "top_ok ps t" "top_count t = length (filter (used ps) [0..<length ps])"
    "\<forall>i<length ps. used ps i \<longrightarrow> pi_pid (top_processes t ! i) = p_pid (ps ! i) \<and>
       pi_usage (top_processes t ! i) = snd (the (p_usage_time (ps ! i)))"
    "\<forall>i<length ps. \<not> used ps i \<longrightarrow> top_processes t ! i = top_processes ts ! i"
    using top_entries [of ps "ts\<lparr>top_count := 0\<rparr>" "length ps"] by auto
  have "top_count t \<le> length (top_processes t)"
    using t(2,3) length_filter_le [of "used ps" "[0..<length ps]"] by (simp add: top_ok_def)
  from top_sort_correct [OF this] show thesis
    using that [of "t\<lparr>top_processes := top_sort (top_count t) (top_processes t)\<rparr>" "top_processes t"] t
    by (simp add: top_func_def top_ok_def)
qed

section \<open>Quotas\<close>

lemma set_cpu_quota_loop_result:
  assumes "\<forall>i\<in>set is. used ps i \<longrightarrow> p_usage_time (ps ! i) \<noteq> None"
  shows "set_cpu_quota_loop pid quot is ps =
    (case find (\<lambda>i. used ps i \<and> p_pid (ps ! i) = pid) is of
       None \<Rightarrow> Done (-2, ps)
     | Some i \<Rightarrow> Done (0, upd_proc i (\<lambda>p. p\<lparr>p_usage_time :=
         map_option (\<lambda>(pa, u). (pa, u\<lparr>quota := quot\<rparr>)) (p_usage_time p)\<rparr>) ps))"
  using assms by (induction "is") (auto simp: Let_def upd_proc_def)

section \<open>Properties\<close>

text \<open>
  Property C21: the trap-report buffer. After any sequence \<open>rs\<close> of stored reports, the call
  \<open>report_traps\<close> returns exactly those of the last ten reports whose stored ancestors contain
  the caller, each as often as it was stored, and returns 0.
\<close>

theorem report_traps_last_ten:
  assumes "length (rl_reports rl) = MAX_REPORT_BUFFER_SIZE" and "rl_numberOfReports rl = 0"
    and "rl_writeIndex rl = 0" and "length (rt_reports rt) = MAX_REPORT_BUFFER_SIZE"
  shows "\<exists>rt'. report_traps_sys ps me (fold store_report rs rl) rt = (0, rt') \<and>
    mset (take (rt_count rt') (rt_reports rt')) =
      filter_mset (reported_to (p_pid (ps ! me))) (mset (drop (length rs - 10) rs)) \<and>
    rt_count rt' = size (filter_mset (reported_to (p_pid (ps ! me))) (mset (drop (length rs - 10) rs)))"
proof -
  let ?rl = "fold store_report rs rl" and ?f = "reported_to (p_pid (ps ! me))"
  have ring: "report_ring rs ?rl"
    using fold_store_report [of "[]" rl rs] assms by (simp add: report_ring_def)
  then have len: "length (take (rl_numberOfReports ?rl) (rl_reports ?rl)) \<le> 10"
    by (simp add: report_ring_def)
  define rps where "rps = take (rl_numberOfReports ?rl) (rl_reports ?rl)"
  define rt' where "rt' = report_traps_loop (p_pid (ps ! me)) rps (rt\<lparr>rt_count := 0\<rparr>)"
  have "length rps + rt_count (rt\<lparr>rt_count := 0\<rparr>) \<le> 10" using len by (simp add: rps_def)
  then have "take (rt_count rt') (rt_reports rt') = filter ?f rps" "rt_count rt' = length (filter ?f rps)"
    using report_traps_loop_filter [of rps "rt\<lparr>rt_count := 0\<rparr>" "p_pid (ps ! me)", folded rt'_def]
      assms(4) by auto
  moreover have "mset (filter ?f rps) = filter_mset ?f (mset (drop (length rs - 10) rs))"
    using report_ring_last [OF ring] by (simp add: rps_def)
  moreover have "report_traps_sys ps me ?rl rt = (0, rt')"
    by (simp add: report_traps_sys_def Let_def rps_def rt'_def)
  ultimately show ?thesis by (metis size_mset)
qed


text \<open>
  Property C27: when the used slots of the process table are the first \<open>n\<close> ones, \<open>top_func\<close> lists
  each process once with its CPU usage, sorted by used ticks.
\<close>

theorem top_func_sorted_listing:
  assumes "top_ok ps ts" and "n \<le> length ps" and "\<forall>i<length ps. used ps i \<longleftrightarrow> i < n"
  shows "\<exists>ts'. top_func ps ts = Done (0, ts') \<and> top_count ts' = n \<and>
    sorted (map used_ticks (take n (top_processes ts'))) \<and>
    mset (map (\<lambda>e. (pi_pid e, pi_usage e)) (take n (top_processes ts'))) =
      mset (map (\<lambda>p. (p_pid p, snd (the (p_usage_time p)))) (take n ps))"
proof -
  from assms(1) obtain ts' es where t: "top_func ps ts = Done (0, ts')"
    "top_count ts' = length (filter (used ps) [0..<length ps])"
    "mset (take (top_count ts') (top_processes ts')) = mset (take (top_count ts') es)"
    "sorted (map used_ticks (take (top_count ts') (top_processes ts')))" "length es = length ps"
    "\<And>i. i < length ps \<Longrightarrow> used ps i \<Longrightarrow> pi_pid (es ! i) = p_pid (ps ! i) \<and>
      pi_usage (es ! i) = snd (the (p_usage_time (ps ! i)))"
    by (rule top_func_result) blast
  have "filter (used ps) [0..<length ps] = filter (\<lambda>i. i < n) [0..<length ps]"
    using assms(3) by (intro filter_cong) auto
  also have "\<dots> = filter (\<lambda>i. i < n) ([0..<n] @ [n..<length ps])"
    using assms(2) by (metis le0 le_add_diff_inverse upt_add_eq_append)
  also have "\<dots> = [0..<n]" by simp
  finally have n: "top_count ts' = n" using t(2) by simp
  have "map (\<lambda>e. (pi_pid e, pi_usage e)) (take n es) = map (\<lambda>p. (p_pid p, snd (the (p_usage_time p)))) (take n ps)"
    using t(5,6) assms(2,3) by (intro nth_equalityI) auto
  moreover have "mset (map f (take n (top_processes ts'))) = mset (map f (take n es))"
    for f :: "proc_info \<Rightarrow> u32 \<times> cpu_usage"
    using t(3) unfolding n mset_map by (rule arg_cong)
  ultimately have "mset (map (\<lambda>e. (pi_pid e, pi_usage e)) (take n (top_processes ts'))) =
      mset (map (\<lambda>p. (p_pid p, snd (the (p_usage_time p)))) (take n ps))"
    by (simp only:)
  then show ?thesis using t(1,4) n by auto
qed

text \<open>
  Property C34: when the process table has a hole, \<open>top_func\<close> still indexes by slot but counts
  and sorts from the front: the untouched entry of a hole below the count is part of the
  listing, and a process in a slot at or above the count is not moved into it.
\<close>

theorem top_func_hole:
  assumes "top_ok ps ts" and "\<not> used ps j" and "j < length (filter (used ps) [0..<length ps])"
    and "used ps i" and "length (filter (used ps) [0..<length ps]) \<le> i" and "i < length ps"
  shows "\<exists>ts'. top_func ps ts = Done (0, ts') \<and>
    top_processes ts ! j \<in> set (take (top_count ts') (top_processes ts')) \<and>
    top_count ts' \<le> i \<and> pi_pid (top_processes ts' ! i) = p_pid (ps ! i)"
proof -
  from assms(1) obtain ts' es where t: "top_func ps ts = Done (0, ts')"
    "top_count ts' = length (filter (used ps) [0..<length ps])"
    "mset (take (top_count ts') (top_processes ts')) = mset (take (top_count ts') es)"
    "length es = length ps"
    "\<And>i. i < length ps \<Longrightarrow> used ps i \<Longrightarrow> pi_pid (es ! i) = p_pid (ps ! i) \<and>
      pi_usage (es ! i) = snd (the (p_usage_time (ps ! i)))"
    "\<And>i. i < length ps \<Longrightarrow> \<not> used ps i \<Longrightarrow> es ! i = top_processes ts ! i"
    "\<And>i. top_count ts' \<le> i \<Longrightarrow> top_processes ts' ! i = es ! i"
    by (rule top_func_result) blast
  have le: "top_count ts' \<le> length es"
    using t(2,4) length_filter_le [of "used ps" "[0..<length ps]"] by simp
  have j: "j < top_count ts'" "j < length ps" using assms(3) t(2,4) le by auto
  have "take (top_count ts') es ! j \<in> set (take (top_count ts') es)" using j le by (intro nth_mem) simp
  then have "top_processes ts ! j \<in> set (take (top_count ts') es)" using j assms(2) t(6) by simp
  then show ?thesis using t assms(4-6) mset_eq_setD [OF t(3)] by auto
qed


text \<open>
  Property C35: \<open>child_processes\<close> called by process 1, which has no parent, dereferences a null
  pointer: process 1 counts as its own descendant and the code reads its parent's identifier.
\<close>

theorem child_processes_init_faults:
  assumes "ps \<noteq> []" and "p_pid (ps ! 0) = 1" and "p_state (ps ! 0) \<noteq> UNUSED"
    and "p_parent (ps ! 0) = None" and "length (p_name (ps ! 0)) = 16"
    and "cps_arrays cps"
  shows "child_processes_sys ps 0 cps = Fault"
proof -
  let ?c = "cps\<lparr>cps_count := 0\<rparr>"
  have "is_father NPROC ps 1 (Some 0) = Done True" using assms(2) by (simp add: numeral_eq_Suc)
  moreover have "length (pc_name (cps_processes cps ! 0)) = 16"
    using assms(6) by (auto simp: cps_arrays_def)
  then obtain r where "strncpy (pc_name (cps_processes cps ! 0)) (p_name (ps ! 0)) 16 = Done r"
    using assms(5) strncpy_name by metis
  ultimately have "add_child ps 1 0 ?c = Fault"
    using assms(3,4) by (simp add: add_child_def Let_def)
  moreover have "[0..<length ps] = 0 # [1..<length ps]" using assms(1) by (simp add: upt_conv_Cons)
  ultimately show ?thesis using assms(2) by (simp add: child_processes_sys_def)
qed

section \<open>Witnesses\<close>

definition blank_report :: report where
  "blank_report = \<lparr>rep_pname = replicate 16 0, rep_pid = 0, rep_scause = 0, rep_sepc = 0, rep_stval = 0,
     rep_parents = [7, 1, 0, 0], rep_parents_count = 2\<rparr>"

definition demo_usage :: "u32 \<Rightarrow> cpu_usage" where
  "demo_usage t = \<lparr>sum_of_ticks = t, start_tick = 0, quota = MAX_UINT, last_sched_tick = 0,
     deadline = MAX_UINT\<rparr>"

text \<open>Process 1 in slot 0, its child 2 in slot 1, the child's child 3 in slot 2.\<close>

definition demo_family :: "proc list" where
  "demo_family =
     [zero_proc\<lparr>p_state := SLEEPING, p_pid := 1, p_usage_time := Some (0x80001000, demo_usage 9)\<rparr>,
      zero_proc\<lparr>p_state := SLEEPING, p_pid := 2, p_parent := Some 0,
        p_usage_time := Some (0x80002000, demo_usage 4)\<rparr>,
      zero_proc\<lparr>p_state := RUNNABLE, p_pid := 3, p_parent := Some 1,
        p_usage_time := Some (0x80003000, demo_usage 6)\<rparr>] @
     replicate 61 zero_proc"

definition blank_cps :: child_processes where
  "blank_cps = \<lparr>cps_count = 0, cps_processes = replicate NPROC \<lparr>pc_name = replicate 16 0, pc_pid = 0,
     pc_ppid = 0, pc_state = UNUSED, pc_usage = demo_usage 0\<rparr>\<rparr>"

definition blank_top :: "nat \<Rightarrow> top_struct" where
  "blank_top n = \<lparr>top_count = 0, top_processes = replicate n \<lparr>pi_name = replicate 16 0, pi_pid = 77,
     pi_ppid = 0, pi_state = UNUSED, pi_usage = demo_usage 0\<rparr>\<rparr>"

lemma demo_family_nth:
  "demo_family ! 0 = zero_proc\<lparr>p_state := SLEEPING, p_pid := 1, p_usage_time := Some (0x80001000, demo_usage 9)\<rparr>"
  "demo_family ! Suc 0 = zero_proc\<lparr>p_state := SLEEPING, p_pid := 2, p_parent := Some 0,
     p_usage_time := Some (0x80002000, demo_usage 4)\<rparr>"
  "demo_family ! 2 = zero_proc\<lparr>p_state := RUNNABLE, p_pid := 3, p_parent := Some 1,
     p_usage_time := Some (0x80003000, demo_usage 6)\<rparr>"
  "2 < i \<Longrightarrow> i < 64 \<Longrightarrow> demo_family ! i = zero_proc"
  "length demo_family = 64"
  by (simp_all add: demo_family_def nth_append)

lemma demo_family_used: "i < 64 \<Longrightarrow> used demo_family i \<longleftrightarrow> i < 3"
  using demo_family_nth by (cases "i = 0 \<or> i = 1 \<or> i = 2") (auto simp: zero_proc_def)

lemma demo_forest: "forest_ok demo_family"
proof -
  have r0: "rooted demo_family 0 0" by (rule rooted_init) (simp add: demo_family_nth)
  have r1: "rooted demo_family (Suc 0) (Suc 0)"
    by (rule rooted_up [OF _ _ _ r0]) (simp_all add: demo_family_nth zero_proc_def)
  have r2: "rooted demo_family (Suc (Suc 0)) 2"
    by (rule rooted_up [OF _ _ _ r1]) (simp_all add: demo_family_nth zero_proc_def)
  have nm: "length (p_name (demo_family ! i)) = 16" if "i < 64" for i
    using that by (simp add: demo_family_def nth_append nth_Cons zero_proc_def split: nat.split)
  have "(\<exists>n. rooted demo_family n i) \<and> length (p_name (demo_family ! i)) = 16" if "i < 3" for i
  proof -
    from that consider "i = 0" | "i = Suc 0" | "i = 2" by linarith
    then have "\<exists>n. rooted demo_family n i" by cases (use r0 r1 r2 in blast)+
    then show ?thesis using nm that by simp
  qed
  then show ?thesis using demo_family_used by (auto simp: forest_ok_def demo_family_nth)
qed

theorem report_traps_last_ten_witness:
  "\<exists>rt'. report_traps_sys [zero_proc\<lparr>p_pid := 7\<rparr>] 0 (fold store_report (replicate 12 blank_report)
       \<lparr>rl_reports = replicate 10 blank_report, rl_numberOfReports = 0, rl_writeIndex = 0\<rparr>)
       \<lparr>rt_reports = replicate 10 blank_report, rt_count = 3\<rparr> = (0, rt') \<and> rt_count rt' = 10"
proof -
  have "reported_to 7 blank_report"
    unfolding reported_to_def by (rule bexI [of _ 0]) (simp_all add: blank_report_def)
  then have "filter_mset (reported_to 7) (replicate_mset n blank_report) = replicate_mset n blank_report"
    for n by (induction n) auto
  then show ?thesis
    using report_traps_last_ten [of "\<lparr>rl_reports = replicate 10 blank_report, rl_numberOfReports = 0,
        rl_writeIndex = 0\<rparr>" "\<lparr>rt_reports = replicate 10 blank_report, rt_count = 3\<rparr>"
        "[zero_proc\<lparr>p_pid := 7\<rparr>]" 0 "replicate 12 blank_report"]
    by auto
qed


theorem child_processes_init_faults_witness:
  "child_processes_sys demo_family 0 blank_cps = Fault"
  using child_processes_init_faults [of demo_family blank_cps]
  by (auto simp: demo_family_nth zero_proc_def cps_arrays_def blank_cps_def demo_family_def)

lemma demo_top_ok: "top_ok demo_family (blank_top 64)"
  by (auto simp: top_ok_def blank_top_def demo_family_def zero_proc_def)

theorem top_func_sorted_listing_witness:
  "\<exists>ts'. top_func demo_family (blank_top 64) = Done (0, ts') \<and> top_count ts' = 3 \<and>
     sorted (map used_ticks (take 3 (top_processes ts')))"
  using top_func_sorted_listing [OF demo_top_ok, of 3] demo_family_used
  by (auto simp: demo_family_nth)

theorem top_func_hole_witness:
  "\<exists>ts'. top_func [zero_proc\<lparr>p_state := RUNNABLE, p_pid := 1, p_usage_time := Some (0x80001000, demo_usage 1)\<rparr>,
       zero_proc, zero_proc\<lparr>p_state := RUNNABLE, p_pid := 5, p_usage_time := Some (0x80002000, demo_usage 2)\<rparr>]
       (blank_top 3) = Done (0, ts') \<and>
     77 \<in> pi_pid ` set (take (top_count ts') (top_processes ts'))"
proof -
  let ?ps = "[zero_proc\<lparr>p_state := RUNNABLE, p_pid := 1, p_usage_time := Some (0x80001000, demo_usage 1)\<rparr>,
    zero_proc, zero_proc\<lparr>p_state := RUNNABLE, p_pid := 5, p_usage_time := Some (0x80002000, demo_usage 2)\<rparr>]"
  have "top_ok ?ps (blank_top 3)" by (auto simp: top_ok_def blank_top_def zero_proc_def)
  moreover have "length (filter (used ?ps) [0..<length ?ps]) = 2" by (simp add: upt_rec zero_proc_def)
  moreover have "pi_pid (top_processes (blank_top 3) ! 1) = 77" by (simp add: blank_top_def)
  ultimately show ?thesis
    using top_func_hole [of ?ps "blank_top 3" 1 2] by (force simp: zero_proc_def)
qed


end
