(* ===== verification/SysProc.thy ===== *)
theory SysProc
  imports SysFile Reports
begin

text \<open>
  \<^verbatim>\<open>kernel/sysproc.c\<close> and the dispatcher of \<^verbatim>\<open>kernel/syscall.c\<close>. The system calls that fill a structure
  for the user do so in a local variable, whose initial contents, with its address on the kernel
  stack and the padding of its fields, are part of an environment record, together with the context
  switch. The locks around reading the clock are left out.
\<close>

section \<open>Structures as bytes\<close>

primrec procstate_num :: "procstate \<Rightarrow> u32" where
  "procstate_num UNUSED = 0"
| "procstate_num USED = 1"
| "procstate_num SLEEPING = 2"
| "procstate_num RUNNABLE = 3"
| "procstate_num RUNNING = 4"
| "procstate_num ZOMBIE = 5"
| "procstate_num PASSED_QUOTA = 6"
| "procstate_num CHOSEN_TO_RUN = 7"
| "procstate_num DROPPED = 8"

definition usage_bytes :: "cpu_usage \<Rightarrow> u8 list" where
  "usage_bytes u = le32 (sum_of_ticks u) @ le32 (start_tick u) @ le32 (quota u) @ le32 (last_sched_tick u) @ le32 (deadline u)"

definition cps_bytes :: "child_processes \<Rightarrow> u8 list" where
  "cps_bytes c = le32 (of_nat (cps_count c)) @ concat (map (\<lambda>e.
     pc_name e @ le32 (pc_pid e) @ le32 (pc_ppid e) @ le32 (procstate_num (pc_state e)) @ usage_bytes (pc_usage e)) (cps_processes c))"

definition top_bytes :: "top_struct \<Rightarrow> u8 list" where
  "top_bytes t = le32 (of_nat (top_count t)) @ concat (map (\<lambda>e.
     pi_name e @ le32 (pi_pid e) @ le32 (pi_ppid e) @ le32 (procstate_num (pi_state e)) @ usage_bytes (pi_usage e)) (top_processes t))"

text \<open>A report has four bytes of padding after its process identifier and four at its end.\<close>

definition report_bytes :: "u8 list \<times> u8 list \<Rightarrow> report \<Rightarrow> u8 list" where
  "report_bytes pad r = rep_pname r @ le32 (rep_pid r) @ fst pad @ le64 (rep_scause r) @ le64 (rep_sepc r) @ le64 (rep_stval r) @
     concat (map le32 (rep_parents r)) @ le32 (of_nat (rep_parents_count r)) @ snd pad"

definition reptraps_bytes :: "(u8 list \<times> u8 list) list \<Rightarrow> u8 list \<Rightarrow> report_traps \<Rightarrow> u8 list" where
  "reptraps_bytes pads pad r = concat (map2 report_bytes pads (rt_reports r)) @ le32 (of_nat (rt_count r)) @ pad"

record sysenv =
  ev_swtch :: "sys \<Rightarrow> sys outcome"
  ev_pad :: "u8 list"
  ev_pads :: "(u8 list \<times> u8 list) list"
  ev_kaddr :: u64
  ev_kcps :: child_processes
  ev_kreptraps :: report_traps
  ev_ktop :: top_struct

section \<open>Processes\<close>

definition sys_exit :: "sysenv \<Rightarrow> kst \<Rightarrow> (progress \<times> kst) outcome" where
  "sys_exit ev st = obind (argint 0 st) (\<lambda>n. exit (ev_swtch ev) n st)"

definition sys_getpid :: "kst \<Rightarrow> (int \<times> kst) outcome" where
  "sys_getpid st = obind (mypid st) (\<lambda>pid. Done (sint pid, st))"

definition sys_fork :: "kst \<Rightarrow> (int \<times> kst) outcome" where
  "sys_fork st = fork st"

definition sys_wait :: "kst \<Rightarrow> (progress \<times> kst) outcome" where
  "sys_wait st = obind (argaddr 0 st) (\<lambda>p. wait p st)"

definition sys_sbrk :: "kst \<Rightarrow> (int \<times> kst) outcome" where
  "sys_sbrk st =
     obind (argint 0 st) (\<lambda>n.
     obind (current st) (\<lambda>me.
     let addr = p_sz (kproc st me) in
     obind (growproc n me (kpt st)) (\<lambda>(r, pt).
     Done (if r < 0 then -1 else uint addr, set_pt pt st))))"

text \<open>The loop of \<open>sys_sleep\<close>, which has begun at tick \<open>ticks0\<close>.\<close>

definition sleep_until :: "u32 \<Rightarrow> u32 \<Rightarrow> kst \<Rightarrow> (progress \<times> kst) outcome" where
  "sleep_until ticks0 n st =
     (if sy_ticks (ks_sys st) - ticks0 < n then
        obind (current st) (\<lambda>me. Done (if killed me (kpt st) then Returned (-1) else Asleep 0, st))
      else Done (Returned 0, st))"

definition sys_sleep :: "kst \<Rightarrow> (progress \<times> kst) outcome" where
  "sys_sleep st = obind (argint 0 st) (\<lambda>n. sleep_until (sy_ticks (ks_sys st)) (if sint n < 0 then 0 else n) st)"

definition sys_kill :: "kst \<Rightarrow> (int \<times> kst) outcome" where
  "sys_kill st = obind (argint 0 st) (\<lambda>pid. case kill pid (kpt st) of (r, pt) \<Rightarrow> Done (r, set_pt pt st))"

definition sys_uptime :: "kst \<Rightarrow> (int \<times> kst) outcome" where
  "sys_uptime st = Done (uint (sy_ticks (ks_sys st)), st)"

section \<open>Reports\<close>

text \<open>
  The call of \<open>copyin\<close> before and that of \<open>copyout\<close> after the structure has been filled. The first has its
  two addresses swapped: it reads the user address that equals the address \<open>kaddr\<close> of the local variable,
  and stores to the user's address as if it were one of the kernel; its result is not looked at.
\<close>

definition swapped_copyin :: "u64 \<Rightarrow> u64 \<Rightarrow> nat \<Rightarrow> kst \<Rightarrow> kst outcome" where
  "swapped_copyin dst kaddr n st =
     obind (current st) (\<lambda>me.
     obind (copyin (pt_kmem (kpt st)) (p_pagetable (kproc st me)) kaddr n) (\<lambda>(r, bs).
     let k = pt_kmem (kpt st) in Done (set_pt (set_kmem (set_mem (poke (k_mem k) dst bs) k) (kpt st)) st)))"

definition copy_result :: "u64 \<Rightarrow> u8 list \<Rightarrow> int \<Rightarrow> kst \<Rightarrow> (int \<times> kst) outcome" where
  "copy_result dst bs err st =
     obind (current st) (\<lambda>me.
     obind (copyout (pt_kmem (kpt st)) (p_pagetable (kproc st me)) dst bs) (\<lambda>(r, k).
     Done (err, set_pt (set_kmem k (kpt st)) st)))"

definition sys_child_processes :: "sysenv \<Rightarrow> kst \<Rightarrow> (int \<times> kst) outcome" where
  "sys_child_processes ev st =
     obind (argaddr 0 st) (\<lambda>cps.
     obind (current st) (\<lambda>me.
     obind (swapped_copyin cps (ev_kaddr ev) (length (cps_bytes (ev_kcps ev))) st) (\<lambda>st.
     obind (child_processes_sys (pt_procs (kpt st)) me (ev_kcps ev)) (\<lambda>(err, kcps).
     copy_result cps (cps_bytes kcps) err st))))"

definition sys_report_traps :: "sysenv \<Rightarrow> kst \<Rightarrow> (int \<times> kst) outcome" where
  "sys_report_traps ev st =
     obind (argaddr 0 st) (\<lambda>rt.
     obind (current st) (\<lambda>me.
     let bytes = reptraps_bytes (ev_pads ev) (ev_pad ev) in
     obind (swapped_copyin rt (ev_kaddr ev) (length (bytes (ev_kreptraps ev))) st) (\<lambda>st.
     case report_traps_sys (pt_procs (kpt st)) me (ks_reports st) (ev_kreptraps ev) of (err, k) \<Rightarrow>
     copy_result rt (bytes k) err st)))"

definition sys_top_func :: "sysenv \<Rightarrow> kst \<Rightarrow> (int \<times> kst) outcome" where
  "sys_top_func ev st =
     obind (kprintf (str0 (''this is sys_top!'' @ [CHR 0x0A])) [] st) (\<lambda>st.
     obind (argaddr 0 st) (\<lambda>top.
     obind (swapped_copyin top (ev_kaddr ev) (length (top_bytes (ev_ktop ev))) st) (\<lambda>st.
     obind (top_func (pt_procs (kpt st)) (ev_ktop ev)) (\<lambda>(res, ktop).
     copy_result top (top_bytes ktop) res st))))"

section \<open>Threads, quotas and deadlines\<close>

definition sys_create_thread :: "kst \<Rightarrow> (int \<times> kst) outcome" where
  "sys_create_thread st =
     obind (argaddr 0 st) (\<lambda>start_routine.
     obind (argaddr 1 st) (\<lambda>arg.
     obind (argaddr 2 st) (\<lambda>pstack.
     obind (current st) (\<lambda>me.
     obind (create_thread start_routine arg pstack me (kpt st)) (\<lambda>(tid, pt). Done (sint tid, set_pt pt st))))))"

definition sys_join_thread :: "sysenv \<Rightarrow> kst \<Rightarrow> (int \<times> kst) outcome" where
  "sys_join_thread ev st =
     obind (argint 0 st) (\<lambda>tid.
     obind (current st) (\<lambda>me.
     obind (join_thread (ev_swtch ev) tid me (ks_sys st)) (\<lambda>(res, s). Done (res, st\<lparr>ks_sys := s\<rparr>))))"

definition sys_exit_thread :: "sysenv \<Rightarrow> kst \<Rightarrow> (int \<times> kst) outcome" where
  "sys_exit_thread ev st =
     obind (argint 0 st) (\<lambda>tid.
     obind (current st) (\<lambda>me.
     obind (exit_thread (ev_swtch ev) tid me (ks_sys st)) (\<lambda>(res, s). Done (res, st\<lparr>ks_sys := s\<rparr>))))"

definition sys_cpu_used :: "kst \<Rightarrow> (int \<times> kst) outcome" where
  "sys_cpu_used st =
     obind (current st) (\<lambda>me.
     obind (deref (p_usage_time (kproc st me))) (\<lambda>(_, u).
     obind (kprintf (str0 (''(cpu_used) pid:%d -> quota:%d'' @ [CHR 0x0A])) [VInt (ucast (p_pid (kproc st me))), VInt (ucast (quota u))] st) (\<lambda>st.
     obind (cpu_used (pt_procs (kpt st)) me) (\<lambda>n. Done (sint n, st)))))"

definition sys_set_cpu_quota :: "kst \<Rightarrow> (int \<times> kst) outcome" where
  "sys_set_cpu_quota st =
     obind (argint 0 st) (\<lambda>pid.
     obind (argint 1 st) (\<lambda>quot.
     obind (set_cpu_quota pid quot (pt_procs (kpt st))) (\<lambda>(res, ps).
     Done (res, set_pt ((kpt st)\<lparr>pt_procs := ps\<rparr>) st))))"

definition sys_fork_deadline :: "kst \<Rightarrow> (int \<times> kst) outcome" where
  "sys_fork_deadline st =
     obind (argint 0 st) (\<lambda>dl.
     obind (kprintf (str0 (''(sysproc) tick: %d'' @ [CHR 0x0A])) [VInt (ucast (sy_ticks (ks_sys st)))] st) (\<lambda>st.
     fork_deadline dl st))"

section \<open>Dispatch\<close>

text \<open>A call that returns at once.\<close>

definition returns :: "(kst \<Rightarrow> (int \<times> kst) outcome) \<Rightarrow> kst \<Rightarrow> (progress \<times> kst) outcome" where
  "returns f st = obind (f st) (\<lambda>(r, st). Done (Returned r, st))"

text \<open>The table; its index 0 is empty.\<close>

definition syscalls :: "sysenv \<Rightarrow> (kst \<Rightarrow> (progress \<times> kst) outcome) list" where
  "syscalls ev =
     [returns sys_fork, sys_exit ev, sys_wait, returns sys_pipe, sys_read, returns sys_kill, returns sys_exec,
      returns (sys_fstat (ev_pad ev)), returns sys_chdir, returns sys_dup, returns sys_getpid, returns sys_sbrk,
      sys_sleep, returns sys_uptime, returns sys_open, sys_write, returns sys_mknod, returns sys_unlink,
      returns sys_link, returns sys_mkdir, returns sys_close, returns (sys_child_processes ev),
      returns (sys_report_traps ev), returns sys_create_thread, returns (sys_join_thread ev),
      returns (sys_exit_thread ev), returns sys_cpu_used, returns sys_set_cpu_quota,
      returns sys_fork_deadline, returns (sys_top_func ev)]"

definition set_a0 :: "nat \<Rightarrow> u64 \<Rightarrow> kst \<Rightarrow> kst outcome" where
  "set_a0 p v st = obind (deref (p_trapframe (kproc st p))) (\<lambda>(pa, tf).
     Done (kset_proc p (\<lambda>x. x\<lparr>p_trapframe := Some (pa, tf\<lparr>tf_a0 := v\<rparr>)\<rparr>) st))"

definition syscall :: "sysenv \<Rightarrow> kst \<Rightarrow> (progress \<times> kst) outcome" where
  "syscall ev st =
     obind (current st) (\<lambda>p.
     obind (my_frame st) (\<lambda>tf.
     let num = (ucast (tf_a7 tf) :: u32) in
     if sint num > 0 \<and> sint num < int (length (syscalls ev)) + 1 then
       obind ((syscalls ev ! (unat num - 1)) st) (\<lambda>(r, st).
         case r of
           Returned v \<Rightarrow> obind (set_a0 p (of_int v) st) (\<lambda>st. Done (r, st))
         | Asleep _ \<Rightarrow> Done (r, st))
     else
       obind (kprintf (str0 (''%d %s: unknown sys call %d'' @ [CHR 0x0A]))
         [VInt (ucast (p_pid (kproc st p))), VStr (Some (p_name (kproc st p))), VInt (ucast num)] st) (\<lambda>st.
       obind (set_a0 p (-1) st) (\<lambda>st. Done (Returned (-1), st)))))"

end
