(* ===== verification/Trap.thy ===== *)
theory Trap
  imports SysProc
begin

text \<open>
  \<^verbatim>\<open>kernel/trap.c\<close>, \<^verbatim>\<open>kernel/plic.c\<close>, the register setup of \<^verbatim>\<open>kernel/start.c\<close> and \<open>forkret\<close> of
  \<^verbatim>\<open>kernel/proc.c\<close>. The control registers other than \<^verbatim>\<open>sstatus\<close> are a record; the registers of the
  interrupt controller are a function from addresses. The addresses of the assembly entry points and the
  handler of the disk are parameters, and so are the trap registers that a process finds after it has
  given up the processor, since the traps of other processes overwrite them.
\<close>

section \<open>Registers\<close>

record csrs =
  cs_scause :: u64
  cs_sepc :: u64
  cs_stval :: u64
  cs_stvec :: u64
  cs_satp :: u64
  cs_tp :: u64
  cs_time :: u64
  cs_stimecmp :: u64
  cs_plic :: "u64 \<Rightarrow> u32"

record trapenv =
  te_sys :: sysenv
  te_kernelvec :: u64
  te_usertrap :: u64
  te_uservec_off :: u64
  te_userret_off :: u64
  te_disk_intr :: "kst \<Rightarrow> kst outcome"
  te_report :: report
  te_after :: "csrs \<Rightarrow> csrs"

definition SSTATUS_SPP :: u64 where
  "SSTATUS_SPP = push_bit 8 1"

definition SSTATUS_SPIE :: u64 where
  "SSTATUS_SPIE = push_bit 5 1"

section \<open>The interrupt controller\<close>

abbreviation PLIC :: u64 where
  "PLIC \<equiv> 0x0c000000"

abbreviation UART0_IRQ :: u32 where
  "UART0_IRQ \<equiv> 10"

abbreviation VIRTIO0_IRQ :: u32 where
  "VIRTIO0_IRQ \<equiv> 1"

definition PLIC_SENABLE :: "u64 \<Rightarrow> u64" where
  "PLIC_SENABLE hart = PLIC + 0x2080 + hart * 0x100"

definition PLIC_SPRIORITY :: "u64 \<Rightarrow> u64" where
  "PLIC_SPRIORITY hart = PLIC + 0x201000 + hart * 0x2000"

definition PLIC_SCLAIM :: "u64 \<Rightarrow> u64" where
  "PLIC_SCLAIM hart = PLIC + 0x201004 + hart * 0x2000"

definition write_plic :: "u64 \<Rightarrow> u32 \<Rightarrow> csrs \<Rightarrow> csrs" where
  "write_plic a v c = c\<lparr>cs_plic := (cs_plic c)(a := v)\<rparr>"

definition plicinit :: "csrs \<Rightarrow> csrs" where
  "plicinit c = write_plic (PLIC + 1 * 4) 1 (write_plic (PLIC + 10 * 4) 1 c)"

definition plicinithart :: "csrs \<Rightarrow> csrs" where
  "plicinithart c = write_plic (PLIC_SPRIORITY (cs_tp c)) 0
     (write_plic (PLIC_SENABLE (cs_tp c)) (push_bit 10 1 OR push_bit 1 1) c)"

definition plic_claim :: "csrs \<Rightarrow> u32" where
  "plic_claim c = cs_plic c (PLIC_SCLAIM (cs_tp c))"

definition plic_complete :: "u32 \<Rightarrow> csrs \<Rightarrow> csrs" where
  "plic_complete irq c = write_plic (PLIC_SCLAIM (cs_tp c)) irq c"

section \<open>Interrupts\<close>

definition trapinithart :: "trapenv \<Rightarrow> csrs \<Rightarrow> csrs" where
  "trapinithart te c = c\<lparr>cs_stvec := te_kernelvec te\<rparr>"

definition clockintr :: "csrs \<Rightarrow> kst \<Rightarrow> csrs \<times> kst" where
  "clockintr c st =
     (let st = (if cs_tp c = 0
                then kwakeup ChanTicks (st\<lparr>ks_sys := (ks_sys st)\<lparr>sy_ticks := sy_ticks (ks_sys st) + 1\<rparr>\<rparr>) else st)
      in (c\<lparr>cs_stimecmp := cs_time c + 1000000\<rparr>, st))"

definition devintr :: "trapenv \<Rightarrow> csrs \<Rightarrow> kst \<Rightarrow> (nat \<times> csrs \<times> kst) outcome" where
  "devintr te c st =
     (if cs_scause c = 0x8000000000000009 then
        (let irq = plic_claim c in
         obind (if irq = UART0_IRQ then uartintr st
                else if irq = VIRTIO0_IRQ then te_disk_intr te st
                else if irq \<noteq> 0 then kprintf (str0 (''unexpected interrupt irq=%d'' @ [CHR 0x0A])) [VInt (ucast irq)] st
                else Done st) (\<lambda>st.
         Done (1, if irq \<noteq> 0 then plic_complete irq c else c, st)))
      else if cs_scause c = 0x8000000000000005 then
        (case clockintr c st of (c, st) \<Rightarrow> Done (2, c, st))
      else Done (0, c, st))"

definition kyield :: "trapenv \<Rightarrow> csrs \<Rightarrow> kst \<Rightarrow> (csrs \<times> kst) outcome" where
  "kyield te c st = obind (yield (ev_swtch (te_sys te)) (ks_sys st)) (\<lambda>s. Done (te_after te c, st\<lparr>ks_sys := s\<rparr>))"

definition set_frame :: "nat \<Rightarrow> (trapframe \<Rightarrow> trapframe) \<Rightarrow> kst \<Rightarrow> kst outcome" where
  "set_frame p f st = obind (deref (p_trapframe (kproc st p))) (\<lambda>(pa, tf).
     Done (kset_proc p (\<lambda>x. x\<lparr>p_trapframe := Some (pa, f tf)\<rparr>) st))"

definition kusage :: "nat \<Rightarrow> (cpu_usage \<Rightarrow> cpu_usage) \<Rightarrow> kst \<Rightarrow> kst outcome" where
  "kusage p f st = obind (upd_usage p f (ks_sys st)) (\<lambda>s. Done (st\<lparr>ks_sys := s\<rparr>))"

definition upd_hart :: "(hart \<Rightarrow> hart) \<Rightarrow> kst \<Rightarrow> kst" where
  "upd_hart f st = st\<lparr>ks_sys := (ks_sys st)\<lparr>sy_hart := f (sy_hart (ks_sys st))\<rparr>\<rparr>"

section \<open>Returning to user space\<close>

text \<open>\<open>usertrapret\<close> ends in the trampoline, with the page table to switch to as its argument.\<close>

definition MAKE_SATP :: "u64 \<Rightarrow> u64" where
  "MAKE_SATP pagetable = push_bit 60 8 OR drop_bit 12 pagetable"

definition usertrapret :: "trapenv \<Rightarrow> csrs \<Rightarrow> kst \<Rightarrow> (u64 \<times> csrs \<times> kst) outcome" where
  "usertrapret te c st =
     obind (current st) (\<lambda>p.
     let st = upd_hart intr_off st; c = c\<lparr>cs_stvec := TRAMPOLINE + te_uservec_off te\<rparr> in
     obind (set_frame p (\<lambda>tf. tf\<lparr>tf_kernel_satp := cs_satp c, tf_kernel_sp := p_kstack (kproc st p) + PGSIZE,
       tf_kernel_trap := te_usertrap te, tf_kernel_hartid := cs_tp c\<rparr>) st) (\<lambda>st.
     let st = upd_hart (\<lambda>h. h\<lparr>sstatus := (sstatus h AND NOT SSTATUS_SPP) OR SSTATUS_SPIE\<rparr>) st in
     obind (my_frame st) (\<lambda>tf.
     Done (MAKE_SATP (p_pagetable (kproc st p)), c\<lparr>cs_sepc := tf_epc tf\<rparr>, st))))"

definition forkret :: "trapenv \<Rightarrow> bool \<Rightarrow> csrs \<Rightarrow> kst \<Rightarrow> (u64 \<times> csrs \<times> kst) outcome" where
  "forkret te first c st =
     obind (current st) (\<lambda>p.
     obind (release_p p (ks_sys st)) (\<lambda>s.
     let st = st\<lparr>ks_sys := s\<rparr> in
     obind (if first then fsinit ROOTDEV st else Done st) (usertrapret te c)))"

section \<open>Traps\<close>

text \<open>The accounting at the head of \<open>usertrap\<close>, and the check of the deadline.\<close>

definition trap_account :: "nat \<Rightarrow> kst \<Rightarrow> kst outcome" where
  "trap_account p st = kusage p (\<lambda>u. u\<lparr>sum_of_ticks := sum_of_ticks u + (sy_ticks (ks_sys st) - last_sched_tick u),
     last_sched_tick := sy_ticks (ks_sys st)\<rparr>) st"

definition trap_deadline :: "trapenv \<Rightarrow> nat \<Rightarrow> csrs \<Rightarrow> kst \<Rightarrow> (csrs \<times> kst) outcome" where
  "trap_deadline te p c st =
     obind (deref (p_usage_time (kproc st p))) (\<lambda>(_, u).
     if sy_ticks (ks_sys st) \<ge> deadline u then kyield te c (kset_proc p (\<lambda>x. x\<lparr>p_state := DROPPED\<rparr>) st)
     else Done (c, st))"

text \<open>What \<open>usertrap\<close> does about the cause: how a system call ended, the kind of interrupt, and the state.\<close>

definition trap_cause :: "trapenv \<Rightarrow> nat \<Rightarrow> csrs \<Rightarrow> kst \<Rightarrow> (progress \<times> nat \<times> csrs \<times> kst) outcome" where
  "trap_cause te p c st =
     (if cs_scause c = 8 then
        (if killed p (kpt st) then exit (ev_swtch (te_sys te)) (-1) st
         else
           obind (set_frame p (\<lambda>tf. tf\<lparr>tf_epc := tf_epc tf + 4\<rparr>) st) (\<lambda>st.
           obind (syscall (te_sys te) (upd_hart intr_on st)) (\<lambda>(r, st). Done (r, 0, c, st))))
      else
        obind (devintr te c st) (\<lambda>(which_dev, c, st).
          if which_dev \<noteq> 0 then Done (Returned 0, which_dev, c, st)
          else if cs_sepc c = 0xfffffffffffffffe then
            obind (exit_thread (ev_swtch (te_sys te)) (-1) p (ks_sys st)) (\<lambda>(_, s). Done (Returned 0, 0, c, st\<lparr>ks_sys := s\<rparr>))
          else
            obind (add_report_trap (te_report te) (cs_scause c) (cs_sepc c) (cs_stval c) (pt_procs (kpt st)) p (ks_reports st)) (\<lambda>rl.
            obind (kprintf (str0 (''usertrap(): unexpected scause 0x%lx pid=%d'' @ [CHR 0x0A]))
              [VInt (cs_scause c), VInt (ucast (p_pid (kproc st p)))] (st\<lparr>ks_reports := rl\<rparr>)) (\<lambda>st.
            Done (Returned 0, 0, c, set_pt (setkilled p (kpt st)) st)))))"

text \<open>The end of \<open>usertrap\<close> once the cause has been dealt with.\<close>

definition trap_end :: "trapenv \<Rightarrow> nat \<Rightarrow> nat \<Rightarrow> csrs \<Rightarrow> kst \<Rightarrow> (u64 \<times> csrs \<times> kst) outcome" where
  "trap_end te p which_dev c st =
     obind (if killed p (kpt st) then exit (ev_swtch (te_sys te)) (-1) st else Done st) (\<lambda>st.
     obind (if which_dev = 2 then kyield te c st else Done (c, st)) (\<lambda>(c, st).
     obind (kusage p (\<lambda>u. u\<lparr>last_sched_tick := sy_ticks (ks_sys st)\<rparr>) st) (usertrapret te c)))"

text \<open>\<open>Inl\<close>: the system call sleeps; \<open>Inr\<close>: back to user space with this page table.\<close>

definition usertrap :: "trapenv \<Rightarrow> csrs \<Rightarrow> kst \<Rightarrow> ((nat + u64) \<times> csrs \<times> kst) outcome" where
  "usertrap te c st =
     (if sstatus (sy_hart (ks_sys st)) AND SSTATUS_SPP \<noteq> 0 then Panic ''usertrap: not from user mode''
      else let c = c\<lparr>cs_stvec := te_kernelvec te\<rparr> in
        obind (current st) (\<lambda>p.
        obind (trap_account p st) (\<lambda>st.
        obind (trap_deadline te p c st) (\<lambda>(c, st).
        obind (set_frame p (\<lambda>tf. tf\<lparr>tf_epc := cs_sepc c\<rparr>) st) (\<lambda>st.
        obind (trap_cause te p c st) (\<lambda>(r, which_dev, c, st).
          case r of
            Asleep n \<Rightarrow> Done (Inl n, c, st)
          | Returned _ \<Rightarrow> obind (trap_end te p which_dev c st) (\<lambda>(satp, c, st). Done (Inr satp, c, st))))))))"

definition kerneltrap :: "trapenv \<Rightarrow> csrs \<Rightarrow> kst \<Rightarrow> (csrs \<times> kst) outcome" where
  "kerneltrap te c st =
     (let sepc = cs_sepc c; ss = sstatus (sy_hart (ks_sys st)); scause = cs_scause c in
      if ss AND SSTATUS_SPP = 0 then Panic ''kerneltrap: not from supervisor mode''
      else if intr_get (sy_hart (ks_sys st)) then Panic ''kerneltrap: interrupts enabled''
      else obind (devintr te c st) (\<lambda>(which_dev, c, st).
        if which_dev = 0 then
          obind (kprintf (str0 (''scause=0x%lx sepc=0x%lx stval=0x%lx'' @ [CHR 0x0A])) [VInt scause, VInt (cs_sepc c), VInt (cs_stval c)] st)
            (\<lambda>st. Panic ''kerneltrap'')
        else
          obind (if which_dev = 2 \<and> sy_proc (ks_sys st) \<noteq> None then kyield te c st else Done (c, st)) (\<lambda>(c, st).
          Done (c\<lparr>cs_sepc := sepc\<rparr>, upd_hart (\<lambda>h. h\<lparr>sstatus := ss\<rparr>) st))))"

section \<open>Machine mode\<close>

record mregs =
  mr_mstatus :: u64
  mr_mepc :: u64
  mr_satp :: u64
  mr_medeleg :: u64
  mr_mideleg :: u64
  mr_sie :: u64
  mr_pmpaddr0 :: u64
  mr_pmpcfg0 :: u64
  mr_mie :: u64
  mr_menvcfg :: u64
  mr_mcounteren :: u64
  mr_time :: u64
  mr_stimecmp :: u64
  mr_mhartid :: u64
  mr_tp :: u64

definition timerinit :: "mregs \<Rightarrow> mregs" where
  "timerinit m = m\<lparr>mr_mie := mr_mie m OR push_bit 5 1, mr_menvcfg := mr_menvcfg m OR push_bit 63 1,
     mr_mcounteren := mr_mcounteren m OR 2, mr_stimecmp := mr_time m + 1000000\<rparr>"

text \<open>The registers when \<open>start\<close> executes \<^verbatim>\<open>mret\<close>; \<open>mn\<close> is the address of \<^verbatim>\<open>main\<close>.\<close>

definition start :: "u64 \<Rightarrow> mregs \<Rightarrow> mregs" where
  "start mn m =
     (let m = m\<lparr>mr_mstatus := (mr_mstatus m AND NOT (push_bit 11 3)) OR push_bit 11 1, mr_mepc := mn, mr_satp := 0,
            mr_medeleg := 0xffff, mr_mideleg := 0xffff,
            mr_sie := mr_sie m OR push_bit 9 1 OR push_bit 5 1 OR push_bit 1 1,
            mr_pmpaddr0 := 0x3fffffffffffff, mr_pmpcfg0 := 0xf\<rparr>;
          m = timerinit m
      in m\<lparr>mr_tp := scast (ucast (mr_mhartid m) :: u32)\<rparr>)"

section \<open>The deadline check\<close>

lemma acquire_p_state:
  assumes "i < length (sy_procs s)"
  shows "obind (acquire_p i (sy_set i (\<lambda>p. p\<lparr>p_state := x\<rparr>) s)) (\<lambda>s. f (sy_set i (\<lambda>p. p\<lparr>p_state := y\<rparr>) s)) =
     obind (acquire_p i s) (\<lambda>s. f (sy_set i (\<lambda>p. p\<lparr>p_state := y\<rparr>) s))"
proof -
  have "acquire (sy_cpu s) (sy_hart s, p_lock (sproc (sy_set i (\<lambda>p. p\<lparr>p_state := x\<rparr>) s) i)) =
      acquire (sy_cpu s) (sy_hart s, p_lock (sproc s i))"
    using assms by (simp add: upd_proc_def)
  moreover have "sy_set i (\<lambda>p. p\<lparr>p_state := y\<rparr>) (sy_set i (\<lambda>p. p\<lparr>p_lock := lk\<rparr>) ((sy_set i (\<lambda>p. p\<lparr>p_state := x\<rparr>) s)\<lparr>sy_hart := h\<rparr>)) =
      sy_set i (\<lambda>p. p\<lparr>p_state := y\<rparr>) (sy_set i (\<lambda>p. p\<lparr>p_lock := lk\<rparr>) (s\<lparr>sy_hart := h\<rparr>))" for h lk
    using assms by (simp add: sy_set_def upd_pt_def set_proc_def upd_proc_def)
  ultimately show ?thesis unfolding acquire_p_def
    by (cases "acquire (sy_cpu s) (sy_hart s, p_lock (sproc s i))") auto
qed

lemma yield_state:
  assumes "sy_proc s = Some i" and "i < length (sy_procs s)"
  shows "yield swtch (sy_set i (\<lambda>p. p\<lparr>p_state := x\<rparr>) s) = yield swtch s"
proof -
  have "(sy_set i (\<lambda>p. p\<lparr>p_state := x\<rparr>) s)\<lparr>sy_hart := h\<rparr> = sy_set i (\<lambda>p. p\<lparr>p_state := x\<rparr>) (s\<lparr>sy_hart := h\<rparr>)" for h
    by (simp add: sy_set_def upd_pt_def)
  then show ?thesis using assms acquire_p_state [where f = "\<lambda>s. obind (sched swtch s) (release_p i)" and i = i and y = RUNNABLE and x = x]
    by (cases "pop_off (push_off (sy_hart s))") (simp_all add: yield_def myproc_def)
qed

text \<open>
  Property C31: when a process traps after its deadline, \<open>usertrap\<close> marks it as dropped, but the mark does
  not survive: the check behaves as a plain \<open>yield\<close>, which makes the process runnable again, and what
  it then saves as the program counter is the contents of \<^verbatim>\<open>sepc\<close> after the switch, not that of its own trap.
\<close>

theorem deadline_drop_is_lost:
  assumes "sy_proc (ks_sys st) = Some p" and "p < length (pt_procs (kpt st))"
    and "p_usage_time (kproc st p) = Some (pa, u)" and "deadline u \<le> sy_ticks (ks_sys st)"
  shows "obind (trap_deadline te p c st) (\<lambda>(c, st). set_frame p (\<lambda>tf. tf\<lparr>tf_epc := cs_sepc c\<rparr>) st) =
     obind (yield (ev_swtch (te_sys te)) (ks_sys st)) (\<lambda>s.
       set_frame p (\<lambda>tf. tf\<lparr>tf_epc := cs_sepc (te_after te c)\<rparr>) (st\<lparr>ks_sys := s\<rparr>))"
proof -
  have eq: "ks_sys (kset_proc p f st) = sy_set p f (ks_sys st)" for f
    by (simp add: kset_proc_def set_pt_def sy_set_def upd_pt_def)
  have "(kset_proc p f st)\<lparr>ks_sys := s\<rparr> = st\<lparr>ks_sys := s\<rparr>" for f s
    by (simp add: kset_proc_def set_pt_def)
  then have "trap_deadline te p c st = obind (yield (ev_swtch (te_sys te)) (ks_sys st)) (\<lambda>s. Done (te_after te c, st\<lparr>ks_sys := s\<rparr>))"
    using assms yield_state [OF assms(1,2)] by (simp add: trap_deadline_def kyield_def eq)
  then show ?thesis by (simp add: obind_assoc)
qed

text \<open>A process with deadline 100 at tick 200.\<close>

definition late_kst :: kst where
  "late_kst = demo_kst (demo_sys\<lparr>sy_ticks := 200\<rparr>) zero_disk"

theorem deadline_drop_is_lost_witness:
  "\<forall>te c. obind (trap_deadline te 0 c late_kst) (\<lambda>(c, st). set_frame 0 (\<lambda>tf. tf\<lparr>tf_epc := cs_sepc c\<rparr>) st) =
     obind (yield (ev_swtch (te_sys te)) (ks_sys late_kst)) (\<lambda>s.
       set_frame 0 (\<lambda>tf. tf\<lparr>tf_epc := cs_sepc (te_after te c)\<rparr>) (late_kst\<lparr>ks_sys := s\<rparr>))"
proof (intro allI)
  have k: "ks_sys late_kst = demo_sys\<lparr>sy_ticks := 200\<rparr>" by (simp add: late_kst_def demo_kst_def del: replicate.simps)
  show "obind (trap_deadline te 0 c late_kst) (\<lambda>(c, st). set_frame 0 (\<lambda>tf. tf\<lparr>tf_epc := cs_sepc c\<rparr>) st) =
     obind (yield (ev_swtch (te_sys te)) (ks_sys late_kst)) (\<lambda>s.
       set_frame 0 (\<lambda>tf. tf\<lparr>tf_epc := cs_sepc (te_after te c)\<rparr>) (late_kst\<lparr>ks_sys := s\<rparr>))" for te c
    by (rule deadline_drop_is_lost, simp_all add: k demo_sys_def demo_table_def demo_proc_def, simp_all)
qed

end
