(* ===== verification/Spec2Isabelle.thy ===== *)
theory Spec2Isabelle
  imports Queue SleepWakeup Trap
begin

text \<open>
  A verification of the kernel of Custom-XV6, an xv6 for RISC-V extended by threads, CPU quotas,
  deadlines, and system calls that report children, traps and CPU usage.

  \<^bold>\<open>The program and its model.\<close> The kernel runs processes that enter it by system calls, interrupts and
  exceptions. The theories follow its layers; each names the source files that it models at its head.

  \<^item> \<open>Prelude\<close>, \<open>Bytes\<close>: machine words, byte-addressed memory, the type of outcomes, little-endian
    encodings.
  \<^item> \<open>Spinlock\<close> (\<^verbatim>\<open>spinlock.c\<close>), \<open>Queue\<close> (\<^verbatim>\<open>queue.h\<close>), \<open>PriorityQueue\<close> (\<^verbatim>\<open>priority_queue.h\<close>),
    \<open>CString\<close> (\<^verbatim>\<open>string.c\<close>), \<open>Printf\<close> (\<^verbatim>\<open>printf.c\<close>).
  \<^item> \<open>Kalloc\<close> (\<^verbatim>\<open>kalloc.c\<close>), \<open>Vm\<close> and \<open>VmTables\<close> (\<^verbatim>\<open>vm.c\<close>): page allocator and page tables over the bytes
    of physical memory.
  \<^item> \<open>ProcDefs\<close>, \<open>Proc\<close>, \<open>ProcOps\<close>, \<open>ProcAlloc\<close>, \<open>Sched\<close>, \<open>Scheduler\<close>, \<open>SleepWakeup\<close>, \<open>Reports\<close>, \<open>Fork\<close>
    (\<^verbatim>\<open>proc.h\<close>, \<^verbatim>\<open>proc.c\<close>, the reports of \<^verbatim>\<open>trap.c\<close>): the process table, allocation, sleeping and
    waking, threads, the scheduler, the reporting calls, \<open>fork\<close>, \<open>exit\<close> and \<open>wait\<close>.
  \<^item> \<open>Pipe\<close> (\<^verbatim>\<open>pipe.c\<close>), \<open>KState\<close> (the whole kernel state, \<^verbatim>\<open>sleeplock.c\<close>), \<open>Bio\<close> (\<^verbatim>\<open>bio.c\<close>),
    \<open>Log\<close> (\<^verbatim>\<open>log.c\<close>), \<open>Fs\<close>, \<open>Inode\<close>, \<open>Dir\<close> (\<^verbatim>\<open>fs.c\<close>), \<open>File\<close> (\<^verbatim>\<open>file.c\<close>): the file system from disk
    blocks to open files.
  \<^item> \<open>Console\<close> (\<^verbatim>\<open>console.c\<close>, \<^verbatim>\<open>uart.c\<close>), \<open>Syscall\<close> and \<open>SysProc\<close> (\<^verbatim>\<open>syscall.c\<close>, \<^verbatim>\<open>sysproc.c\<close>),
    \<open>Exec\<close> (\<^verbatim>\<open>exec.c\<close>), \<open>SysFile\<close> (\<^verbatim>\<open>sysfile.c\<close>), \<open>Trap\<close> (\<^verbatim>\<open>trap.c\<close>, \<^verbatim>\<open>plic.c\<close>, \<^verbatim>\<open>start.c\<close>).

  \<^bold>\<open>Conventions.\<close> A C integer is a word of its width; loop counters and byte counts that the code keeps
  below the limits of their type are natural numbers. A structure is a record with a prefix on its
  fields; an array is a list; a pointer into a table is an index, the null pointer is \<open>None\<close>, and a
  pointer to a page that its holder owns is the page's address with its contents. A function that
  changes state takes and returns the state. Its outcome is \<open>Done\<close> with a result, \<open>Panic\<close> with the
  kernel's message, \<open>Fault\<close> for an access outside an object or through a null pointer, or \<open>Hang\<close> for
  waiting on something that only another process can do. Calls that sleep in the middle return a
  \<open>progress\<close> instead, \<open>Asleep\<close> with the number of bytes moved so far. A critical section of a spinlock is one
  step; that locks exclude each other, and that sleeping and waking do not lose a wakeup, is proved on the
  interleavings of single steps in \<open>Spinlock\<close> and \<open>SleepWakeup\<close>. The context switch is a function that
  the scheduling operations take as an argument, and so are the other pieces of assembly.

  \<^bold>\<open>Interfaces.\<close> Components meet in locales, each interpreted on the model's own operations: the bounded
  queue (the ring of \<^verbatim>\<open>queue.h\<close> and the pipe buffer), the priority queue, and the frame rules of
  the page-table operations. The block layer is used through its abstract view: what the file system sees in
  each block, how often a block is referenced and who owns it (\<open>bcache_ok\<close>, \<open>view\<close>, \<open>refs\<close>, \<open>owner\<close>);
  the log adds \<open>in_txn\<close>, a process inside a transaction that may still log so many blocks.

  \<^bold>\<open>What is proved.\<close> Locks: mutual exclusion, balanced interrupt disabling. Memory: the free list never hands
  out a page twice; \<open>mappages\<close> maps exactly its range; the user-copy functions agree with a bytewise
  specification. Processes: the priority queue sorts, the scheduler follows deadlines, allocation gives fresh
  processes, no wakeup is lost, thread tables stay consistent. Storage: the buffer cache behaves as an
  array of blocks, a transaction is atomic under power failures at every disk write, recovery can be
  interrupted, the block allocator returns the lowest free block. Console: line editing refines an
  abstract editor. The lemmas of each theory up to its properties are about the invariant of the component
  and the effect of each of its operations. Several theorems state where the code does not do what it means
  to; they are stated for every state in which that happens.

  \<^bold>\<open>Bounds and fuel.\<close> Recursion ends by a measure of the data wherever the code's loop does. Fuel appears
  in \<open>is_father\<close>, bounded by the size of the process table, which a chain of distinct parents cannot
  exceed; in \<open>freewalk\<close>, bounded by the three levels of a page table; and in \<open>scheduler\<close>, whose rounds are counted
  because the loop does not end. Running out of fuel is \<open>Hang\<close>, and the theorems show that it does not occur.

  \<^bold>\<open>Not modelled.\<close> The assembly (\<^verbatim>\<open>entry.S\<close>, \<^verbatim>\<open>swtch.S\<close>, \<^verbatim>\<open>trampoline.S\<close>, \<^verbatim>\<open>kernelvec.S\<close>), whose effect
  on the registers is a parameter; the virtio driver, whose rings are shared with a device, so that a
  block is read or written in one step; the setup of the serial port and the order of initialisation in
  \<^verbatim>\<open>main\<close>; the user programs and their library, which are clients of the kernel and not part of it; and
  \<^verbatim>\<open>mkfs\<close>, a program of the host.
\<close>

end
